theory Spec2Isabelle
  imports Main "HOL-Library.Multiset"
begin

section \<open>Data model (engine/types.go, engine/orderbook.go)\<close>

datatype Side = Buy | Sell

datatype OrderType = Limit | Market

text \<open>
  \<^verbatim>\<open>Order\<close> of types.go. The int64 fields are integers; \<^verbatim>\<open>time.Time\<close> is an instant, of
  which the engine only uses the order (\<^verbatim>\<open>Equal\<close>, \<^verbatim>\<open>Before\<close>, \<^verbatim>\<open>After\<close>), so it is an integer
  too.
\<close>

record Order =
  ID :: string
  Symbol :: string
  Side :: Side
  Type :: OrderType
  Price :: int
  Quantity :: int
  Remaining :: int
  Timestamp :: int
  Sequence :: int

record MatchResult =
  trSymbol :: string
  BuyOrderID :: string
  SellOrderID :: string
  trPrice :: int
  trQuantity :: int
  trTimestamp :: int

record BookView =
  BestBid :: "Order option"
  BestAsk :: "Order option"

record OrderBookConfig =
  cfgSymbol :: string
  TickSize :: int
  MaxDepth :: int

text \<open>
  \<^verbatim>\<open>orderEntry\<close> of the queue file. In Go an entry holds a pointer to an \<^verbatim>\<open>Order\<close> that no
  other entry shares and that is never reassigned, so the order is stored in the entry.
  Entries themselves are shared: the queues and the \<^verbatim>\<open>orders\<close> index both hold
  \<^verbatim>\<open>*orderEntry\<close>. They live in a store \<open>mem\<close>, a list indexed by address; allocating
  an entry appends to it.
\<close>

record orderEntry =
  order :: Order
  index :: int
  isBid :: bool

type_synonym addr = nat

type_synonym priceTimeQueue = "addr list"

datatype error = SymbolMismatch | InvalidQuantity | TickAlignment | NotFound

text \<open>
  \<^verbatim>\<open>OrderBook\<close>. The two output channels are recorded as the list of values sent on them
  (\<open>trades\<close>) or offered to them (\<open>updates\<close>, whose send is non-blocking and drops when the
  buffer is full). The injectable clock \<^verbatim>\<open>now\<close> is a sequence of readings \<open>now\<close> and
  the number \<open>ticks\<close> of readings taken so far.
\<close>

record OrderBook =
  cfg :: OrderBookConfig
  bids :: priceTimeQueue
  asks :: priceTimeQueue
  orders :: "string \<rightharpoonup> addr"
  seq :: int
  trades :: "MatchResult list"
  updates :: "BookView list"
  now :: "nat \<Rightarrow> int"
  ticks :: nat
  mem :: "orderEntry list"

text \<open>\<^verbatim>\<open>seq++\<close> on an int64 wraps around.\<close>

definition wrap64 :: "int \<Rightarrow> int" where
  "wrap64 x = (x + 2 ^ 63) mod 2 ^ 64 - 2 ^ 63"

definition min_i64 :: "int \<Rightarrow> int \<Rightarrow> int" where
  "min_i64 a b = (if a < b then a else b)"

section \<open>The price-time queue\<close>

text \<open>\<^verbatim>\<open>priceTimeQueue.Less\<close>, on the entries themselves and on two positions of a queue.\<close>

definition entryLess :: "orderEntry \<Rightarrow> orderEntry \<Rightarrow> bool" where
  "entryLess a b =
     (if Price (order a) \<noteq> Price (order b) then
        (if isBid a then Price (order a) > Price (order b)
         else Price (order a) < Price (order b))
      else if Timestamp (order a) \<noteq> Timestamp (order b) then
        Timestamp (order a) < Timestamp (order b)
      else Sequence (order a) < Sequence (order b))"

definition Less :: "orderEntry list \<Rightarrow> priceTimeQueue \<Rightarrow> nat \<Rightarrow> nat \<Rightarrow> bool" where
  "Less m q i j = entryLess (m ! (q ! i)) (m ! (q ! j))"

definition Swap :: "orderEntry list \<Rightarrow> priceTimeQueue \<Rightarrow> nat \<Rightarrow> nat
    \<Rightarrow> orderEntry list \<times> priceTimeQueue" where
  "Swap m q i j =
     (let q' = q[i := q ! j, j := q ! i];
          m1 = m[q' ! i := (m ! (q' ! i))\<lparr>index := int i\<rparr>];
          m2 = m1[q' ! j := (m1 ! (q' ! j))\<lparr>index := int j\<rparr>]
      in (m2, q'))"

definition Push :: "orderEntry list \<Rightarrow> priceTimeQueue \<Rightarrow> addr
    \<Rightarrow> orderEntry list \<times> priceTimeQueue" where
  "Push m q x = (m[x := (m ! x)\<lparr>index := int (length q)\<rparr>], q @ [x])"

definition Pop :: "orderEntry list \<Rightarrow> priceTimeQueue
    \<Rightarrow> orderEntry list \<times> priceTimeQueue \<times> addr" where
  "Pop m q =
     (let entry = last q
      in (m[entry := (m ! entry)\<lparr>index := - 1\<rparr>], butlast q, entry))"

definition peek :: "priceTimeQueue \<Rightarrow> addr option" where
  "peek q = (case q of [] \<Rightarrow> None | a # _ \<Rightarrow> Some a)"

subsection \<open>container/heap over the queue\<close>

text \<open>
  The loops \<^verbatim>\<open>up\<close> and \<^verbatim>\<open>down\<close> of Go's container/heap, on positions that are natural
  numbers: \<^verbatim>\<open>(j - 1) / 2\<close> is 0 for \<^verbatim>\<open>j = 0\<close> in Go (division truncates) as it is here.
\<close>

function up :: "orderEntry list \<Rightarrow> priceTimeQueue \<Rightarrow> nat
    \<Rightarrow> orderEntry list \<times> priceTimeQueue" where
  "up m q j =
     (let i = (j - 1) div 2
      in if i = j \<or> \<not> Less m q j i then (m, q)
         else (case Swap m q i j of (m', q') \<Rightarrow> up m' q' i))"
  by pat_completeness auto
termination
  by (relation "measure (\<lambda>(m, q, j). j)") auto

function down_loop :: "orderEntry list \<Rightarrow> priceTimeQueue \<Rightarrow> nat \<Rightarrow> nat
    \<Rightarrow> orderEntry list \<times> priceTimeQueue \<times> nat" where
  "down_loop m q i n =
     (let j1 = 2 * i + 1
      in if j1 \<ge> n then (m, q, i)
         else (let j = (if j1 + 1 < n \<and> Less m q (j1 + 1) j1 then j1 + 1 else j1)
               in if \<not> Less m q j i then (m, q, i)
                  else (case Swap m q i j of (m', q') \<Rightarrow> down_loop m' q' j n)))"
  by pat_completeness auto
termination
  by (relation "measure (\<lambda>(m, q, i, n). n - i)") (auto split: if_splits)

definition down :: "orderEntry list \<Rightarrow> priceTimeQueue \<Rightarrow> nat \<Rightarrow> nat
    \<Rightarrow> orderEntry list \<times> priceTimeQueue \<times> bool" where
  "down m q i0 n = (case down_loop m q i0 n of (m', q', i) \<Rightarrow> (m', q', i > i0))"

definition heap_Push :: "orderEntry list \<Rightarrow> priceTimeQueue \<Rightarrow> addr
    \<Rightarrow> orderEntry list \<times> priceTimeQueue" where
  "heap_Push m q x = (case Push m q x of (m', q') \<Rightarrow> up m' q' (length q' - 1))"

text \<open>
  \<^verbatim>\<open>heap.Pop\<close>, \<^verbatim>\<open>heap.Remove\<close> and \<^verbatim>\<open>heap.Fix\<close> take an int position. Where Go indexes the
  slice out of range the goroutine panics: the result is \<open>None\<close>. \<^verbatim>\<open>heap.Fix\<close> at \<open>-1\<close>,
  or at 0 on an empty queue, touches no element and returns.
\<close>

definition heap_Pop :: "orderEntry list \<Rightarrow> priceTimeQueue
    \<Rightarrow> (orderEntry list \<times> priceTimeQueue \<times> addr) option" where
  "heap_Pop m q =
     (if q = [] then None
      else (let n = length q - 1
            in case Swap m q 0 n of (m1, q1) \<Rightarrow>
               case down m1 q1 0 n of (m2, q2, _) \<Rightarrow> Some (Pop m2 q2)))"

definition heap_Remove :: "orderEntry list \<Rightarrow> priceTimeQueue \<Rightarrow> int
    \<Rightarrow> (orderEntry list \<times> priceTimeQueue \<times> addr) option" where
  "heap_Remove m q i =
     (if i < 0 \<or> int (length q) \<le> i then None
      else (let n = length q - 1
            in if n \<noteq> nat i then
                 (case Swap m q (nat i) n of (m1, q1) \<Rightarrow>
                  case down m1 q1 (nat i) n of (m2, q2, moved) \<Rightarrow>
                    if \<not> moved then (case up m2 q2 (nat i) of (m3, q3) \<Rightarrow> Some (Pop m3 q3))
                    else Some (Pop m2 q2))
               else Some (Pop m q)))"

definition heap_Fix :: "orderEntry list \<Rightarrow> priceTimeQueue \<Rightarrow> int
    \<Rightarrow> (orderEntry list \<times> priceTimeQueue) option" where
  "heap_Fix m q i =
     (if 0 \<le> i \<and> i < int (length q) then
        (case down m q (nat i) (length q) of (m1, q1, moved) \<Rightarrow>
           if \<not> moved then Some (up m1 q1 (nat i)) else Some (m1, q1))
      else if i = - 1 \<or> i = 0 then Some (m, q)
      else None)"

text \<open>\<^verbatim>\<open>priceTimeQueue.remove\<close>: removal by handle, at the position the entry records.\<close>

definition remove :: "orderEntry list \<Rightarrow> priceTimeQueue \<Rightarrow> addr
    \<Rightarrow> (orderEntry list \<times> priceTimeQueue \<times> addr) option" where
  "remove m q entry = heap_Remove m q (index (m ! entry))"

subsection \<open>Depth trimming\<close>

text \<open>One iteration of the scan of \<^verbatim>\<open>findWorstIndex\<close>: the new \<^verbatim>\<open>worstIdx\<close> after position \<open>i\<close>.\<close>

definition worstStep :: "orderEntry list \<Rightarrow> priceTimeQueue \<Rightarrow> bool \<Rightarrow> nat \<Rightarrow> nat \<Rightarrow> nat" where
  "worstStep m q isB worstIdx i =
     (let pi = Price (order (m ! (q ! i)));
          pw = Price (order (m ! (q ! worstIdx)));
          ti = Timestamp (order (m ! (q ! i)));
          tw = Timestamp (order (m ! (q ! worstIdx)))
      in if isB then
           (if pi < pw then i
            else if pi = pw then (if ti > tw then i else worstIdx)
            else worstIdx)
         else
           (if pi > pw then i
            else if pi = pw then (if ti > tw then i else worstIdx)
            else worstIdx))"

definition findWorstIndex :: "orderEntry list \<Rightarrow> priceTimeQueue \<Rightarrow> bool \<Rightarrow> int" where
  "findWorstIndex m q isB =
     (if length q = 0 then - 1
      else int (foldl (worstStep m q isB) 0 [0..<length q]))"


declare up.simps [simp del] down_loop.simps [simp del]

lemma length_Swap: "Swap m q i j = (m', q') \<Longrightarrow> length q' = length q \<and> length m' = length m"
  by (auto simp: Swap_def Let_def)

lemma length_up: "up m q j = (m', q') \<Longrightarrow> length q' = length q \<and> length m' = length m"
proof (induction m q j arbitrary: m' q' rule: up.induct)
  case (1 m q j)
  show ?case
  proof (cases "(j - 1) div 2 = j \<or> \<not> Less m q j ((j - 1) div 2)")
    case True
    with "1.prems" show ?thesis by (simp add: up.simps [of m q j])
  next
    case False
    obtain m1 q1 where sw: "Swap m q ((j - 1) div 2) j = (m1, q1)" by force
    from False sw "1.prems" have "up m1 q1 ((j - 1) div 2) = (m', q')"
      by (simp add: up.simps [of m q j])
    from "1.IH" [OF refl False sw [symmetric] this] length_Swap [OF sw] show ?thesis
      by simp
  qed
qed


lemma length_down_loop:
  "down_loop m q i n = (m', q', k) \<Longrightarrow> length q' = length q \<and> length m' = length m"
proof (induction m q i n arbitrary: m' q' k rule: down_loop.induct)
  case (1 m q i n)
  define j where "j = (if 2 * i + 1 + 1 < n \<and> Less m q (2 * i + 1 + 1) (2 * i + 1)
                        then 2 * i + 1 + 1 else 2 * i + 1)"
  show ?case
  proof (cases "n \<le> 2 * i + 1 \<or> \<not> Less m q j i")
    case True
    with "1.prems" show ?thesis
      by (auto simp: down_loop.simps [of m q i n] j_def Let_def split: if_splits)
  next
    case False
    obtain m1 q1 where sw: "Swap m q i j = (m1, q1)" by force
    from False sw "1.prems" have rec: "down_loop m1 q1 j n = (m', q', k)"
      by (auto simp: down_loop.simps [of m q i n] j_def Let_def split: if_splits)
    from False have a: "\<not> n \<le> 2 * i + 1" and b: "\<not> \<not> Less m q j i" by auto
    from "1.IH" [OF refl a j_def b sw [symmetric] rec] length_Swap [OF sw] show ?thesis
      by simp
  qed
qed

lemma length_down: "down m q i n = (m', q', b) \<Longrightarrow> length q' = length q \<and> length m' = length m"
  by (auto simp: down_def split: prod.splits dest: length_down_loop)

lemma length_Pop: "Pop m q = (m', q', e) \<Longrightarrow> length q' = length q - 1 \<and> length m' = length m"
  by (auto simp: Pop_def Let_def)

lemma length_heap_Remove:
  assumes "heap_Remove m q i = Some (m', q', e)"
  shows "length q' = length q - 1 \<and> length m' = length m \<and> q \<noteq> []"
proof -
  from assms have rng: "0 \<le> i" "i < int (length q)"
    by (auto simp: heap_Remove_def split: if_splits)
  then have ne: "q \<noteq> []" by auto
  show ?thesis
  proof (cases "length q - 1 = nat i")
    case True
    with assms rng have "Pop m q = (m', q', e)" by (simp add: heap_Remove_def)
    with ne length_Pop show ?thesis by blast
  next
    case False
    obtain m1 q1 where sw: "Swap m q (nat i) (length q - 1) = (m1, q1)" by force
    obtain m2 q2 mv where dn: "down m1 q1 (nat i) (length q - 1) = (m2, q2, mv)"
      by (metis prod_cases3)
    obtain m3 q3 where u: "up m2 q2 (nat i) = (m3, q3)" by force
    from assms rng False sw dn u have "Pop m2 q2 = (m', q', e) \<or> Pop m3 q3 = (m', q', e)"
      by (auto simp: heap_Remove_def Let_def split: if_splits)
    with length_Swap [OF sw] length_down [OF dn] length_up [OF u] ne show ?thesis
      by (auto dest!: length_Pop)
  qed
qed

lemma length_heap_Pop:
  assumes "heap_Pop m q = Some (m', q', e)"
  shows "length q' = length q - 1 \<and> length m' = length m \<and> q \<noteq> []"
proof -
  from assms have ne: "q \<noteq> []" by (auto simp: heap_Pop_def split: if_splits)
  obtain m1 q1 where sw: "Swap m q 0 (length q - 1) = (m1, q1)" by force
  obtain m2 q2 mv where dn: "down m1 q1 0 (length q - 1) = (m2, q2, mv)"
    by (metis prod_cases3)
  from assms ne sw dn have "Pop m2 q2 = (m', q', e)"
    by (simp add: heap_Pop_def Let_def)
  with length_Swap [OF sw] length_down [OF dn] ne show ?thesis
    by (auto dest!: length_Pop)
qed

lemma length_heap_Fix:
  assumes "heap_Fix m q i = Some (m', q')"
  shows "length q' = length q \<and> length m' = length m"
proof (cases "0 \<le> i \<and> i < int (length q)")
  case True
  obtain m1 q1 mv where dn: "down m q (nat i) (length q) = (m1, q1, mv)"
    by (metis prod_cases3)
  obtain m2 q2 where u: "up m1 q1 (nat i) = (m2, q2)" by force
  from assms True dn u have "(m', q') = (m1, q1) \<or> (m', q') = (m2, q2)"
    by (auto simp: heap_Fix_def split: if_splits)
  with length_down [OF dn] length_up [OF u] show ?thesis by auto
next
  case False
  with assms show ?thesis by (auto simp: heap_Fix_def split: if_splits)
qed

lemma length_heap_Push:
  "heap_Push m q x = (m', q') \<Longrightarrow> length q' = Suc (length q) \<and> length m' = length m"
  by (auto simp: heap_Push_def Push_def dest!: length_up)


text \<open>
  \<^verbatim>\<open>trimDepth\<close>. The queue file's version takes a callback \<^verbatim>\<open>release\<close> that is called when
  it is not nil; the engine passes none, so it is left out.
\<close>

function trimDepth :: "orderEntry list \<Rightarrow> priceTimeQueue \<Rightarrow> int \<Rightarrow> bool \<Rightarrow> (string \<rightharpoonup> addr)
    \<Rightarrow> (orderEntry list \<times> priceTimeQueue \<times> (string \<rightharpoonup> addr)) option" where
  "trimDepth m q maxDepth isB orderIndex =
     (if maxDepth > 0 \<and> int (length q) > maxDepth then
        (let idx = findWorstIndex m q isB
         in if idx < 0 then Some (m, q, orderIndex)
            else (case heap_Remove m q idx of
                    None \<Rightarrow> None
                  | Some (m', q', entry) \<Rightarrow>
                      trimDepth m' q' maxDepth isB
                        (orderIndex(ID (order (m' ! entry)) := None))))
      else Some (m, q, orderIndex))"
  by pat_completeness auto
termination
  by (relation "measure (\<lambda>(m, q, maxDepth, isB, orderIndex). length q)")
     (auto dest!: length_heap_Remove)

declare trimDepth.simps [simp del]

section \<open>The matching engine (engine/orderbook.go)\<close>

definition selectOrderID :: "Order \<Rightarrow> Order \<Rightarrow> Side \<Rightarrow> string" where
  "selectOrderID incoming rest side = (if Side incoming = side then ID incoming else ID rest)"

text \<open>
  \<^verbatim>\<open>match\<close> receives pointers to the two queues of the book; \<^verbatim>\<open>processAdd\<close> passes the
  asks as \<^verbatim>\<open>opposing\<close> and the bids as \<^verbatim>\<open>resting\<close> with \<^verbatim>\<open>opposingIsBid = false\<close>, or the
  other way round with \<^verbatim>\<open>true\<close>. Here the flag selects them.
\<close>

definition opposing :: "OrderBook \<Rightarrow> bool \<Rightarrow> priceTimeQueue" where
  "opposing s opposingIsBid = (if opposingIsBid then bids s else asks s)"

definition resting :: "OrderBook \<Rightarrow> bool \<Rightarrow> priceTimeQueue" where
  "resting s opposingIsBid = (if opposingIsBid then asks s else bids s)"

definition set_opposing :: "OrderBook \<Rightarrow> bool \<Rightarrow> priceTimeQueue \<Rightarrow> OrderBook" where
  "set_opposing s opposingIsBid q = (if opposingIsBid then s\<lparr>bids := q\<rparr> else s\<lparr>asks := q\<rparr>)"

definition set_resting :: "OrderBook \<Rightarrow> bool \<Rightarrow> priceTimeQueue \<Rightarrow> OrderBook" where
  "set_resting s opposingIsBid q = (if opposingIsBid then s\<lparr>asks := q\<rparr> else s\<lparr>bids := q\<rparr>)"

text \<open>
  One iteration of the loop of \<^verbatim>\<open>match\<close>: \<open>Exit\<close> where the loop ends (its condition fails
  or it breaks), \<open>Next\<close> with the book and the incoming order after the iteration,
  \<open>Crash\<close> where a heap operation panics.
\<close>

datatype matchStep = Exit | Crash | Next OrderBook Order

definition match_step :: "OrderBook \<Rightarrow> Order \<Rightarrow> bool \<Rightarrow> matchStep" where
  "match_step s incoming opposingIsBid =
     (if \<not> Remaining incoming > 0 then Exit
      else case peek (opposing s opposingIsBid) of
        None \<Rightarrow> Exit
      | Some best \<Rightarrow>
          (let bo = order (mem s ! best)
           in if Type incoming = Limit \<and>
                 ((Side incoming = Buy \<and> Price incoming < Price bo) \<or>
                  (Side incoming = Sell \<and> Price incoming > Price bo))
              then Exit
              else
                (let tradedQty = min_i64 (Remaining incoming) (Remaining bo);
                     tradePrice = Price bo;
                     incoming' = incoming\<lparr>Remaining := Remaining incoming - tradedQty\<rparr>;
                     bo' = bo\<lparr>Remaining := Remaining bo - tradedQty\<rparr>;
                     m1 = (mem s)[best := (mem s ! best)\<lparr>order := bo'\<rparr>];
                     t = \<lparr>trSymbol = Symbol incoming',
                          BuyOrderID = selectOrderID incoming' bo' Buy,
                          SellOrderID = selectOrderID incoming' bo' Sell,
                          trPrice = tradePrice,
                          trQuantity = tradedQty,
                          trTimestamp = now s (ticks s)\<rparr>;
                     s1 = s\<lparr>trades := trades s @ [t], ticks := Suc (ticks s)\<rparr>
                 in if Remaining bo' = 0 then
                      (case heap_Pop m1 (opposing s opposingIsBid) of
                         None \<Rightarrow> Crash
                       | Some (m2, q2, _) \<Rightarrow>
                           Next (set_opposing
                                   (s1\<lparr>mem := m2, orders := (orders s)(ID bo' := None)\<rparr>)
                                   opposingIsBid q2)
                                incoming')
                    else
                      (case heap_Fix m1 (opposing s opposingIsBid) (index (m1 ! best)) of
                         None \<Rightarrow> Crash
                       | Some (m2, q2) \<Rightarrow>
                           Next (set_opposing (s1\<lparr>mem := m2\<rparr>) opposingIsBid q2) incoming'))))"

function match_loop :: "OrderBook \<Rightarrow> Order \<Rightarrow> bool \<Rightarrow> (OrderBook \<times> Order) option" where
  "match_loop s incoming opposingIsBid =
     (case match_step s incoming opposingIsBid of
        Exit \<Rightarrow> Some (s, incoming)
      | Crash \<Rightarrow> None
      | Next s' incoming' \<Rightarrow> match_loop s' incoming' opposingIsBid)"
  by pat_completeness auto

lemma opposing_set_opposing [simp]: "opposing (set_opposing s b q) b = q"
  by (simp add: opposing_def set_opposing_def)

lemma match_step_decreases:
  assumes "match_step s incoming b = Next s' incoming'"
  shows "2 * length (opposing s' b) + (if Remaining incoming' > 0 then 1 else 0)
         < 2 * length (opposing s b) + (if Remaining incoming > 0 then 1 else (0::nat))"
proof -
  from assms have pos: "Remaining incoming > 0"
    by (auto simp: match_step_def split: if_splits)
  from assms pos obtain best where pk: "peek (opposing s b) = Some best"
    by (auto simp: match_step_def split: option.splits)
  define bo where "bo = order (mem s ! best)"
  define tq where "tq = min_i64 (Remaining incoming) (Remaining bo)"
  show ?thesis
  proof (cases "Remaining bo - tq = 0")
    case True
    with assms pos pk obtain m2 q2 e where
      hp: "heap_Pop ((mem s)[best := (mem s ! best)\<lparr>order := bo\<lparr>Remaining := Remaining bo - tq\<rparr>\<rparr>])
             (opposing s b) = Some (m2, q2, e)" and q: "opposing s' b = q2"
      by (auto simp: match_step_def Let_def bo_def tq_def split: if_splits option.splits)
    from length_heap_Pop [OF hp] q show ?thesis by (cases "opposing s b") auto
  next
    case False
    then have "tq = Remaining incoming" by (auto simp: tq_def min_i64_def split: if_splits)
    moreover from False assms pos pk obtain m2 q2 where
      hf: "heap_Fix ((mem s)[best := (mem s ! best)\<lparr>order := bo\<lparr>Remaining := Remaining bo - tq\<rparr>\<rparr>])
             (opposing s b)
             (index (((mem s)[best := (mem s ! best)\<lparr>order := bo\<lparr>Remaining := Remaining bo - tq\<rparr>\<rparr>]) ! best))
           = Some (m2, q2)" and q: "opposing s' b = q2"
      and inc: "incoming' = incoming\<lparr>Remaining := Remaining incoming - tq\<rparr>"
      by (auto simp: match_step_def Let_def bo_def tq_def split: if_splits option.splits)
    ultimately show ?thesis using length_heap_Fix [OF hf] pos by simp
  qed
qed

termination match_loop
  by (relation "measure (\<lambda>(s, incoming, b).
        2 * length (opposing s b) + (if Remaining incoming > 0 then 1 else 0))")
     (auto dest!: match_step_decreases split: if_splits)

declare match_loop.simps [simp del]

text \<open>
  \<^verbatim>\<open>match\<close>: the loop, then the posting of a limit remainder on the own side and the depth
  trimming. The incoming order is returned with the book, as the caller's variable holds
  it afterwards.
\<close>

definition match :: "OrderBook \<Rightarrow> Order \<Rightarrow> bool \<Rightarrow> (OrderBook \<times> Order) option" where
  "match s incoming opposingIsBid =
     (case match_loop s incoming opposingIsBid of
        None \<Rightarrow> None
      | Some (s1, incoming1) \<Rightarrow>
          if Remaining incoming1 > 0 \<and> Type incoming1 = Limit then
            (let entry = length (mem s1);
                 m1 = mem s1 @ [\<lparr>order = incoming1, index = 0, isBid = (Side incoming1 = Buy)\<rparr>]
             in case heap_Push m1 (resting s1 opposingIsBid) entry of (m2, q2) \<Rightarrow>
                case trimDepth m2 q2 (MaxDepth (cfg s1)) (Side incoming1 = Buy)
                       ((orders s1)(ID incoming1 \<mapsto> entry)) of
                  None \<Rightarrow> None
                | Some (m3, q3, orders3) \<Rightarrow>
                    Some (set_resting (s1\<lparr>mem := m3, orders := orders3\<rparr>) opposingIsBid q3,
                          incoming1))
          else Some (s1, incoming1))"

text \<open>Go's \<^verbatim>\<open>%\<close> truncates towards zero.\<close>

definition go_rem :: "int \<Rightarrow> int \<Rightarrow> int" where
  "go_rem a b = sgn a * (\<bar>a\<bar> mod \<bar>b\<bar>)"

text \<open>
  The commands return \<open>None\<close> where the worker panics, else the error (\<open>None\<close> for
  \<^verbatim>\<open>nil\<close>) and the book as the command leaves it.
\<close>

definition processAdd :: "OrderBook \<Rightarrow> Order \<Rightarrow> (error option \<times> OrderBook) option" where
  "processAdd s order0 =
     (if Symbol order0 \<noteq> cfgSymbol (cfg s) then Some (Some SymbolMismatch, s)
      else if Quantity order0 \<le> 0 then Some (Some InvalidQuantity, s)
      else if Type order0 = Limit \<and> TickSize (cfg s) \<le> 0 then Some (Some TickAlignment, s)
      else if Type order0 = Limit \<and>
              (Price order0 \<le> 0 \<or> go_rem (Price order0) (TickSize (cfg s)) \<noteq> 0)
           then Some (Some TickAlignment, s)
      else
        (let s1 = s\<lparr>seq := wrap64 (seq s + 1)\<rparr>;
             order1 = order0\<lparr>Sequence := seq s1, Timestamp := now s1 (ticks s1),
                             Remaining := Quantity order0\<rparr>;
             s2 = s1\<lparr>ticks := Suc (ticks s1)\<rparr>
         in case (if Side order1 = Buy then match s2 order1 False else match s2 order1 True) of
              None \<Rightarrow> None
            | Some (s3, _) \<Rightarrow> Some (None, s3)))"

definition processCancel :: "OrderBook \<Rightarrow> string \<Rightarrow> (error option \<times> OrderBook) option" where
  "processCancel s oid =
     (case orders s oid of
        None \<Rightarrow> Some (Some NotFound, s)
      | Some entry \<Rightarrow>
          if isBid (mem s ! entry) then
            (case remove (mem s) (bids s) entry of
               None \<Rightarrow> None
             | Some (m', q', _) \<Rightarrow>
                 Some (None, s\<lparr>mem := m', bids := q', orders := (orders s)(oid := None)\<rparr>))
          else
            (case remove (mem s) (asks s) entry of
               None \<Rightarrow> None
             | Some (m', q', _) \<Rightarrow>
                 Some (None, s\<lparr>mem := m', asks := q', orders := (orders s)(oid := None)\<rparr>)))"

definition updOrder :: "orderEntry list \<Rightarrow> addr \<Rightarrow> (Order \<Rightarrow> Order) \<Rightarrow> orderEntry list" where
  "updOrder m a f = m[a := (m ! a)\<lparr>order := f (order (m ! a))\<rparr>]"

definition processAmend :: "OrderBook \<Rightarrow> string \<Rightarrow> int option \<Rightarrow> int option
    \<Rightarrow> (error option \<times> OrderBook) option" where
  "processAmend s oid newPrice newQty =
     (case orders s oid of
        None \<Rightarrow> Some (Some NotFound, s)
      | Some entry \<Rightarrow>
          if (case newQty of None \<Rightarrow> False | Some n \<Rightarrow> n \<le> 0) then Some (Some InvalidQuantity, s)
          else
            (let s1 = (case newQty of
                         None \<Rightarrow> s
                       | Some n \<Rightarrow>
                           s\<lparr>mem := updOrder (mem s) entry
                                (\<lambda>o1. (o1\<lparr>Quantity := n\<rparr>)
                                   \<lparr>Remaining := (if Remaining o1 > n then n else Remaining o1)\<rparr>)\<rparr>)
             in if (case newPrice of
                      None \<Rightarrow> False
                    | Some p \<Rightarrow> p \<le> 0 \<or> TickSize (cfg s1) \<le> 0 \<or> go_rem p (TickSize (cfg s1)) \<noteq> 0)
                then Some (Some TickAlignment, s1)
                else
                  (let s2 = (case newPrice of
                               None \<Rightarrow> s1
                             | Some p \<Rightarrow>
                                 s1\<lparr>mem := updOrder (mem s1) entry (\<lambda>o1. o1\<lparr>Price := p\<rparr>)\<rparr>);
                       s3 = s2\<lparr>seq := wrap64 (seq s2 + 1)\<rparr>;
                       s4 = s3\<lparr>mem := updOrder (mem s3) entry
                                (\<lambda>o1. o1\<lparr>Sequence := seq s3, Timestamp := now s3 (ticks s3)\<rparr>),
                              ticks := Suc (ticks s3)\<rparr>
                   in if isBid (mem s4 ! entry) then
                        (case heap_Fix (mem s4) (bids s4) (index (mem s4 ! entry)) of
                           None \<Rightarrow> None
                         | Some (m5, q5) \<Rightarrow>
                             (case trimDepth m5 q5 (MaxDepth (cfg s4)) True (orders s4) of
                                None \<Rightarrow> None
                              | Some (m6, q6, orders6) \<Rightarrow>
                                  Some (None, s4\<lparr>mem := m6, bids := q6, orders := orders6\<rparr>)))
                      else
                        (case heap_Fix (mem s4) (asks s4) (index (mem s4 ! entry)) of
                           None \<Rightarrow> None
                         | Some (m5, q5) \<Rightarrow>
                             (case trimDepth m5 q5 (MaxDepth (cfg s4)) False (orders s4) of
                                None \<Rightarrow> None
                              | Some (m6, q6, orders6) \<Rightarrow>
                                  Some (None, s4\<lparr>mem := m6, asks := q6, orders := orders6\<rparr>))))))"

definition snapshotView :: "OrderBook \<Rightarrow> BookView" where
  "snapshotView s =
     \<lparr>BestBid = map_option (\<lambda>best. order (mem s ! best)) (peek (bids s)),
      BestAsk = map_option (\<lambda>best. order (mem s ! best)) (peek (asks s))\<rparr>"

definition publishView :: "OrderBook \<Rightarrow> OrderBook" where
  "publishView s = s\<lparr>updates := updates s @ [snapshotView s]\<rparr>"

text \<open>
  The worker loop \<^verbatim>\<open>run\<close>. \<open>serve\<close> is its body for one request: the reply sent on
  \<^verbatim>\<open>resp\<close> and the book afterwards. A snapshot request answers on the request's own
  channels and changes nothing. \<^verbatim>\<open>requestStop\<close> ends the loop: \<open>run\<close> serves the requests
  received before it.
\<close>

datatype bookRequest =
    requestAdd Order
  | requestCancel string
  | requestAmend string "int option" "int option"
  | requestSnapshot

definition reply :: "(error option \<times> OrderBook) option \<Rightarrow> (error option \<times> OrderBook) option" where
  "reply r =
     (case r of
        None \<Rightarrow> None
      | Some (err, s) \<Rightarrow> Some (err, if err = None then publishView s else s))"

fun serve :: "OrderBook \<Rightarrow> bookRequest \<Rightarrow> (error option \<times> OrderBook) option" where
  "serve s (requestAdd order0) = reply (processAdd s order0)"
| "serve s (requestCancel oid) = reply (processCancel s oid)"
| "serve s (requestAmend oid amendPrice amendQty) = reply (processAmend s oid amendPrice amendQty)"
| "serve s requestSnapshot = Some (None, s)"

fun run :: "OrderBook \<Rightarrow> bookRequest list \<Rightarrow> OrderBook option" where
  "run s [] = Some s"
| "run s (req # reqs) =
     (case serve s req of None \<Rightarrow> None | Some (_, s') \<Rightarrow> run s' reqs)"

definition NewOrderBook :: "OrderBookConfig \<Rightarrow> (nat \<Rightarrow> int) \<Rightarrow> OrderBook" where
  "NewOrderBook c clock =
     \<lparr>cfg = c, bids = [], asks = [], orders = Map.empty, seq = 0, trades = [], updates = [],
      now = clock, ticks = 0, mem = []\<rparr>"


section \<open>Properties of the queue\<close>

subsection \<open>The comparator\<close>

text \<open>\<^verbatim>\<open>Less\<close> with the side as a parameter, on the orders.\<close>

definition before :: "bool \<Rightarrow> Order \<Rightarrow> Order \<Rightarrow> bool" where
  "before isB a b =
     (if Price a \<noteq> Price b then (if isB then Price a > Price b else Price a < Price b)
      else if Timestamp a \<noteq> Timestamp b then Timestamp a < Timestamp b
      else Sequence a < Sequence b)"

lemma entryLess_before: "entryLess a b = before (isBid a) (order a) (order b)"
  by (simp add: entryLess_def before_def)

lemma before_asym: "before isB a b \<Longrightarrow> \<not> before isB b a"
  by (auto simp: before_def split: if_splits)

lemma before_trans: "before isB a b \<Longrightarrow> before isB b c \<Longrightarrow> before isB a c"
  by (auto simp: before_def split: if_splits)

lemma not_before_trans: "\<not> before isB a b \<Longrightarrow> \<not> before isB b c \<Longrightarrow> \<not> before isB a c"
  by (auto simp: before_def split: if_splits)

lemma before_not_before_trans: "before isB a b \<Longrightarrow> \<not> before isB c b \<Longrightarrow> before isB a c"
  by (auto simp: before_def split: if_splits)

lemma not_before_before_trans: "\<not> before isB b a \<Longrightarrow> before isB b c \<Longrightarrow> before isB a c"
  by (auto simp: before_def split: if_splits)

subsection \<open>Heap order on a list of orders\<close>

text \<open>
  The heap order on the first \<open>n\<close> positions of a list of orders, and the two weakened
  forms that hold while an entry sifts: \<open>almost\<close> constrains every pair of a parent and a
  child that does not involve position \<open>i\<close>, and the children of \<open>i\<close> against its parent.
\<close>

definition heap_upto :: "bool \<Rightarrow> Order list \<Rightarrow> nat \<Rightarrow> bool" where
  "heap_upto isB ks n \<longleftrightarrow> (\<forall>c. 0 < c \<and> c < n \<longrightarrow> \<not> before isB (ks ! c) (ks ! ((c - 1) div 2)))"

definition almost :: "bool \<Rightarrow> Order list \<Rightarrow> nat \<Rightarrow> nat \<Rightarrow> bool" where
  "almost isB ks n i \<longleftrightarrow>
     (\<forall>c. 0 < c \<and> c < n \<and> c \<noteq> i \<and> (c - 1) div 2 \<noteq> i
          \<longrightarrow> \<not> before isB (ks ! c) (ks ! ((c - 1) div 2))) \<and>
     (\<forall>c. 0 < c \<and> c < n \<and> (c - 1) div 2 = i \<and> 0 < i
          \<longrightarrow> \<not> before isB (ks ! c) (ks ! ((i - 1) div 2)))"

definition kids_ok :: "bool \<Rightarrow> Order list \<Rightarrow> nat \<Rightarrow> nat \<Rightarrow> bool" where
  "kids_ok isB ks n i \<longleftrightarrow>
     (\<forall>c. 0 < c \<and> c < n \<and> (c - 1) div 2 = i \<longrightarrow> \<not> before isB (ks ! c) (ks ! i))"

definition parent_ok :: "bool \<Rightarrow> Order list \<Rightarrow> nat \<Rightarrow> bool" where
  "parent_ok isB ks i \<longleftrightarrow> (0 < i \<longrightarrow> \<not> before isB (ks ! i) (ks ! ((i - 1) div 2)))"

lemma heap_uptoI:
  assumes "almost isB ks n i" "kids_ok isB ks n i" "parent_ok isB ks i"
  shows "heap_upto isB ks n"
  unfolding heap_upto_def
proof (intro allI impI)
  fix c assume c: "0 < c \<and> c < n"
  show "\<not> before isB (ks ! c) (ks ! ((c - 1) div 2))"
  proof (cases "c = i")
    case True
    with assms(3) c show ?thesis by (simp add: parent_ok_def)
  next
    case False
    show ?thesis
    proof (cases "(c - 1) div 2 = i")
      case True
      with assms(2) c show ?thesis unfolding kids_ok_def by blast
    next
      case pc: False
      with assms(1) c False show ?thesis unfolding almost_def by blast
    qed
  qed
qed

lemma heap_uptoD:
  assumes "heap_upto isB ks n"
  shows "almost isB ks n i" "kids_ok isB ks n i" "i < n \<Longrightarrow> parent_ok isB ks i"
proof -
  show "kids_ok isB ks n i" using assms unfolding heap_upto_def kids_ok_def by blast
  show "i < n \<Longrightarrow> parent_ok isB ks i" using assms unfolding heap_upto_def parent_ok_def by blast
  have "\<not> before isB (ks ! c) (ks ! ((i - 1) div 2))"
    if c: "0 < c" "c < n" "(c - 1) div 2 = i" "0 < i" for c
  proof -
    from c have "i < n" by arith
    with assms c have "\<not> before isB (ks ! c) (ks ! i)" "\<not> before isB (ks ! i) (ks ! ((i - 1) div 2))"
      unfolding heap_upto_def by blast+
    then show ?thesis by (rule not_before_trans)
  qed
  with assms show "almost isB ks n i" unfolding heap_upto_def almost_def by blast
qed

lemma heap_upto_iff:
  "i < n \<Longrightarrow> heap_upto isB ks n \<longleftrightarrow> almost isB ks n i \<and> kids_ok isB ks n i \<and> parent_ok isB ks i"
  using heap_uptoI heap_uptoD by blast

lemma nth_swap:
  "i < length ks \<Longrightarrow> j < length ks \<Longrightarrow>
   (ks[i := ks ! j, j := ks ! i]) ! c = (if c = j then ks ! i else if c = i then ks ! j else ks ! c)"
  by (simp add: nth_list_update)

lemma down_step_inv:
  assumes al: "almost isB ks n i"
    and len: "n \<le> length ks"
    and j: "j < n" "0 < j" "(j - 1) div 2 = i"
    and lt: "before isB (ks ! j) (ks ! i)"
    and sib: "\<And>c. 0 < c \<Longrightarrow> c < n \<Longrightarrow> (c - 1) div 2 = i \<Longrightarrow> \<not> before isB (ks ! c) (ks ! j)"
  shows "almost isB (ks[i := ks ! j, j := ks ! i]) n j \<and> parent_ok isB (ks[i := ks ! j, j := ks ! i]) j"
proof -
  let ?ks = "ks[i := ks ! j, j := ks ! i]"
  from j have ij: "i < j" by arith
  with j len have il: "i < length ks" and jl: "j < length ks" by auto
  note sw = nth_swap [OF il jl]
  have p1: "\<not> before isB (?ks ! c) (?ks ! ((c - 1) div 2))"
    if c: "0 < c" "c < n" "c \<noteq> j" "(c - 1) div 2 \<noteq> j" for c
  proof (cases "c = i")
    case True
    with c have "0 < i" by simp
    with al j have "\<not> before isB (ks ! j) (ks ! ((i - 1) div 2))"
      unfolding almost_def by blast
    moreover from \<open>0 < i\<close> ij have "(i - 1) div 2 \<noteq> i" "(i - 1) div 2 \<noteq> j" by arith+
    ultimately show ?thesis using True ij by (simp add: sw)
  next
    case ci: False
    show ?thesis
    proof (cases "(c - 1) div 2 = i")
      case True
      with sib [of c] c ci show ?thesis by (simp add: sw)
    next
      case False
      with al c ci have "\<not> before isB (ks ! c) (ks ! ((c - 1) div 2))"
        unfolding almost_def by blast
      with c ci False show ?thesis by (simp add: sw)
    qed
  qed
  have p2: "\<not> before isB (?ks ! c) (?ks ! ((j - 1) div 2))"
    if c: "0 < c" "c < n" "(c - 1) div 2 = j" for c
  proof -
    from c j have cj: "j < c" "c \<noteq> i" "c \<noteq> j" by arith+
    with al c ij have "\<not> before isB (ks ! c) (ks ! ((c - 1) div 2))"
      unfolding almost_def by auto
    with c cj j ij show ?thesis by (simp add: sw)
  qed
  have p3: "\<not> before isB (?ks ! j) (?ks ! ((j - 1) div 2))"
    using before_asym [OF lt] j ij by (simp add: sw)
  from p1 p2 p3 show ?thesis unfolding almost_def parent_ok_def by blast
qed

lemma up_step_inv:
  assumes al: "almost isB ks n j"
    and kids: "kids_ok isB ks n j"
    and len: "n \<le> length ks"
    and j: "j < n" "0 < j"
    and lt: "before isB (ks ! j) (ks ! ((j - 1) div 2))"
  shows "almost isB (ks[(j - 1) div 2 := ks ! j, j := ks ! ((j - 1) div 2)]) n ((j - 1) div 2) \<and>
         kids_ok isB (ks[(j - 1) div 2 := ks ! j, j := ks ! ((j - 1) div 2)]) n ((j - 1) div 2)"
proof -
  define p where "p = (j - 1) div 2"
  let ?ks = "ks[p := ks ! j, j := ks ! p]"
  from j have pj: "p < j" unfolding p_def by arith
  with j len have pl: "p < length ks" and jl: "j < length ks" by auto
  note sw = nth_swap [OF pl jl]
  have p1: "\<not> before isB (?ks ! c) (?ks ! ((c - 1) div 2))"
    if c: "0 < c" "c < n" "c \<noteq> p" "(c - 1) div 2 \<noteq> p" for c
  proof (cases "(c - 1) div 2 = j")
    case True
    with c j have cj: "j < c" by arith
    from al c True j have "\<not> before isB (ks ! c) (ks ! p)"
      unfolding almost_def p_def by blast
    with True cj pj show ?thesis by (simp add: sw)
  next
    case False
    from c have "c \<noteq> j" unfolding p_def by auto
    with al c False have "\<not> before isB (ks ! c) (ks ! ((c - 1) div 2))"
      unfolding almost_def by blast
    with c False \<open>c \<noteq> j\<close> show ?thesis by (simp add: sw)
  qed
  have okp: "\<not> before isB (ks ! p) (ks ! ((p - 1) div 2))" if "0 < p"
  proof -
    from that pj have "(p - 1) div 2 \<noteq> j" "p \<noteq> j" by arith+
    with al that pj j show ?thesis unfolding almost_def by auto
  qed
  have sibp: "\<not> before isB (ks ! c) (ks ! p)"
    if c: "0 < c" "c < n" "(c - 1) div 2 = p" "c \<noteq> j" for c
    using al c pj unfolding almost_def by auto
  have p2: "\<not> before isB (?ks ! c) (?ks ! ((p - 1) div 2))"
    if c: "0 < c" "c < n" "(c - 1) div 2 = p" "0 < p" for c
  proof -
    from c pj have pp: "(p - 1) div 2 \<noteq> p" "(p - 1) div 2 \<noteq> j" "c \<noteq> p" by arith+
    show ?thesis
    proof (cases "c = j")
      case True
      with okp [OF c(4)] pp show ?thesis by (simp add: sw)
    next
      case False
      from not_before_trans [OF sibp [OF c(1-3) False] okp [OF c(4)]] False pp
      show ?thesis by (simp add: sw)
    qed
  qed
  have p3: "\<not> before isB (?ks ! c) (?ks ! p)"
    if c: "0 < c" "c < n" "(c - 1) div 2 = p" for c
  proof (cases "c = j")
    case True
    from before_asym [OF lt] have "\<not> before isB (ks ! p) (ks ! j)" by (simp add: p_def)
    with True pj show ?thesis by (simp add: sw)
  next
    case False
    from c have cp: "c \<noteq> p" by arith
    have "\<not> before isB (ks ! c) (ks ! j)"
    proof
      assume "before isB (ks ! c) (ks ! j)"
      from before_trans [OF this lt] sibp [OF c False] show False by (simp add: p_def)
    qed
    with False cp pj show ?thesis by (simp add: sw)
  qed
  from p1 p2 p3 show ?thesis unfolding almost_def kids_ok_def p_def by blast
qed


lemma before_irrefl: "\<not> before isB a a"
  by (simp add: before_def)

lemma down_stop_kids:
  assumes "n \<le> 2 * i + 1 \<or>
           \<not> before isB (ks ! (if 2 * i + 1 + 1 < n \<and> before isB (ks ! (2 * i + 1 + 1)) (ks ! (2 * i + 1))
                               then 2 * i + 1 + 1 else 2 * i + 1)) (ks ! i)"
  shows "kids_ok isB ks n i"
  unfolding kids_ok_def
proof (intro allI impI, elim conjE)
  fix c assume c: "0 < c" "c < n" "(c - 1) div 2 = i"
  then have cc: "c = 2 * i + 1 \<or> c = 2 * i + 1 + 1" by arith
  from c cc assms show "\<not> before isB (ks ! c) (ks ! i)"
    by (auto split: if_splits dest: not_before_trans before_trans)
qed

lemma down_choice_sib:
  assumes "j = (if 2 * i + 1 + 1 < n \<and> before isB (ks ! (2 * i + 1 + 1)) (ks ! (2 * i + 1))
                then 2 * i + 1 + 1 else 2 * i + 1)"
    and "0 < c" "c < n" "(c - 1) div 2 = i"
  shows "\<not> before isB (ks ! c) (ks ! j)"
proof -
  from assms have cc: "c = 2 * i + 1 \<or> c = 2 * i + 1 + 1" by arith
  with assms show ?thesis
    by (auto split: if_splits simp: before_irrefl dest: before_asym)
qed

subsection \<open>Queues in the store\<close>

definition keys :: "orderEntry list \<Rightarrow> priceTimeQueue \<Rightarrow> Order list" where
  "keys m q = map (\<lambda>a. order (m ! a)) q"

definition flags :: "orderEntry list \<Rightarrow> priceTimeQueue \<Rightarrow> bool \<Rightarrow> bool" where
  "flags m q isB \<longleftrightarrow> (\<forall>a\<in>set q. isBid (m ! a) = isB)"

definition idx_ok :: "orderEntry list \<Rightarrow> priceTimeQueue \<Rightarrow> bool" where
  "idx_ok m q \<longleftrightarrow> (\<forall>i<length q. index (m ! (q ! i)) = int i)"

definition qwf :: "orderEntry list \<Rightarrow> priceTimeQueue \<Rightarrow> bool" where
  "qwf m q \<longleftrightarrow> distinct q \<and> (\<forall>a\<in>set q. a < length m) \<and> idx_ok m q"

text \<open>
  What every heap operation does to the store and the queue besides the order it
  establishes: the queue is permuted, no order and no side flag changes, entries outside
  the queue are untouched, and the positions recorded in the entries stay right.
\<close>

definition reorder :: "orderEntry list \<Rightarrow> priceTimeQueue \<Rightarrow> orderEntry list \<Rightarrow> priceTimeQueue \<Rightarrow> bool" where
  "reorder m q m' q' \<longleftrightarrow>
     mset q' = mset q \<and> length m' = length m \<and>
     (\<forall>a. order (m' ! a) = order (m ! a) \<and> isBid (m' ! a) = isBid (m ! a)) \<and>
     (\<forall>a. a \<notin> set q \<longrightarrow> m' ! a = m ! a) \<and>
     (qwf m q \<longrightarrow> qwf m' q')"

lemma reorder_refl: "reorder m q m q"
  by (simp add: reorder_def)

lemma reorder_trans:
  assumes "reorder m q m1 q1" "reorder m1 q1 m2 q2"
  shows "reorder m q m2 q2"
proof -
  from assms have "set q1 = set q" unfolding reorder_def by (metis mset_eq_setD)
  with assms show ?thesis unfolding reorder_def by auto
qed

lemma Less_keys:
  "flags m q isB \<Longrightarrow> i < length q \<Longrightarrow> j < length q \<Longrightarrow>
   Less m q i j = before isB (keys m q ! i) (keys m q ! j)"
  by (simp add: Less_def entryLess_before keys_def flags_def)

lemma set_index_frame:
  "order ((m[x := (m ! x)\<lparr>index := k\<rparr>]) ! a) = order (m ! a) \<and>
   isBid ((m[x := (m ! x)\<lparr>index := k\<rparr>]) ! a) = isBid (m ! a)"
  by (cases "a = x"; cases "x < length m") (auto simp: list_update_beyond)

lemma Swap_q: "Swap m q i j = (m', q') \<Longrightarrow> q' = q[i := q ! j, j := q ! i]"
  by (auto simp: Swap_def Let_def)

lemma Swap_reorder:
  assumes sw: "Swap m q i j = (m', q')" and i: "i < length q" and j: "j < length q"
  shows "reorder m q m' q'"
proof -
  let ?q = "q[i := q ! j, j := q ! i]"
  let ?m1 = "m[?q ! i := (m ! (?q ! i))\<lparr>index := int i\<rparr>]"
  from sw have q': "q' = ?q" by (rule Swap_q)
  from sw have m': "m' = ?m1[?q ! j := (?m1 ! (?q ! j))\<lparr>index := int j\<rparr>]"
    by (auto simp: Swap_def Let_def)
  have ms: "mset q' = mset q" unfolding q' using i j by (simp add: mset_swap)
  then have st: "set q' = set q" by (rule mset_eq_setD)
  have len: "length m' = length m" unfolding m' by simp
  have fr: "order (m' ! a) = order (m ! a) \<and> isBid (m' ! a) = isBid (m ! a)" for a
    unfolding m' using set_index_frame [of ?m1 "?q ! j" "int j" a]
      set_index_frame [of m "?q ! i" "int i" a] by simp
  have qi: "?q ! i \<in> set q" and qj: "?q ! j \<in> set q"
    using i j by (auto simp: nth_list_update)
  have out: "m' ! a = m ! a" if "a \<notin> set q" for a
  proof -
    from that qi qj have "a \<noteq> ?q ! i" "a \<noteq> ?q ! j" by auto
    then show ?thesis unfolding m' by simp
  qed
  have wf: "qwf m' q'" if w: "qwf m q"
  proof -
    from w have d: "distinct q" and r: "\<forall>a\<in>set q. a < length m" and ix: "idx_ok m q"
      unfolding qwf_def by auto
    from d ms have d': "distinct q'" by (metis mset_eq_imp_distinct_iff)
    have "index (m' ! (q' ! k)) = int k" if k: "k < length q" for k
    proof -
      have qk: "?q ! k = (if k = j then q ! i else if k = i then q ! j else q ! k)"
        using i j by (simp add: nth_list_update)
      have lq: "length q' = length q" unfolding q' by simp
      from k i j lq have inj: "q' ! k = q' ! i \<longleftrightarrow> k = i" "q' ! k = q' ! j \<longleftrightarrow> k = j"
        by (simp_all add: nth_eq_iff_index_eq [OF d'])
      from r qi qj have rng: "?q ! i < length m" "?q ! j < length m" by auto
      show ?thesis
      proof (cases "k = j")
        case True
        with rng show ?thesis unfolding m' q' by simp
      next
        case kj: False
        show ?thesis
        proof (cases "k = i")
          case True
          with kj rng inj show ?thesis unfolding m' q' by simp
        next
          case False
          with kj inj have "q' ! k \<noteq> q' ! i" "q' ! k \<noteq> q' ! j" by auto
          moreover from ix k have "index (m ! (q ! k)) = int k" unfolding idx_ok_def by simp
          moreover from False kj qk have "q' ! k = q ! k" unfolding q' by simp
          ultimately show ?thesis unfolding m' q' by simp
        qed
      qed
    qed
    with d' r st len show ?thesis unfolding qwf_def idx_ok_def q' by simp
  qed
  from ms len fr out wf show ?thesis unfolding reorder_def by blast
qed

lemma keys_Swap:
  assumes sw: "Swap m q i j = (m', q')" and i: "i < length q" and j: "j < length q"
  shows "keys m' q' = (keys m q)[i := keys m q ! j, j := keys m q ! i]"
proof -
  from Swap_reorder [OF sw i j] have fr: "\<And>a. order (m' ! a) = order (m ! a)"
    unfolding reorder_def by blast
  show ?thesis unfolding keys_def Swap_q [OF sw] using i j
    by (intro nth_equalityI) (auto simp: fr nth_list_update)
qed

lemma reorder_flags: "reorder m q m' q' \<Longrightarrow> flags m q isB \<Longrightarrow> flags m' q' isB"
  unfolding reorder_def flags_def by (metis mset_eq_setD)

lemma reorder_length: "reorder m q m' q' \<Longrightarrow> length q' = length q"
  unfolding reorder_def by (metis mset_eq_length)

lemma reorder_set: "reorder m q m' q' \<Longrightarrow> set q' = set q"
  unfolding reorder_def by (metis mset_eq_setD)


subsection \<open>The loops \<open>up\<close> and \<open>down\<close>\<close>

lemma up_spec:
  assumes "j < n" "n \<le> length q" "up m q j = (m', q')"
  shows "reorder m q m' q' \<and> (\<forall>c>j. q' ! c = q ! c) \<and>
         (flags m q isB \<longrightarrow> almost isB (keys m q) n j \<longrightarrow> kids_ok isB (keys m q) n j
            \<longrightarrow> heap_upto isB (keys m' q') n)"
  using assms
proof (induction m q j arbitrary: m' q' rule: up.induct)
  case (1 m q j)
  let ?i = "(j - 1) div 2"
  from "1.prems" have jl: "j < length q" by simp
  show ?case
  proof (cases "?i = j \<or> \<not> Less m q j ?i")
    case True
    with "1.prems" have eq: "m' = m" "q' = q" by (simp_all add: up.simps [of m q j])
    have "heap_upto isB (keys m q) n"
      if fl: "flags m q isB" and al: "almost isB (keys m q) n j" and ko: "kids_ok isB (keys m q) n j"
    proof -
      have "parent_ok isB (keys m q) j"
      proof (cases "j = 0")
        case True
        then show ?thesis by (simp add: parent_ok_def)
      next
        case False
        then have "?i < j" by arith
        with True jl fl show ?thesis
          by (simp add: parent_ok_def Less_keys [OF fl, symmetric])
      qed
      with al ko "1.prems"(1) show ?thesis by (simp add: heap_upto_iff [of j n])
    qed
    with eq show ?thesis by (simp add: reorder_refl)
  next
    case False
    then have ij: "?i < j" and j0: "0 < j" by arith+
    with jl have il: "?i < length q" by simp
    obtain m1 q1 where sw: "Swap m q ?i j = (m1, q1)" by force
    from False sw "1.prems" have rec: "up m1 q1 ?i = (m', q')"
      by (simp add: up.simps [of m q j])
    note ro = Swap_reorder [OF sw il jl]
    from reorder_length [OF ro] "1.prems" ij have pre: "?i < n" "n \<le> length q1" by simp_all
    note IH = "1.IH" [OF refl False sw [symmetric] pre rec]
    from IH ro have r: "reorder m q m' q'" by (blast intro: reorder_trans)
    have ab: "q' ! c = q ! c" if "j < c" for c
    proof -
      from that ij IH have "q' ! c = q1 ! c" by auto
      with that ij show ?thesis unfolding Swap_q [OF sw] by simp
    qed
    have hp: "heap_upto isB (keys m' q') n"
      if fl: "flags m q isB" and al: "almost isB (keys m q) n j" and ko: "kids_ok isB (keys m q) n j"
    proof -
      from False fl il jl have lt: "before isB (keys m q ! j) (keys m q ! ?i)"
        by (simp add: Less_keys [OF fl])
      from "1.prems" have nl: "n \<le> length (keys m q)" by (simp add: keys_def)
      from up_step_inv [OF al ko nl "1.prems"(1) j0 lt] keys_Swap [OF sw il jl]
      have "almost isB (keys m1 q1) n ?i" "kids_ok isB (keys m1 q1) n ?i" by simp_all
      with IH reorder_flags [OF ro fl] show ?thesis by blast
    qed
    from r ab hp show ?thesis by blast
  qed
qed

lemma down_loop_spec:
  assumes "n \<le> length q" "down_loop m q i n = (m', q', k)"
  shows "reorder m q m' q' \<and> i \<le> k \<and> (\<forall>c\<ge>n. q' ! c = q ! c) \<and> (k = i \<longrightarrow> m' = m \<and> q' = q) \<and>
         (flags m q isB \<longrightarrow> almost isB (keys m q) n i \<longrightarrow>
            almost isB (keys m' q') n k \<and> kids_ok isB (keys m' q') n k \<and>
            (i < k \<longrightarrow> parent_ok isB (keys m' q') k))"
  using assms
proof (induction m q i n arbitrary: m' q' k rule: down_loop.induct)
  case (1 m q i n)
  define j where "j = (if 2 * i + 1 + 1 < n \<and> Less m q (2 * i + 1 + 1) (2 * i + 1)
                        then 2 * i + 1 + 1 else 2 * i + 1)"
  have jk: "j = (if 2 * i + 1 + 1 < n \<and>
                    before isB (keys m q ! (2 * i + 1 + 1)) (keys m q ! (2 * i + 1))
                 then 2 * i + 1 + 1 else 2 * i + 1)" if "flags m q isB"
    unfolding j_def using "1.prems"(1) by (auto simp: Less_keys [OF that])
  show ?case
  proof (cases "n \<le> 2 * i + 1 \<or> \<not> Less m q j i")
    case True
    with "1.prems" have eq: "m' = m" "q' = q" "k = i"
      by (auto simp: down_loop.simps [of m q i n] j_def Let_def split: if_splits)
    have "kids_ok isB (keys m q) n i" if fl: "flags m q isB"
    proof (rule down_stop_kids)
      show "n \<le> 2 * i + 1 \<or>
           \<not> before isB (keys m q ! (if 2 * i + 1 + 1 < n \<and>
                 before isB (keys m q ! (2 * i + 1 + 1)) (keys m q ! (2 * i + 1))
                               then 2 * i + 1 + 1 else 2 * i + 1)) (keys m q ! i)"
      proof (cases "n \<le> 2 * i + 1")
        case True
        then show ?thesis by simp
      next
        case False
        with True have nl: "\<not> Less m q j i" by simp
        from False "1.prems"(1) have "j < length q" "i < length q"
          unfolding j_def by (auto split: if_splits)
        with nl show ?thesis unfolding jk [OF fl, symmetric] by (simp add: Less_keys [OF fl])
      qed
    qed
    with eq show ?thesis by (simp add: reorder_refl)
  next
    case False
    then have a: "\<not> n \<le> 2 * i + 1" and b: "\<not> \<not> Less m q j i" by auto
    from a have jn: "j < n" "0 < j" "(j - 1) div 2 = i" "i < j"
      unfolding j_def by (auto split: if_splits)
    with "1.prems"(1) have jl: "j < length q" and il: "i < length q" by auto
    obtain m1 q1 where sw: "Swap m q i j = (m1, q1)" by force
    from False sw "1.prems" have rec: "down_loop m1 q1 j n = (m', q', k)"
      by (auto simp: down_loop.simps [of m q i n] j_def Let_def split: if_splits)
    note ro = Swap_reorder [OF sw il jl]
    from reorder_length [OF ro] "1.prems" have pre: "n \<le> length q1" by simp
    note IH = "1.IH" [OF refl a j_def b sw [symmetric] pre rec]
    from IH ro have r: "reorder m q m' q'" by (blast intro: reorder_trans)
    from IH jn have ik: "i \<le> k" "k \<noteq> i" by auto
    have ab: "q' ! c = q ! c" if "n \<le> c" for c
    proof -
      from that IH have "q' ! c = q1 ! c" by auto
      with that jn show ?thesis unfolding Swap_q [OF sw] by simp
    qed
    have hp: "almost isB (keys m' q') n k \<and> kids_ok isB (keys m' q') n k \<and>
            (i < k \<longrightarrow> parent_ok isB (keys m' q') k)"
      if fl: "flags m q isB" and al: "almost isB (keys m q) n i"
    proof -
      from b fl il jl have lt: "before isB (keys m q ! j) (keys m q ! i)"
        by (simp add: Less_keys [OF fl])
      from "1.prems" have nl: "n \<le> length (keys m q)" by (simp add: keys_def)
      have sib: "\<not> before isB (keys m q ! c) (keys m q ! j)"
        if "0 < c" "c < n" "(c - 1) div 2 = i" for c
        using down_choice_sib [OF jk [OF fl] that] .
      from down_step_inv [OF al nl jn(1-3) lt sib] keys_Swap [OF sw il jl]
      have st: "almost isB (keys m1 q1) n j" "parent_ok isB (keys m1 q1) j" by simp_all
      from IH reorder_flags [OF ro fl] st(1)
      have fin: "almost isB (keys m' q') n k" "kids_ok isB (keys m' q') n k"
        "j < k \<longrightarrow> parent_ok isB (keys m' q') k" by blast+
      have "parent_ok isB (keys m' q') k"
      proof (cases "k = j")
        case True
        with IH have "m' = m1" "q' = q1" by auto
        with st(2) True show ?thesis by simp
      next
        case False
        with IH fin show ?thesis by auto
      qed
      with fin show ?thesis by simp
    qed
    from r ik ab hp show ?thesis by blast
  qed
qed


subsection \<open>The heap operations\<close>

lemma almost_cong:
  assumes eq: "\<And>c. c < n \<Longrightarrow> c \<noteq> i \<Longrightarrow> ks' ! c = ks ! c" and al: "almost isB ks n i"
  shows "almost isB ks' n i"
  unfolding almost_def
proof (intro conjI allI impI)
  fix c assume c: "0 < c \<and> c < n \<and> c \<noteq> i \<and> (c - 1) div 2 \<noteq> i"
  then have "(c - 1) div 2 < n" by arith
  with c eq have "ks' ! c = ks ! c" "ks' ! ((c - 1) div 2) = ks ! ((c - 1) div 2)" by simp_all
  moreover from al c have "\<not> before isB (ks ! c) (ks ! ((c - 1) div 2))"
    unfolding almost_def by blast
  ultimately show "\<not> before isB (ks' ! c) (ks' ! ((c - 1) div 2))" by simp
next
  fix c assume c: "0 < c \<and> c < n \<and> (c - 1) div 2 = i \<and> 0 < i"
  then have "(i - 1) div 2 < n" "(i - 1) div 2 \<noteq> i" "c \<noteq> i" by arith+
  with c eq have "ks' ! c = ks ! c" "ks' ! ((i - 1) div 2) = ks ! ((i - 1) div 2)" by simp_all
  moreover from al c have "\<not> before isB (ks ! c) (ks ! ((i - 1) div 2))"
    unfolding almost_def by blast
  ultimately show "\<not> before isB (ks' ! c) (ks' ! ((i - 1) div 2))" by simp
qed

lemma heap_upto_cong:
  assumes eq: "\<And>c. c < n \<Longrightarrow> ks' ! c = ks ! c" and hp: "heap_upto isB ks n"
  shows "heap_upto isB ks' n"
  unfolding heap_upto_def
proof (intro allI impI)
  fix c assume c: "0 < c \<and> c < n"
  then have "(c - 1) div 2 < n" by arith
  with c eq have "ks' ! c = ks ! c" "ks' ! ((c - 1) div 2) = ks ! ((c - 1) div 2)" by simp_all
  moreover from hp c have "\<not> before isB (ks ! c) (ks ! ((c - 1) div 2))"
    unfolding heap_upto_def by blast
  ultimately show "\<not> before isB (ks' ! c) (ks' ! ((c - 1) div 2))" by simp
qed

lemma heap_upto_mono: "heap_upto isB ks n \<Longrightarrow> n' \<le> n \<Longrightarrow> heap_upto isB ks n'"
  unfolding heap_upto_def by auto

text \<open>The effect of removing the entry \<open>e\<close> from a queue, up to the heap order.\<close>

definition removed :: "orderEntry list \<Rightarrow> priceTimeQueue \<Rightarrow> addr
    \<Rightarrow> orderEntry list \<Rightarrow> priceTimeQueue \<Rightarrow> bool" where
  "removed m q e m' q' \<longleftrightarrow>
     mset q = add_mset e (mset q') \<and> length m' = length m \<and>
     (\<forall>a. order (m' ! a) = order (m ! a) \<and> isBid (m' ! a) = isBid (m ! a)) \<and>
     (\<forall>a. a \<notin> set q \<longrightarrow> m' ! a = m ! a) \<and>
     (qwf m q \<longrightarrow> qwf m' q')"

lemma reorder_removed:
  assumes "reorder m q m1 q1" "removed m1 q1 e m' q'"
  shows "removed m q e m' q'"
proof -
  from assms have "set q1 = set q" unfolding reorder_def by (metis mset_eq_setD)
  with assms show ?thesis unfolding reorder_def removed_def by auto
qed

lemma Pop_spec:
  assumes pop: "Pop m q = (m', q', e)" and ne: "q \<noteq> []"
  shows "e = last q \<and> q' = butlast q \<and> removed m q e m' q' \<and> keys m' q' = butlast (keys m q)"
proof -
  from pop have e: "e = last q" and q': "q' = butlast q"
    and m': "m' = m[last q := (m ! last q)\<lparr>index := - 1\<rparr>]"
    by (auto simp: Pop_def Let_def)
  from ne have app: "q = butlast q @ [last q]" by simp
  have ms: "mset q = add_mset e (mset q')"
    unfolding e q' by (subst app) (simp del: append_butlast_last_id)
  have fr: "order (m' ! a) = order (m ! a) \<and> isBid (m' ! a) = isBid (m ! a)" for a
    unfolding m' by (rule set_index_frame)
  have out: "m' ! a = m ! a" if "a \<noteq> last q" for a
    unfolding m' using that by simp
  have wf: "qwf m' q'" if w: "qwf m q"
  proof -
    from w have d: "distinct q" and r: "\<forall>a\<in>set q. a < length m" and ix: "idx_ok m q"
      unfolding qwf_def by auto
    from d have d': "distinct (butlast q)" by (rule distinct_butlast)
    have "index (m' ! (butlast q ! k)) = int k" if k: "k < length (butlast q)" for k
    proof -
      from k have kq: "k < length q" "butlast q ! k = q ! k" by (simp_all add: nth_butlast)
      from ne have "last q = q ! (length q - 1)" by (rule last_conv_nth)
      with d kq k have "q ! k \<noteq> last q" by (simp add: nth_eq_iff_index_eq)
      with kq ix out show ?thesis unfolding idx_ok_def by simp
    qed
    moreover have "\<forall>a\<in>set (butlast q). a < length m'"
      using r unfolding m' by (auto dest: in_set_butlastD)
    ultimately show ?thesis using d' unfolding qwf_def idx_ok_def q' by simp
  qed
  have ks: "keys m' q' = butlast (keys m q)"
    unfolding keys_def q' by (simp add: fr map_butlast)
  from ne have "last q \<in> set q" by simp
  with out have out': "\<forall>a. a \<notin> set q \<longrightarrow> m' ! a = m ! a" by metis
  from e q' ms fr out' wf ks show ?thesis unfolding removed_def m' by simp
qed


lemma sift_spec:
  assumes k: "k < n" and n: "n \<le> length q"
    and dn: "down m q k n = (m1, q1, mv)"
    and fin: "(mf, qf) = (if \<not> mv then up m1 q1 k else (m1, q1))"
  shows "reorder m q mf qf \<and> (\<forall>c\<ge>n. qf ! c = q ! c) \<and>
         (flags m q isB \<longrightarrow> almost isB (keys m q) n k \<longrightarrow> heap_upto isB (keys mf qf) n)"
proof -
  from dn obtain kk where dl: "down_loop m q k n = (m1, q1, kk)" and mv: "mv = (k < kk)"
    by (auto simp: down_def split: prod.splits)
  note D = down_loop_spec [OF n dl, of isB]
  from D have ro1: "reorder m q m1 q1" by blast
  show ?thesis
  proof (cases mv)
    case True
    with fin have eq: "mf = m1" "qf = q1" by simp_all
    have "heap_upto isB (keys m1 q1) n" if "flags m q isB" "almost isB (keys m q) n k"
    proof -
      from D that True mv have "almost isB (keys m1 q1) n kk" "kids_ok isB (keys m1 q1) n kk"
        "parent_ok isB (keys m1 q1) kk" by blast+
      then show ?thesis by (rule heap_uptoI)
    qed
    with D eq show ?thesis by blast
  next
    case False
    with mv D have kk: "kk = k" by auto
    with D have same: "m1 = m" "q1 = q" by auto
    from False fin have u: "up m q k = (mf, qf)" by (simp add: same)
    note U = up_spec [OF k n u, of isB]
    have "heap_upto isB (keys mf qf) n" if fl: "flags m q isB" and al: "almost isB (keys m q) n k"
    proof -
      from D fl al kk same have "kids_ok isB (keys m q) n k" by blast
      with U fl al show ?thesis by blast
    qed
    moreover from U k have "\<forall>c\<ge>n. qf ! c = q ! c" by auto
    ultimately show ?thesis using U by blast
  qed
qed

lemma heap_Fix_spec:
  assumes "heap_Fix m q i = Some (m', q')"
  shows "reorder m q m' q' \<and>
         (flags m q isB \<longrightarrow> 0 \<le> i \<longrightarrow> i < int (length q) \<longrightarrow>
            almost isB (keys m q) (length q) (nat i) \<longrightarrow>
            heap_upto isB (keys m' q') (length q))"
proof (cases "0 \<le> i \<and> i < int (length q)")
  case True
  then have k: "nat i < length q" by auto
  obtain m1 q1 mv where dn: "down m q (nat i) (length q) = (m1, q1, mv)"
    by (metis prod_cases3)
  from assms True dn have "(m', q') = (if \<not> mv then up m1 q1 (nat i) else (m1, q1))"
    by (auto simp: heap_Fix_def split: if_splits)
  from sift_spec [OF k order_refl dn this, of isB] show ?thesis by blast
next
  case False
  with assms have "m' = m" "q' = q" by (auto simp: heap_Fix_def split: if_splits)
  with False show ?thesis by (auto simp: reorder_refl)
qed

lemma heap_Fix_Some:
  "0 \<le> i \<Longrightarrow> i < int (length q) \<Longrightarrow> heap_Fix m q i \<noteq> None"
  by (auto simp: heap_Fix_def split: prod.splits)

lemma butlast_heap:
  assumes "heap_upto isB ks n" "ks' = butlast ks" "n < length ks"
  shows "heap_upto isB ks' n"
  using assms(2,3) by (intro heap_upto_cong [OF _ assms(1)]) (simp add: nth_butlast)

lemma heap_Remove_spec:
  assumes hr: "heap_Remove m q i = Some (m', q', e)"
  shows "e = q ! nat i \<and> removed m q e m' q' \<and>
         (flags m q isB \<longrightarrow> heap_upto isB (keys m q) (length q)
            \<longrightarrow> heap_upto isB (keys m' q') (length q'))"
proof -
  from hr have rng: "0 \<le> i" "i < int (length q)"
    by (auto simp: heap_Remove_def split: if_splits)
  then have ne: "q \<noteq> []" by auto
  define n where "n = length q - 1"
  from ne have ln: "length q = Suc n" by (simp add: n_def)
  show ?thesis
  proof (cases "n = nat i")
    case True
    with hr rng have pop: "Pop m q = (m', q', e)" by (simp add: heap_Remove_def n_def)
    note P = Pop_spec [OF pop ne]
    from P ne True have "e = q ! nat i" by (simp add: last_conv_nth n_def)
    moreover have "heap_upto isB (keys m' q') (length q')"
      if "heap_upto isB (keys m q) (length q)"
    proof -
      from that have h: "heap_upto isB (keys m q) n" by (rule heap_upto_mono) (simp add: ln)
      from P have kq: "keys m' q' = butlast (keys m q)" by blast
      from P ln have lq: "length q' = n" by simp
      have "n < length (keys m q)" by (simp add: keys_def ln)
      from butlast_heap [OF h kq this] lq show ?thesis by simp
    qed
    ultimately show ?thesis using P by blast
  next
    case False
    with rng ln have k: "nat i < n" by auto
    obtain m1 q1 where sw: "Swap m q (nat i) n = (m1, q1)" by force
    obtain m2 q2 mv where dn: "down m1 q1 (nat i) n = (m2, q2, mv)"
      by (metis prod_cases3)
    obtain mf qf where fin: "(mf, qf) = (if \<not> mv then up m2 q2 (nat i) else (m2, q2))"
      by (metis surj_pair)
    from hr rng False sw dn fin have pop: "Pop mf qf = (m', q', e)"
      by (auto simp: heap_Remove_def Let_def n_def split: if_splits prod.splits)
    from k ln have il: "nat i < length q" and nl: "n < length q" by simp_all
    note ro1 = Swap_reorder [OF sw il nl]
    from reorder_length [OF ro1] ln have n1: "n \<le> length q1" by simp
    note S = sift_spec [OF k n1 dn fin, of isB]
    from S ro1 have ro: "reorder m q mf qf" by (blast intro: reorder_trans)
    from reorder_length [OF ro] ln have lf: "length qf = Suc n" by simp
    then have nef: "qf \<noteq> []" by auto
    note P = Pop_spec [OF pop nef]
    from S have "qf ! n = q1 ! n" by auto
    also from il nl k have "q1 ! n = q ! nat i" unfolding Swap_q [OF sw] by simp
    finally have "e = q ! nat i" using P nef lf by (simp add: last_conv_nth)
    moreover from P ro have "removed m q e m' q'" by (blast intro: reorder_removed)
    moreover have "heap_upto isB (keys m' q') (length q')"
      if fl: "flags m q isB" and hp: "heap_upto isB (keys m q) (length q)"
    proof -
      from hp have "heap_upto isB (keys m q) n" by (rule heap_upto_mono) (simp add: ln)
      then have "almost isB (keys m q) n (nat i)" by (rule heap_uptoD)
      then have "almost isB (keys m1 q1) n (nat i)"
      proof (rule almost_cong [rotated])
        fix c assume "c < n" "c \<noteq> nat i"
        with il nl show "keys m1 q1 ! c = keys m q ! c"
          unfolding keys_Swap [OF sw il nl] by (simp add: keys_def)
      qed
      with S reorder_flags [OF ro1 fl] have h: "heap_upto isB (keys mf qf) n" by blast
      from P have kq: "keys m' q' = butlast (keys mf qf)" by blast
      from P lf have lq: "length q' = n" by simp
      have "n < length (keys mf qf)" by (simp add: keys_def lf)
      from butlast_heap [OF h kq this] lq show ?thesis by simp
    qed
    ultimately show ?thesis by blast
  qed
qed

lemma heap_Remove_Some:
  "0 \<le> i \<Longrightarrow> i < int (length q) \<Longrightarrow> heap_Remove m q i \<noteq> None"
  by (auto simp: heap_Remove_def Pop_def Let_def split: prod.splits)

lemma heap_Pop_spec:
  assumes hp: "heap_Pop m q = Some (m', q', e)"
  shows "e = q ! 0 \<and> removed m q e m' q' \<and>
         (flags m q isB \<longrightarrow> heap_upto isB (keys m q) (length q)
            \<longrightarrow> heap_upto isB (keys m' q') (length q'))"
proof -
  from hp have ne: "q \<noteq> []" by (auto simp: heap_Pop_def split: if_splits)
  define n where "n = length q - 1"
  from ne have ln: "length q = Suc n" by (simp add: n_def)
  obtain m1 q1 where sw: "Swap m q 0 n = (m1, q1)" by force
  obtain m2 q2 kk where dl: "down_loop m1 q1 0 n = (m2, q2, kk)"
    by (metis prod_cases3)
  from hp ne sw dl have pop: "Pop m2 q2 = (m', q', e)"
    by (simp add: heap_Pop_def down_def Let_def n_def)
  from ln have il: "0 < length q" and nl: "n < length q" by simp_all
  note ro1 = Swap_reorder [OF sw il nl]
  from reorder_length [OF ro1] ln have n1: "n \<le> length q1" by simp
  note D = down_loop_spec [OF n1 dl, of isB]
  from D ro1 have ro: "reorder m q m2 q2" by (blast intro: reorder_trans)
  from reorder_length [OF ro] ln have lf: "length q2 = Suc n" by simp
  then have nef: "q2 \<noteq> []" by auto
  note P = Pop_spec [OF pop nef]
  from D have "q2 ! n = q1 ! n" by auto
  also from il nl have "q1 ! n = q ! 0" unfolding Swap_q [OF sw] by (cases "n = 0") simp_all
  finally have "e = q ! 0" using P nef lf by (simp add: last_conv_nth)
  moreover from P ro have "removed m q e m' q'" by (blast intro: reorder_removed)
  moreover have "heap_upto isB (keys m' q') (length q')"
    if fl: "flags m q isB" and hp: "heap_upto isB (keys m q) (length q)"
  proof -
    from hp have "heap_upto isB (keys m q) n" by (rule heap_upto_mono) (simp add: ln)
    then have "almost isB (keys m q) n 0" by (rule heap_uptoD)
    then have "almost isB (keys m1 q1) n 0"
    proof (rule almost_cong [rotated])
      fix c assume "c < n" "c \<noteq> 0"
      with il nl show "keys m1 q1 ! c = keys m q ! c"
        unfolding keys_Swap [OF sw il nl] by (simp add: keys_def)
    qed
    with D reorder_flags [OF ro1 fl]
    have "almost isB (keys m2 q2) n kk" "kids_ok isB (keys m2 q2) n kk"
      "0 < kk \<longrightarrow> parent_ok isB (keys m2 q2) kk" by blast+
    moreover have "parent_ok isB (keys m2 q2) 0" by (simp add: parent_ok_def)
    ultimately have h: "heap_upto isB (keys m2 q2) n" by (cases "kk = 0") (auto intro: heap_uptoI)
    from P have kq: "keys m' q' = butlast (keys m2 q2)" by blast
    from P lf have lq: "length q' = n" by simp
    have "n < length (keys m2 q2)" by (simp add: keys_def lf)
    from butlast_heap [OF h kq this] lq show ?thesis by simp
  qed
  ultimately show ?thesis by blast
qed

lemma heap_Pop_Some: "q \<noteq> [] \<Longrightarrow> heap_Pop m q \<noteq> None"
  by (auto simp: heap_Pop_def Pop_def Let_def split: prod.splits)


lemma append_almost:
  assumes "heap_upto isB ks (length ks)"
  shows "almost isB (ks @ [k]) (Suc (length ks)) (length ks) \<and>
         kids_ok isB (ks @ [k]) (Suc (length ks)) (length ks)"
proof -
  have a: "\<not> before isB ((ks @ [k]) ! c) ((ks @ [k]) ! ((c - 1) div 2))"
    if "0 < c" "c < Suc (length ks)" "c \<noteq> length ks" for c
  proof -
    from that have "c < length ks" "(c - 1) div 2 < length ks" by arith+
    with assms that show ?thesis by (simp add: nth_append heap_upto_def)
  qed
  have b: "\<not> (0 < c \<and> c < Suc (length ks) \<and> (c - 1) div 2 = length ks)" for c
    by arith
  from a b show ?thesis unfolding almost_def kids_ok_def by blast
qed

lemma heap_Push_spec:
  assumes hp: "heap_Push m q x = (m', q')" and x: "x < length m" "x \<notin> set q"
  shows "mset q' = add_mset x (mset q) \<and> length m' = length m \<and>
         (\<forall>a. order (m' ! a) = order (m ! a) \<and> isBid (m' ! a) = isBid (m ! a)) \<and>
         (\<forall>a. a \<notin> set q \<and> a \<noteq> x \<longrightarrow> m' ! a = m ! a) \<and>
         (qwf m q \<longrightarrow> qwf m' q') \<and>
         (flags m q isB \<longrightarrow> isBid (m ! x) = isB \<longrightarrow> heap_upto isB (keys m q) (length q)
            \<longrightarrow> heap_upto isB (keys m' q') (length q'))"
proof -
  define m0 where "m0 = m[x := (m ! x)\<lparr>index := int (length q)\<rparr>]"
  define q0 where "q0 = q @ [x]"
  from hp have u: "up m0 q0 (length q) = (m', q')"
    by (simp add: heap_Push_def Push_def m0_def q0_def)
  have fr0: "order (m0 ! a) = order (m ! a) \<and> isBid (m0 ! a) = isBid (m ! a)" for a
    unfolding m0_def by (rule set_index_frame)
  have out0: "m0 ! a = m ! a" if "a \<noteq> x" for a unfolding m0_def using that by simp
  have l0: "length q < Suc (length q)" "Suc (length q) \<le> length q0" by (simp_all add: q0_def)
  note U = up_spec [OF l0 u, of isB]
  from U have ro: "reorder m0 q0 m' q'" by blast
  have k0: "keys m0 q0 = keys m q @ [order (m ! x)]"
    by (simp add: keys_def q0_def fr0)
  have wf: "qwf m' q'" if w: "qwf m q"
  proof -
    from w have d: "distinct q" and r: "\<forall>a\<in>set q. a < length m" and ix: "idx_ok m q"
      unfolding qwf_def by auto
    have "index (m0 ! (q0 ! k)) = int k" if k: "k < length q0" for k
    proof (cases "k = length q")
      case True
      with x show ?thesis by (simp add: q0_def m0_def)
    next
      case False
      with k have kl: "k < length q" by (simp add: q0_def)
      with x have "q ! k \<noteq> x" by auto
      with kl ix show ?thesis by (simp add: q0_def nth_append out0 idx_ok_def)
    qed
    with d r x have "qwf m0 q0" unfolding qwf_def idx_ok_def by (simp add: q0_def m0_def)
    with ro show ?thesis unfolding reorder_def by blast
  qed
  have hpo: "heap_upto isB (keys m' q') (length q')"
    if fl: "flags m q isB" and fx: "isBid (m ! x) = isB"
      and h: "heap_upto isB (keys m q) (length q)"
  proof -
    from fl fx have fl0: "flags m0 q0 isB" by (simp add: flags_def q0_def fr0)
    have "length (keys m q) = length q" by (simp add: keys_def)
    with append_almost [of isB "keys m q" "order (m ! x)"] h k0
    have "almost isB (keys m0 q0) (Suc (length q)) (length q)"
      "kids_ok isB (keys m0 q0) (Suc (length q)) (length q)" by simp_all
    with U fl0 have "heap_upto isB (keys m' q') (Suc (length q))" by blast
    with reorder_length [OF ro] show ?thesis by (simp add: q0_def)
  qed
  from ro have "mset q' = add_mset x (mset q)" by (simp add: reorder_def q0_def)
  moreover from ro have "length m' = length m" by (simp add: reorder_def m0_def)
  moreover from ro fr0 have "\<forall>a. order (m' ! a) = order (m ! a) \<and> isBid (m' ! a) = isBid (m ! a)"
    by (simp add: reorder_def)
  moreover from ro out0 have "\<forall>a. a \<notin> set q \<and> a \<noteq> x \<longrightarrow> m' ! a = m ! a"
    by (simp add: reorder_def q0_def)
  ultimately show ?thesis using wf hpo by blast
qed


lemma heap_top:
  assumes "heap_upto isB ks n" "c < n"
  shows "\<not> before isB (ks ! c) (ks ! 0)"
  using assms(2)
proof (induction c rule: less_induct)
  case (less c)
  show ?case
  proof (cases "c = 0")
    case True
    then show ?thesis by (simp add: before_irrefl)
  next
    case False
    then have p: "(c - 1) div 2 < c" by arith
    with less.prems have "(c - 1) div 2 < n" by simp
    from less.IH [OF p this] have "\<not> before isB (ks ! ((c - 1) div 2)) (ks ! 0)" .
    moreover from assms(1) False less.prems have "\<not> before isB (ks ! c) (ks ! ((c - 1) div 2))"
      unfolding heap_upto_def by simp
    ultimately show ?thesis by (rule not_before_trans [rotated])
  qed
qed

subsection \<open>Depth trimming\<close>

text \<open>
  \<open>worse isB a b\<close>: on the bid side (\<open>isB\<close>) order \<open>a\<close> has a lower price than \<open>b\<close>, or the
  same price and a timestamp that is not earlier; on the ask side a higher price, or the
  same and a timestamp that is not earlier.
\<close>

definition worse :: "bool \<Rightarrow> Order \<Rightarrow> Order \<Rightarrow> bool" where
  "worse isB a b \<longleftrightarrow>
     (if isB then Price a < Price b else Price a > Price b) \<or>
     (Price a = Price b \<and> Timestamp a \<ge> Timestamp b)"

lemma worse_refl: "worse isB a a"
  by (simp add: worse_def)

lemma worse_trans: "worse isB a b \<Longrightarrow> worse isB b c \<Longrightarrow> worse isB a c"
  by (auto simp: worse_def split: if_splits)

lemma worstStep_spec:
  "worstStep m q isB w i \<in> {w, i} \<and>
   worse isB (keys m q ! (worstStep m q isB w i)) (keys m q ! w) \<and>
   worse isB (keys m q ! (worstStep m q isB w i)) (keys m q ! i)"
  if "w < length q" "i < length q"
  using that by (auto simp: worstStep_def worse_def keys_def Let_def)

lemma worst_scan:
  assumes "k < length q"
  shows "foldl (worstStep m q isB) 0 [0..<Suc k] \<le> k \<and>
         (\<forall>i\<le>k. worse isB (keys m q ! (foldl (worstStep m q isB) 0 [0..<Suc k])) (keys m q ! i))"
  using assms
proof (induction k)
  case 0
  then show ?case using worstStep_spec [of 0 q 0 m isB] by auto
next
  case (Suc k)
  let ?w = "foldl (worstStep m q isB) 0 [0..<Suc k]"
  let ?w' = "worstStep m q isB ?w (Suc k)"
  from Suc have IH: "?w \<le> k" "\<forall>i\<le>k. worse isB (keys m q ! ?w) (keys m q ! i)" by simp_all
  from IH Suc.prems have wl: "?w < length q" by simp
  note W = worstStep_spec [OF wl Suc.prems, of m isB]
  have eq: "foldl (worstStep m q isB) 0 [0..<Suc (Suc k)] = ?w'" by simp
  from W IH have "?w' \<le> Suc k" by auto
  moreover have "worse isB (keys m q ! ?w') (keys m q ! i)" if "i \<le> Suc k" for i
  proof (cases "i = Suc k")
    case True
    with W show ?thesis by simp
  next
    case False
    with that IH have "worse isB (keys m q ! ?w) (keys m q ! i)" by simp
    with W show ?thesis by (blast intro: worse_trans)
  qed
  ultimately show ?case unfolding eq by blast
qed

lemma findWorstIndex_spec:
  assumes "q \<noteq> []"
  shows "0 \<le> findWorstIndex m q isB \<and> findWorstIndex m q isB < int (length q) \<and>
         (\<forall>i<length q. worse isB (keys m q ! nat (findWorstIndex m q isB)) (keys m q ! i))"
proof -
  from assms obtain k where k: "length q = Suc k" by (cases q) auto
  then have "k < length q" by simp
  from worst_scan [OF this, of m isB] k assms show ?thesis
    by (auto simp: findWorstIndex_def)
qed


text \<open>
  What depth trimming does besides bounding the queue: it drops entries, touches nothing
  outside the queue, keeps the heap order, and deletes from the index the ids of the
  entries it dropped and no other.
\<close>

definition trimmed :: "bool \<Rightarrow> orderEntry list \<Rightarrow> priceTimeQueue \<Rightarrow> (string \<rightharpoonup> addr)
    \<Rightarrow> orderEntry list \<Rightarrow> priceTimeQueue \<Rightarrow> (string \<rightharpoonup> addr) \<Rightarrow> bool" where
  "trimmed b m q ords m' q' ords' \<longleftrightarrow>
     mset q' \<subseteq># mset q \<and> length m' = length m \<and>
     (\<forall>a. order (m' ! a) = order (m ! a) \<and> isBid (m' ! a) = isBid (m ! a)) \<and>
     (\<forall>a. a \<notin> set q \<longrightarrow> m' ! a = m ! a) \<and>
     (qwf m q \<longrightarrow> qwf m' q') \<and>
     (flags m q b \<longrightarrow> heap_upto b (keys m q) (length q) \<longrightarrow> heap_upto b (keys m' q') (length q')) \<and>
     (distinct q \<longrightarrow>
        ords' = (\<lambda>oid. if oid \<in> (\<lambda>e. ID (order (m ! e))) ` (set q - set q') then None
                       else ords oid))"

lemma removed_flags: "removed m q e m' q' \<Longrightarrow> flags m q b \<Longrightarrow> flags m' q' b"
proof -
  assume r: "removed m q e m' q'" and f: "flags m q b"
  from r have "set q = insert e (set q')" unfolding removed_def by (metis set_mset_add_mset_insert set_mset_mset)
  with r f show ?thesis unfolding removed_def flags_def by auto
qed

lemma removed_set:
  assumes "removed m q e m' q'"
  shows "set q = insert e (set q')" "length q = Suc (length q')"
    "distinct q \<Longrightarrow> e \<notin> set q' \<and> distinct q'"
proof -
  from assms have ms: "mset q = add_mset e (mset q')" unfolding removed_def by blast
  then show "set q = insert e (set q')" by (metis set_mset_add_mset_insert set_mset_mset)
  from ms show "length q = Suc (length q')" by (metis size_add_mset size_mset)
  assume d: "distinct q"
  from ms have "mset q = mset (e # q')" by simp
  from mset_eq_imp_distinct_iff [OF this] d have "distinct (e # q')" by simp
  then show "e \<notin> set q' \<and> distinct q'" by simp
qed

lemma trimDepth_spec:
  "\<exists>m' q' ords'. trimDepth m q d isB ords = Some (m', q', ords') \<and>
      trimmed b m q ords m' q' ords' \<and>
      (0 < d \<longrightarrow> int (length q') \<le> d) \<and>
      (\<not> (0 < d \<and> d < int (length q)) \<longrightarrow> m' = m \<and> q' = q \<and> ords' = ords)"
proof (induction m q d isB ords rule: trimDepth.induct)
  case (1 m q d isB ords)
  show ?case
  proof (cases "0 < d \<and> d < int (length q)")
    case False
    then have "trimDepth m q d isB ords = Some (m, q, ords)"
      by (auto simp: trimDepth.simps [of m q d isB ords])
    moreover have "trimmed b m q ords m q ords" by (simp add: trimmed_def)
    ultimately show ?thesis using False by auto
  next
    case True
    then have ne: "q \<noteq> []" by auto
    define idx where "idx = findWorstIndex m q isB"
    from findWorstIndex_spec [OF ne, of m isB] have rng: "0 \<le> idx" "idx < int (length q)"
      by (simp_all add: idx_def)
    from heap_Remove_Some [OF rng, of m] obtain m1 q1 e
      where hr: "heap_Remove m q idx = Some (m1, q1, e)" by (metis not_Some_eq prod_cases3)
    from rng have nneg: "\<not> idx < 0" by simp
    from "1.IH" [OF True idx_def nneg hr refl refl]
    obtain m' q' ords' where
      td: "trimDepth m1 q1 d isB (ords(ID (order (m1 ! e)) := None)) = Some (m', q', ords')"
      and tr: "trimmed b m1 q1 (ords(ID (order (m1 ! e)) := None)) m' q' ords'"
      and dp: "0 < d \<longrightarrow> int (length q') \<le> d" by blast
    from True hr nneg td have res: "trimDepth m q d isB ords = Some (m', q', ords')"
      by (simp add: trimDepth.simps [of m q d isB ords] idx_def [symmetric])
    note R = heap_Remove_spec [OF hr, of b]
    from R have rm: "removed m q e m1 q1" by blast
    note S = removed_set [OF rm]
    have fr1: "order (m1 ! a) = order (m ! a)" "isBid (m1 ! a) = isBid (m ! a)" for a
      using rm unfolding removed_def by auto
    have "mset q' \<subseteq># mset q"
    proof -
      from tr have "mset q' \<subseteq># mset q1" unfolding trimmed_def by blast
      moreover from rm have "mset q1 \<subseteq># mset q" unfolding removed_def by simp
      ultimately show ?thesis by (rule subset_mset.order_trans)
    qed
    moreover have "length m' = length m" using tr rm unfolding trimmed_def removed_def by simp
    moreover have "\<forall>a. order (m' ! a) = order (m ! a) \<and> isBid (m' ! a) = isBid (m ! a)"
      using tr fr1 unfolding trimmed_def by simp
    moreover have "\<forall>a. a \<notin> set q \<longrightarrow> m' ! a = m ! a"
      using tr rm S(1) unfolding trimmed_def removed_def by auto
    moreover have "qwf m q \<longrightarrow> qwf m' q'" using tr rm unfolding trimmed_def removed_def by blast
    moreover have "flags m q b \<longrightarrow> heap_upto b (keys m q) (length q)
        \<longrightarrow> heap_upto b (keys m' q') (length q')"
      using tr R removed_flags [OF rm] unfolding trimmed_def by blast
    moreover have "ords' = (\<lambda>oid. if oid \<in> (\<lambda>e. ID (order (m ! e))) ` (set q - set q') then None
                       else ords oid)" if d: "distinct q"
    proof -
      from S(3) [OF d] have e: "e \<notin> set q1" and d1: "distinct q1" by auto
      from tr have "set q' \<subseteq> set q1" unfolding trimmed_def by (metis set_mset_mono set_mset_mset)
      with e S(1) have st: "set q - set q' = insert e (set q1 - set q')" by auto
      from tr d1 have "ords' = (\<lambda>oid. if oid \<in> (\<lambda>e. ID (order (m1 ! e))) ` (set q1 - set q') then None
                       else (ords(ID (order (m1 ! e)) := None)) oid)"
        unfolding trimmed_def by blast
      then show ?thesis unfolding st by (auto simp: fr1 fun_eq_iff)
    qed
    ultimately have "trimmed b m q ords m' q' ords'" unfolding trimmed_def by blast
    with res dp True show ?thesis by blast
  qed
qed


section \<open>Invariants of the book\<close>

text \<open>
  The structure every command relies on: both queues are well formed in the store, the
  side flags tell the queues apart, and the index only holds resting entries, each under
  its own id.
\<close>

definition wf :: "OrderBook \<Rightarrow> bool" where
  "wf s \<longleftrightarrow>
     qwf (mem s) (bids s) \<and> qwf (mem s) (asks s) \<and>
     flags (mem s) (bids s) True \<and> flags (mem s) (asks s) False \<and>
     (\<forall>oid a. orders s oid = Some a \<longrightarrow>
        a \<in> set (bids s) \<union> set (asks s) \<and> ID (order (mem s ! a)) = oid)"

definition heaps_ok :: "OrderBook \<Rightarrow> bool" where
  "heaps_ok s \<longleftrightarrow>
     heap_upto True (keys (mem s) (bids s)) (length (bids s)) \<and>
     heap_upto False (keys (mem s) (asks s)) (length (asks s))"

lemma wf_sides:
  "wf s \<longleftrightarrow>
     qwf (mem s) (opposing s b) \<and> qwf (mem s) (resting s b) \<and>
     flags (mem s) (opposing s b) b \<and> flags (mem s) (resting s b) (\<not> b) \<and>
     (\<forall>oid a. orders s oid = Some a \<longrightarrow>
        a \<in> set (opposing s b) \<union> set (resting s b) \<and> ID (order (mem s ! a)) = oid)"
  by (cases b) (auto simp: wf_def opposing_def resting_def)

lemma heaps_ok_sides:
  "heaps_ok s \<longleftrightarrow>
     heap_upto b (keys (mem s) (opposing s b)) (length (opposing s b)) \<and>
     heap_upto (\<not> b) (keys (mem s) (resting s b)) (length (resting s b))"
  by (cases b) (auto simp: heaps_ok_def opposing_def resting_def)

lemma set_opposing_simps [simp]:
  "resting (set_opposing s b q) b = resting s b"
  "mem (set_opposing s b q) = mem s"
  "orders (set_opposing s b q) = orders s"
  "cfg (set_opposing s b q) = cfg s"
  "seq (set_opposing s b q) = seq s"
  "trades (set_opposing s b q) = trades s"
  "updates (set_opposing s b q) = updates s"
  "now (set_opposing s b q) = now s"
  "ticks (set_opposing s b q) = ticks s"
  by (simp_all add: set_opposing_def resting_def)

lemma set_resting_simps [simp]:
  "resting (set_resting s b q) b = q"
  "opposing (set_resting s b q) b = opposing s b"
  "mem (set_resting s b q) = mem s"
  "orders (set_resting s b q) = orders s"
  "cfg (set_resting s b q) = cfg s"
  "seq (set_resting s b q) = seq s"
  "trades (set_resting s b q) = trades s"
  "updates (set_resting s b q) = updates s"
  "now (set_resting s b q) = now s"
  "ticks (set_resting s b q) = ticks s"
  by (simp_all add: set_resting_def resting_def opposing_def)

lemma sides_update_simps [simp]:
  "opposing (s\<lparr>mem := m\<rparr>) b = opposing s b"
  "opposing (s\<lparr>orders := os\<rparr>) b = opposing s b"
  "opposing (s\<lparr>trades := ts\<rparr>) b = opposing s b"
  "opposing (s\<lparr>ticks := n\<rparr>) b = opposing s b"
  "opposing (s\<lparr>seq := k\<rparr>) b = opposing s b"
  "opposing (s\<lparr>updates := us\<rparr>) b = opposing s b"
  "resting (s\<lparr>mem := m\<rparr>) b = resting s b"
  "resting (s\<lparr>orders := os\<rparr>) b = resting s b"
  "resting (s\<lparr>trades := ts\<rparr>) b = resting s b"
  "resting (s\<lparr>ticks := n\<rparr>) b = resting s b"
  "resting (s\<lparr>seq := k\<rparr>) b = resting s b"
  "resting (s\<lparr>updates := us\<rparr>) b = resting s b"
  by (simp_all add: opposing_def resting_def)

text \<open>A queue is unaffected by a change of the store that leaves its entries alone.\<close>

lemma qwf_frame:
  assumes "qwf m q" "length m' = length m" "\<And>a. a \<in> set q \<Longrightarrow> m' ! a = m ! a"
  shows "qwf m' q"
  using assms unfolding qwf_def idx_ok_def by auto

lemma keys_frame:
  assumes "\<And>a. a \<in> set q \<Longrightarrow> order (m' ! a) = order (m ! a)"
  shows "keys m' q = keys m q"
  using assms unfolding keys_def by auto

lemma flags_frame:
  assumes "flags m q b" "\<And>a. a \<in> set q \<Longrightarrow> isBid (m' ! a) = isBid (m ! a)"
  shows "flags m' q b"
  using assms unfolding flags_def by auto

lemma flags_disjoint: "flags m q b \<Longrightarrow> flags m r (\<not> b) \<Longrightarrow> set q \<inter> set r = {}"
  unfolding flags_def by auto

text \<open>The comparator reads the price, the timestamp and the sequence only.\<close>

lemma before_cong:
  "Price a' = Price a \<Longrightarrow> Timestamp a' = Timestamp a \<Longrightarrow> Sequence a' = Sequence a \<Longrightarrow>
   Price c' = Price c \<Longrightarrow> Timestamp c' = Timestamp c \<Longrightarrow> Sequence c' = Sequence c \<Longrightarrow>
   before isB a' c' = before isB a c"
  by (simp add: before_def)

lemma heap_upto_prio:
  assumes hp: "heap_upto isB ks n"
    and eq: "\<And>c. c < n \<Longrightarrow> Price (ks' ! c) = Price (ks ! c) \<and>
               Timestamp (ks' ! c) = Timestamp (ks ! c) \<and> Sequence (ks' ! c) = Sequence (ks ! c)"
  shows "heap_upto isB ks' n"
  unfolding heap_upto_def
proof (intro allI impI)
  fix c assume c: "0 < c \<and> c < n"
  then have p: "(c - 1) div 2 < n" by arith
  from hp c have "\<not> before isB (ks ! c) (ks ! ((c - 1) div 2))"
    unfolding heap_upto_def by blast
  moreover have "before isB (ks' ! c) (ks' ! ((c - 1) div 2)) =
      before isB (ks ! c) (ks ! ((c - 1) div 2))"
    using eq [of c] eq [OF p] c by (intro before_cong) auto
  ultimately show "\<not> before isB (ks' ! c) (ks' ! ((c - 1) div 2))" by simp
qed


section \<open>The matching loop\<close>

text \<open>
  The quantities of one iteration of the loop of \<^verbatim>\<open>match\<close> against the entry \<open>best\<close>: the
  traded quantity, the trade that is sent, and the store after the resting order was
  decremented.
\<close>

definition tradedQty :: "OrderBook \<Rightarrow> Order \<Rightarrow> addr \<Rightarrow> int" where
  "tradedQty s incoming best = min_i64 (Remaining incoming) (Remaining (order (mem s ! best)))"

definition tradeOf :: "OrderBook \<Rightarrow> Order \<Rightarrow> addr \<Rightarrow> MatchResult" where
  "tradeOf s incoming best =
     \<lparr>trSymbol = Symbol incoming,
      BuyOrderID = selectOrderID incoming (order (mem s ! best)) Buy,
      SellOrderID = selectOrderID incoming (order (mem s ! best)) Sell,
      trPrice = Price (order (mem s ! best)),
      trQuantity = tradedQty s incoming best,
      trTimestamp = now s (ticks s)\<rparr>"

definition fill :: "orderEntry list \<Rightarrow> addr \<Rightarrow> int \<Rightarrow> orderEntry list" where
  "fill m best n =
     m[best := (m ! best)\<lparr>order := (order (m ! best))\<lparr>Remaining := Remaining (order (m ! best)) - n\<rparr>\<rparr>]"

definition crosses :: "Order \<Rightarrow> Order \<Rightarrow> bool" where
  "crosses incoming bo \<longleftrightarrow>
     \<not> (Type incoming = Limit \<and>
        ((Side incoming = Buy \<and> Price incoming < Price bo) \<or>
         (Side incoming = Sell \<and> Price incoming > Price bo)))"

lemma fill_simps [simp]:
  "length (fill m best n) = length m"
  "index (fill m best n ! a) = index (m ! a)"
  "isBid (fill m best n ! a) = isBid (m ! a)"
  "a \<noteq> best \<Longrightarrow> fill m best n ! a = m ! a"
  "ID (order (fill m best n ! a)) = ID (order (m ! a))"
  "Price (order (fill m best n ! a)) = Price (order (m ! a))"
  "Timestamp (order (fill m best n ! a)) = Timestamp (order (m ! a))"
  "Sequence (order (fill m best n ! a)) = Sequence (order (m ! a))"
  "Side (order (fill m best n ! a)) = Side (order (m ! a))"
  "Type (order (fill m best n ! a)) = Type (order (m ! a))"
  "Symbol (order (fill m best n ! a)) = Symbol (order (m ! a))"
  "Quantity (order (fill m best n ! a)) = Quantity (order (m ! a))"
  by (cases "a = best"; cases "best < length m"; simp add: fill_def list_update_beyond)+

lemma fill_Remaining:
  "best < length m \<Longrightarrow>
   order (fill m best n ! best) = (order (m ! best))\<lparr>Remaining := Remaining (order (m ! best)) - n\<rparr>"
  by (simp add: fill_def)

lemma match_step_Exit:
  "match_step s incoming b = Exit \<longleftrightarrow>
     \<not> 0 < Remaining incoming \<or> opposing s b = [] \<or>
     \<not> crosses incoming (order (mem s ! hd (opposing s b)))"
  by (auto simp: match_step_def peek_def crosses_def Let_def split: list.splits option.splits prod.splits)

lemma match_step_alt:
  "match_step s incoming b =
     (if \<not> 0 < Remaining incoming then Exit
      else case peek (opposing s b) of
        None \<Rightarrow> Exit
      | Some best \<Rightarrow>
          if \<not> crosses incoming (order (mem s ! best)) then Exit
          else if Remaining (order (mem s ! best)) = tradedQty s incoming best then
            (case heap_Pop (fill (mem s) best (tradedQty s incoming best)) (opposing s b) of
               None \<Rightarrow> Crash
             | Some (m2, q2, e) \<Rightarrow>
                 Next (set_opposing
                         (s\<lparr>trades := trades s @ [tradeOf s incoming best],
                            ticks := Suc (ticks s), mem := m2,
                            orders := (orders s)(ID (order (mem s ! best)) := None)\<rparr>) b q2)
                      (incoming\<lparr>Remaining := Remaining incoming - tradedQty s incoming best\<rparr>))
          else
            (case heap_Fix (fill (mem s) best (tradedQty s incoming best)) (opposing s b)
                    (index (mem s ! best)) of
               None \<Rightarrow> Crash
             | Some (m2, q2) \<Rightarrow>
                 Next (set_opposing
                         (s\<lparr>trades := trades s @ [tradeOf s incoming best],
                            ticks := Suc (ticks s), mem := m2\<rparr>) b q2)
                      (incoming\<lparr>Remaining := Remaining incoming - tradedQty s incoming best\<rparr>)))"
proof -
  have ix: "index ((mem s)[best := (mem s ! best)\<lparr>order := x\<rparr>] ! best) = index (mem s ! best)"
    for best x
    by (cases "best < length (mem s)") (simp_all add: list_update_beyond)
  show ?thesis
    unfolding match_step_def Let_def crosses_def tradedQty_def tradeOf_def fill_def
      selectOrderID_def ix
    by (simp split: option.splits)
qed



lemma match_step_Next:
  assumes "match_step s incoming b = Next s' incoming'"
  shows "\<exists>best. peek (opposing s b) = Some best \<and> 0 < Remaining incoming \<and>
     crosses incoming (order (mem s ! best)) \<and>
     incoming' = incoming\<lparr>Remaining := Remaining incoming - tradedQty s incoming best\<rparr> \<and>
     trades s' = trades s @ [tradeOf s incoming best] \<and>
     ticks s' = Suc (ticks s) \<and> cfg s' = cfg s \<and> seq s' = seq s \<and> now s' = now s \<and>
     updates s' = updates s \<and> resting s' b = resting s b \<and>
     (if Remaining (order (mem s ! best)) = tradedQty s incoming best then
        (\<exists>e. heap_Pop (fill (mem s) best (tradedQty s incoming best)) (opposing s b)
              = Some (mem s', opposing s' b, e)) \<and>
        orders s' = (orders s)(ID (order (mem s ! best)) := None)
      else
        heap_Fix (fill (mem s) best (tradedQty s incoming best)) (opposing s b)
          (index (mem s ! best)) = Some (mem s', opposing s' b) \<and>
        orders s' = orders s)"
proof -
  from assms have pos: "0 < Remaining incoming"
    unfolding match_step_alt by (simp split: if_splits)
  with assms obtain best where pk: "peek (opposing s b) = Some best"
    unfolding match_step_alt by (simp split: option.splits)
  from assms pos pk have cr: "crosses incoming (order (mem s ! best))"
    unfolding match_step_alt by (simp split: if_splits)
  let ?tq = "tradedQty s incoming best"
  let ?inc = "incoming\<lparr>Remaining := Remaining incoming - ?tq\<rparr>"
  show ?thesis
  proof (cases "Remaining (order (mem s ! best)) = ?tq")
    case True
    with assms pos pk cr obtain m2 q2 e where
      hp: "heap_Pop (fill (mem s) best ?tq) (opposing s b) = Some (m2, q2, e)"
      and s': "s' = set_opposing
                         (s\<lparr>trades := trades s @ [tradeOf s incoming best],
                            ticks := Suc (ticks s), mem := m2,
                            orders := (orders s)(ID (order (mem s ! best)) := None)\<rparr>) b q2"
      and i': "incoming' = ?inc"
      unfolding match_step_alt by (simp split: option.splits prod.splits)
    from hp have "\<exists>e. heap_Pop (fill (mem s) best ?tq) (opposing s b)
              = Some (mem s', opposing s' b, e)" unfolding s' by simp
    moreover have "trades s' = trades s @ [tradeOf s incoming best]" "ticks s' = Suc (ticks s)"
      "cfg s' = cfg s" "seq s' = seq s" "now s' = now s" "updates s' = updates s"
      "resting s' b = resting s b" "orders s' = (orders s)(ID (order (mem s ! best)) := None)"
      unfolding s' by simp_all
    ultimately show ?thesis using pk pos cr i' True by simp
  next
    case False
    with assms pos pk cr obtain m2 q2 where
      hf: "heap_Fix (fill (mem s) best ?tq) (opposing s b) (index (mem s ! best)) = Some (m2, q2)"
      and s': "s' = set_opposing
                         (s\<lparr>trades := trades s @ [tradeOf s incoming best],
                            ticks := Suc (ticks s), mem := m2\<rparr>) b q2"
      and i': "incoming' = ?inc"
      unfolding match_step_alt by (simp split: option.splits prod.splits)
    from hf have "heap_Fix (fill (mem s) best ?tq) (opposing s b) (index (mem s ! best))
              = Some (mem s', opposing s' b)" unfolding s' by simp
    moreover have "trades s' = trades s @ [tradeOf s incoming best]" "ticks s' = Suc (ticks s)"
      "cfg s' = cfg s" "seq s' = seq s" "now s' = now s" "updates s' = updates s"
      "resting s' b = resting s b" "orders s' = orders s"
      unfolding s' by simp_all
    ultimately show ?thesis using pk pos cr i' False by simp
  qed
qed


lemma qwf_index_frame:
  assumes "qwf m q" "length m' = length m" "\<And>a. a \<in> set q \<Longrightarrow> index (m' ! a) = index (m ! a)"
  shows "qwf m' q"
  using assms unfolding qwf_def idx_ok_def by auto

lemma peek_Some: "peek q = Some best \<longleftrightarrow> q \<noteq> [] \<and> best = q ! 0"
  by (cases q) (auto simp: peek_def)

lemma peek_hd: "peek q = Some best \<Longrightarrow> best = hd q \<and> best \<in> set q"
  by (cases q) (auto simp: peek_def)

lemma wf_top:
  assumes "wf s" "peek (opposing s b) = Some best"
  shows "best < length (mem s)" "index (mem s ! best) = 0" "best \<in> set (opposing s b)"
    "best \<notin> set (resting s b)"
proof -
  from assms(2) have ne: "opposing s b \<noteq> []" and b0: "best = opposing s b ! 0"
    by (simp_all add: peek_Some)
  then show in_q: "best \<in> set (opposing s b)" by (metis length_greater_0_conv nth_mem)
  from assms(1) have q: "qwf (mem s) (opposing s b)" and
    fl: "flags (mem s) (opposing s b) b" "flags (mem s) (resting s b) (\<not> b)"
    unfolding wf_sides [of s b] by auto
  from q in_q show "best < length (mem s)" unfolding qwf_def by auto
  from q ne b0 show "index (mem s ! best) = 0" unfolding qwf_def idx_ok_def by auto
  from flags_disjoint [OF fl] in_q show "best \<notin> set (resting s b)" by auto
qed

text \<open>The book after one iteration that trades, from a well-formed book.\<close>

lemma match_step_effect:
  assumes wf: "wf s" and st: "match_step s incoming b = Next s' incoming'"
    and pk: "peek (opposing s b) = Some best"
  shows "wf s'" and "heaps_ok s \<Longrightarrow> heaps_ok s'"
    and "length (mem s') = length (mem s)"
    and "\<And>a. isBid (mem s' ! a) = isBid (mem s ! a)"
    and "\<And>a. a \<noteq> best \<Longrightarrow> order (mem s' ! a) = order (mem s ! a)"
    and "order (mem s' ! best) =
          (order (mem s ! best))\<lparr>Remaining := Remaining (order (mem s ! best))
             - tradedQty s incoming best\<rparr>"
    and "\<And>a. a \<notin> set (opposing s b) \<Longrightarrow> mem s' ! a = mem s ! a"
    and "if Remaining (order (mem s ! best)) = tradedQty s incoming best
         then mset (opposing s b) = add_mset best (mset (opposing s' b)) \<and>
              orders s' = (orders s)(ID (order (mem s ! best)) := None)
         else mset (opposing s' b) = mset (opposing s b) \<and> orders s' = orders s"
proof -
  let ?q = "opposing s b" and ?r = "resting s b"
  let ?tq = "tradedQty s incoming best"
  let ?m1 = "fill (mem s) best ?tq"
  note T = wf_top [OF wf pk]
  from match_step_Next [OF st] pk have
    N: "resting s' b = ?r"
       "if Remaining (order (mem s ! best)) = ?tq then
        (\<exists>e. heap_Pop ?m1 ?q = Some (mem s', opposing s' b, e)) \<and>
        orders s' = (orders s)(ID (order (mem s ! best)) := None)
      else
        heap_Fix ?m1 ?q (index (mem s ! best)) = Some (mem s', opposing s' b) \<and>
        orders s' = orders s"
    by auto
  from wf have W: "qwf (mem s) ?q" "qwf (mem s) ?r" "flags (mem s) ?q b" "flags (mem s) ?r (\<not> b)"
    "\<And>oid a. orders s oid = Some a \<Longrightarrow> a \<in> set ?q \<union> set ?r \<and> ID (order (mem s ! a)) = oid"
    unfolding wf_sides [of s b] by auto
  have q1: "qwf ?m1 ?q" using W(1) by (rule qwf_index_frame) simp_all
  have r1: "qwf ?m1 ?r" using W(2) by (rule qwf_index_frame) simp_all
  have f1: "flags ?m1 ?q b" "flags ?m1 ?r (\<not> b)"
    using W(3,4) by (auto intro: flags_frame)
  have h1: "heap_upto b (keys ?m1 ?q) (length ?q)"
    if "heap_upto b (keys (mem s) ?q) (length ?q)"
    using that by (rule heap_upto_prio) (simp add: keys_def)
  \<comment> \<open>what both branches establish\<close>
  have core: "length (mem s') = length (mem s) \<and>
      (\<forall>a. order (mem s' ! a) = order (?m1 ! a) \<and> isBid (mem s' ! a) = isBid (?m1 ! a)) \<and>
      (\<forall>a. a \<notin> set ?q \<longrightarrow> mem s' ! a = ?m1 ! a) \<and> qwf (mem s') (opposing s' b) \<and>
      set (opposing s' b) \<subseteq> set ?q \<and>
      (heap_upto b (keys (mem s) ?q) (length ?q) \<longrightarrow>
         heap_upto b (keys (mem s') (opposing s' b)) (length (opposing s' b))) \<and>
      (if Remaining (order (mem s ! best)) = ?tq
         then mset ?q = add_mset best (mset (opposing s' b)) \<and> best \<notin> set (opposing s' b) \<and>
              orders s' = (orders s)(ID (order (mem s ! best)) := None)
         else mset (opposing s' b) = mset ?q \<and> orders s' = orders s)"
  proof (cases "Remaining (order (mem s ! best)) = ?tq")
    case True
    with N obtain e where hp: "heap_Pop ?m1 ?q = Some (mem s', opposing s' b, e)"
      and os: "orders s' = (orders s)(ID (order (mem s ! best)) := None)" by auto
    note P = heap_Pop_spec [OF hp, of b]
    from P pk have e: "e = best" by (simp add: peek_Some)
    from P have "removed ?m1 ?q e (mem s') (opposing s' b)" by blast
    then have rm: "removed ?m1 ?q best (mem s') (opposing s' b)" unfolding e .
    note S = removed_set [OF rm]
    from q1 have "distinct ?q" unfolding qwf_def by simp
    from S(3) [OF this] have nb: "best \<notin> set (opposing s' b)" by simp
    from rm q1 S(1) P f1 h1 True os nb show ?thesis unfolding removed_def by auto
  next
    case False
    with N T have hf: "heap_Fix ?m1 ?q 0 = Some (mem s', opposing s' b)"
      and os: "orders s' = orders s" by auto
    note F = heap_Fix_spec [OF hf, of b]
    from F have ro: "reorder ?m1 ?q (mem s') (opposing s' b)" by blast
    from T(3) have ne: "0 < int (length ?q)" by (cases ?q) auto
    have "heap_upto b (keys (mem s') (opposing s' b)) (length (opposing s' b))"
      if "heap_upto b (keys (mem s) ?q) (length ?q)"
    proof -
      from h1 [OF that] have "almost b (keys ?m1 ?q) (length ?q) (nat 0)" by (rule heap_uptoD)
      with F f1 ne reorder_length [OF ro] show ?thesis by simp
    qed
    with ro q1 reorder_set [OF ro] False os show ?thesis unfolding reorder_def by auto
  qed
  from core have c_len: "length (mem s') = length (mem s)"
    and c_fr: "\<And>a. order (mem s' ! a) = order (?m1 ! a)" "\<And>a. isBid (mem s' ! a) = isBid (?m1 ! a)"
    and c_out: "\<And>a. a \<notin> set ?q \<Longrightarrow> mem s' ! a = ?m1 ! a"
    and c_qwf: "qwf (mem s') (opposing s' b)"
    and c_sub: "set (opposing s' b) \<subseteq> set ?q"
    and c_heap: "heap_upto b (keys (mem s) ?q) (length ?q) \<Longrightarrow>
         heap_upto b (keys (mem s') (opposing s' b)) (length (opposing s' b))"
    and c_if: "if Remaining (order (mem s ! best)) = ?tq
         then mset ?q = add_mset best (mset (opposing s' b)) \<and> best \<notin> set (opposing s' b) \<and>
              orders s' = (orders s)(ID (order (mem s ! best)) := None)
         else mset (opposing s' b) = mset ?q \<and> orders s' = orders s"
    by blast+
  show "length (mem s') = length (mem s)" by (rule c_len)
  show "\<And>a. isBid (mem s' ! a) = isBid (mem s ! a)" by (simp add: c_fr)
  show ord: "\<And>a. a \<noteq> best \<Longrightarrow> order (mem s' ! a) = order (mem s ! a)" by (simp add: c_fr)
  from T(1) show "order (mem s' ! best) =
          (order (mem s ! best))\<lparr>Remaining := Remaining (order (mem s ! best)) - ?tq\<rparr>"
    by (simp add: c_fr fill_Remaining)
  show out: "mem s' ! a = mem s ! a" if a: "a \<notin> set ?q" for a
  proof -
    from a T(3) have "a \<noteq> best" by auto
    with c_out [OF a] show ?thesis by simp
  qed
  from c_if show "if Remaining (order (mem s ! best)) = ?tq
         then mset ?q = add_mset best (mset (opposing s' b)) \<and>
              orders s' = (orders s)(ID (order (mem s ! best)) := None)
         else mset (opposing s' b) = mset ?q \<and> orders s' = orders s"
    by (simp split: if_splits)
  have dj: "set ?q \<inter> set ?r = {}" using flags_disjoint [OF W(3,4)] .
  have r': "qwf (mem s') ?r"
  proof (rule qwf_frame [OF W(2) c_len])
    fix a assume "a \<in> set ?r"
    with dj have "a \<notin> set ?q" by auto
    then show "mem s' ! a = mem s ! a" by (rule out)
  qed
  have fq: "flags (mem s') (opposing s' b) b"
    using c_sub W(3) unfolding flags_def by (auto simp: c_fr)
  have fr: "flags (mem s') ?r (\<not> b)" using W(4) unfolding flags_def by (simp add: c_fr)
  have ids: "ID (order (mem s' ! a)) = ID (order (mem s ! a))" for a
    by (simp add: c_fr)
  have os': "a \<in> set (opposing s' b) \<union> set ?r \<and> ID (order (mem s' ! a)) = oid"
    if o: "orders s' oid = Some a" for oid a
  proof (cases "Remaining (order (mem s ! best)) = ?tq")
    case True
    with c_if have os: "orders s' = (orders s)(ID (order (mem s ! best)) := None)"
      and ms: "mset ?q = add_mset best (mset (opposing s' b))" by simp_all
    from o os have oid: "oid \<noteq> ID (order (mem s ! best))" and o': "orders s oid = Some a"
      by (auto split: if_splits)
    from W(5) [OF o'] oid have "a \<noteq> best" by auto
    moreover from ms have "set ?q = insert best (set (opposing s' b))"
      by (metis set_mset_add_mset_insert set_mset_mset)
    ultimately show ?thesis using W(5) [OF o'] ids by auto
  next
    case False
    with c_if have "orders s' = orders s" "mset (opposing s' b) = mset ?q" by simp_all
    with o have "orders s oid = Some a" "set (opposing s' b) = set ?q"
      by (auto dest: mset_eq_setD)
    with W(5) ids show ?thesis by auto
  qed
  show "wf s'" unfolding wf_sides [of s' b] N(1)
    using c_qwf r' fq fr os' by blast
  show "heaps_ok s'" if "heaps_ok s"
  proof -
    from that have h: "heap_upto b (keys (mem s) ?q) (length ?q)"
      "heap_upto (\<not> b) (keys (mem s) ?r) (length ?r)"
      unfolding heaps_ok_sides [of s b] by auto
    have "keys (mem s') ?r = keys (mem s) ?r"
    proof (rule keys_frame)
      fix a assume "a \<in> set ?r"
      with dj have "a \<notin> set ?q" by auto
      then show "order (mem s' ! a) = order (mem s ! a)" by (simp add: out)
    qed
    with h c_heap show ?thesis unfolding heaps_ok_sides [of s' b] N(1) by simp
  qed
qed

lemma match_step_no_crash:
  assumes "wf s"
  shows "match_step s incoming b \<noteq> Crash"
proof
  assume c: "match_step s incoming b = Crash"
  then obtain best where pk: "peek (opposing s b) = Some best"
    unfolding match_step_alt by (simp split: if_splits option.splits)
  note T = wf_top [OF assms pk]
  from T(3) have ne: "opposing s b \<noteq> []" by auto
  then have rng: "(0::int) \<le> 0" "0 < int (length (opposing s b))" by simp_all
  let ?m1 = "fill (mem s) best (tradedQty s incoming best)"
  from heap_Pop_Some [OF ne, of ?m1] heap_Fix_Some [OF rng, of ?m1] c pk T(2) show False
    unfolding match_step_alt by (simp split: if_splits option.splits)
qed


text \<open>
  The loop, from a well-formed book: it does not panic, it ends where an iteration
  exits, and it keeps whatever every trading iteration keeps.
\<close>

lemma match_loop_rule:
  assumes "wf s" "P s incoming"
    and "\<And>s i s' i'. wf s \<Longrightarrow> P s i \<Longrightarrow> match_step s i b = Next s' i' \<Longrightarrow> P s' i'"
  shows "\<exists>s' incoming'. match_loop s incoming b = Some (s', incoming') \<and> wf s' \<and>
           P s' incoming' \<and> match_step s' incoming' b = Exit"
  using assms
proof (induction s incoming b rule: match_loop.induct)
  case (1 s incoming b)
  show ?case
  proof (cases "match_step s incoming b")
    case Exit
    with "1.prems"(1,2) show ?thesis by (simp add: match_loop.simps [of s incoming b])
  next
    case Crash
    with match_step_no_crash [OF "1.prems"(1)] show ?thesis by simp
  next
    case (Next s1 i1)
    from match_step_Next [OF Next] obtain best where pk: "peek (opposing s b) = Some best"
      by blast
    from match_step_effect(1) [OF "1.prems"(1) Next pk] have w1: "wf s1" .
    from "1.prems"(3) [OF "1.prems"(1,2) Next] have p1: "P s1 i1" .
    from "1.IH" [OF Next w1 p1 "1.prems"(3)] Next show ?thesis
      by (simp add: match_loop.simps [of s incoming b])
  qed
qed

lemma qwf_append: "qwf m q \<Longrightarrow> qwf (m @ [x]) q"
  unfolding qwf_def idx_ok_def by (auto simp: nth_append less_SucI)

text \<open>
  Posting the remainder: the entry is allocated at the end of the store, pushed on the
  own side, recorded in the index, and the side is trimmed.
\<close>

lemma post_effect:
  assumes wf: "wf s" and sd: "(Side incoming = Buy) = (\<not> b)"
    and psh: "heap_Push (mem s @ [\<lparr>order = incoming, index = 0, isBid = (Side incoming = Buy)\<rparr>])
               (resting s b) (length (mem s)) = (m2, q2)"
  shows "\<exists>m3 q3 orders3.
     trimDepth m2 q2 (MaxDepth (cfg s)) (Side incoming = Buy)
        ((orders s)(ID incoming \<mapsto> length (mem s))) = Some (m3, q3, orders3) \<and>
     wf (set_resting (s\<lparr>mem := m3, orders := orders3\<rparr>) b q3) \<and>
     (heaps_ok s \<longrightarrow> heaps_ok (set_resting (s\<lparr>mem := m3, orders := orders3\<rparr>) b q3)) \<and>
     length m3 = Suc (length (mem s)) \<and>
     (\<forall>a < length (mem s). order (m3 ! a) = order (mem s ! a) \<and> isBid (m3 ! a) = isBid (mem s ! a)) \<and>
     order (m3 ! length (mem s)) = incoming \<and>
     (\<forall>a. a < length (mem s) \<longrightarrow> a \<notin> set (resting s b) \<longrightarrow> m3 ! a = mem s ! a) \<and>
     set q2 = insert (length (mem s)) (set (resting s b)) \<and> distinct q2 \<and>
     mset q3 \<subseteq># mset q2 \<and>
     (0 < MaxDepth (cfg s) \<longrightarrow> int (length q3) \<le> MaxDepth (cfg s)) \<and>
     (\<not> (0 < MaxDepth (cfg s) \<and> MaxDepth (cfg s) < int (length q2)) \<longrightarrow> q3 = q2) \<and>
     orders3 = (\<lambda>oid. if oid \<in> (\<lambda>e. ID (order (m2 ! e))) ` (set q2 - set q3) then None
                       else ((orders s)(ID incoming \<mapsto> length (mem s))) oid) \<and>
     (\<forall>a. order (m2 ! a) = order (m3 ! a))"
proof -
  let ?x = "length (mem s)"
  let ?e = "\<lparr>order = incoming, index = 0, isBid = (Side incoming = Buy)\<rparr>"
  let ?m1 = "mem s @ [?e]"
  let ?r = "resting s b" and ?o = "opposing s b"
  let ?ords1 = "(orders s)(ID incoming \<mapsto> ?x)"
  from wf have W: "qwf (mem s) ?o" "qwf (mem s) ?r" "flags (mem s) ?o b" "flags (mem s) ?r (\<not> b)"
    "\<And>oid a. orders s oid = Some a \<Longrightarrow> a \<in> set ?o \<union> set ?r \<and> ID (order (mem s ! a)) = oid"
    unfolding wf_sides [of s b] by auto
  from W(1,2) have rng: "\<And>a. a \<in> set ?o \<Longrightarrow> a < ?x" "\<And>a. a \<in> set ?r \<Longrightarrow> a < ?x"
    unfolding qwf_def by auto
  then have xr: "?x \<notin> set ?r" and xo: "?x \<notin> set ?o" by auto
  have r1: "qwf ?m1 ?r" using W(2) by (rule qwf_append)
  have x1: "?x < length ?m1" by simp
  note P = heap_Push_spec [OF psh x1 xr, of "\<not> b"]
  from P have p_ms: "mset q2 = add_mset ?x (mset ?r)" and p_len: "length m2 = Suc ?x"
    and p_fr: "\<And>a. order (m2 ! a) = order (?m1 ! a)" "\<And>a. isBid (m2 ! a) = isBid (?m1 ! a)"
    and p_out: "\<And>a. a \<notin> set ?r \<Longrightarrow> a \<noteq> ?x \<Longrightarrow> m2 ! a = ?m1 ! a"
    and p_qwf: "qwf m2 q2" using r1 by auto
  from p_ms have sq2: "set q2 = insert ?x (set ?r)"
    by (metis set_mset_add_mset_insert set_mset_mset)
  from p_qwf have dq2: "distinct q2" unfolding qwf_def by simp
  have fl1: "flags ?m1 ?r (\<not> b)" using W(4) rng(2) unfolding flags_def by (auto simp: nth_append)
  have fl2: "flags m2 q2 (\<not> b)"
    using W(4) rng(2) sd unfolding flags_def sq2 by (auto simp: p_fr nth_append)
  have k1: "keys ?m1 ?r = keys (mem s) ?r"
    using rng(2) by (intro keys_frame) (simp add: nth_append)
  have hp2: "heap_upto (\<not> b) (keys m2 q2) (length q2)"
    if "heap_upto (\<not> b) (keys (mem s) ?r) (length ?r)"
    using P fl1 sd that k1 by simp
  from trimDepth_spec [of m2 q2 "MaxDepth (cfg s)" "Side incoming = Buy" ?ords1 "\<not> b"]
  obtain m3 q3 orders3 where
    td: "trimDepth m2 q2 (MaxDepth (cfg s)) (Side incoming = Buy) ?ords1 = Some (m3, q3, orders3)"
    and tr: "trimmed (\<not> b) m2 q2 ?ords1 m3 q3 orders3"
    and dp: "0 < MaxDepth (cfg s) \<longrightarrow> int (length q3) \<le> MaxDepth (cfg s)"
    and nt: "\<not> (0 < MaxDepth (cfg s) \<and> MaxDepth (cfg s) < int (length q2)) \<longrightarrow> q3 = q2"
    by blast
  from tr have t_ms: "mset q3 \<subseteq># mset q2" and t_len: "length m3 = length m2"
    and t_fr: "\<And>a. order (m3 ! a) = order (m2 ! a)" "\<And>a. isBid (m3 ! a) = isBid (m2 ! a)"
    and t_out: "\<And>a. a \<notin> set q2 \<Longrightarrow> m3 ! a = m2 ! a"
    and t_qwf: "qwf m3 q3"
    and t_heap: "heap_upto (\<not> b) (keys m2 q2) (length q2) \<Longrightarrow>
                   heap_upto (\<not> b) (keys m3 q3) (length q3)"
    and t_ords: "orders3 = (\<lambda>oid. if oid \<in> (\<lambda>e. ID (order (m2 ! e))) ` (set q2 - set q3) then None
                       else ?ords1 oid)"
    using p_qwf fl2 dq2 unfolding trimmed_def by auto
  from t_ms have sq3: "set q3 \<subseteq> set q2" by (metis set_mset_mono set_mset_mset)
  let ?s' = "set_resting (s\<lparr>mem := m3, orders := orders3\<rparr>) b q3"
  have old: "order (m3 ! a) = order (mem s ! a) \<and> isBid (m3 ! a) = isBid (mem s ! a)"
    if "a < ?x" for a using that by (simp add: t_fr p_fr nth_append)
  have new: "order (m3 ! ?x) = incoming" "isBid (m3 ! ?x) = (\<not> b)"
    using sd by (simp_all add: t_fr p_fr)
  have out: "m3 ! a = mem s ! a" if "a < ?x" "a \<notin> set ?r" for a
  proof -
    from that sq2 have "a \<notin> set q2" by auto
    with t_out p_out that show ?thesis by (simp add: nth_append)
  qed
  have o3: "qwf m3 ?o"
    unfolding qwf_def idx_ok_def
  proof (intro conjI allI impI ballI)
    from W(1) show "distinct ?o" unfolding qwf_def by simp
    fix a assume "a \<in> set ?o"
    with rng(1) show "a < length m3" by (simp add: t_len p_len less_SucI)
  next
    fix i assume i: "i < length ?o"
    then have "?o ! i \<in> set ?o" by simp
    with rng(1) flags_disjoint [OF W(3,4)] have "?o ! i < ?x" "?o ! i \<notin> set ?r" by auto
    from out [OF this] W(1) i show "index (m3 ! (?o ! i)) = int i"
      unfolding qwf_def idx_ok_def by simp
  qed
  have fo3: "flags m3 ?o b" using W(3) rng(1) old unfolding flags_def by auto
  have fr3: "flags m3 q3 (\<not> b)" using fl2 sq3 unfolding flags_def by (auto simp: t_fr)
  have idx: "ID (order (m2 ! a)) = ID (order (m3 ! a))" for a by (simp add: t_fr)
  have os3: "a \<in> set ?o \<union> set q3 \<and> ID (order (m3 ! a)) = oid"
    if o: "orders3 oid = Some a" for oid a
  proof -
    from o have nrm: "oid \<notin> (\<lambda>e. ID (order (m3 ! e))) ` (set q2 - set q3)"
      and o1: "?ords1 oid = Some a"
      unfolding t_ords idx by (auto split: if_splits)
    have ida: "ID (order (m3 ! a)) = oid \<and> a \<in> set ?o \<union> set q2"
    proof (cases "oid = ID incoming")
      case True
      with o1 new sq2 show ?thesis by auto
    next
      case False
      with o1 have os: "orders s oid = Some a" by simp
      from W(5) [OF this] rng have "a < ?x" by auto
      with W(5) [OF os] old sq2 show ?thesis by auto
    qed
    with nrm show ?thesis by auto
  qed
  have w': "wf ?s'" unfolding wf_sides [of ?s' b] using o3 t_qwf fo3 fr3 os3 by simp
  have h': "heaps_ok ?s'" if "heaps_ok s"
  proof -
    from that have h: "heap_upto b (keys (mem s) ?o) (length ?o)"
      "heap_upto (\<not> b) (keys (mem s) ?r) (length ?r)"
      unfolding heaps_ok_sides [of s b] by auto
    have "keys m3 ?o = keys (mem s) ?o"
      using rng(1) old by (intro keys_frame) simp
    with h t_heap [OF hp2] show ?thesis unfolding heaps_ok_sides [of ?s' b] by simp
  qed
  from td w' h' t_len p_len old new(1) out sq2 dq2 t_ms dp nt t_ords t_fr(1)
  show ?thesis by (intro exI [of _ m3] exI [of _ q3] exI [of _ orders3]) simp
qed


section \<open>Cancel and amend\<close>

lemma updOrder_simps [simp]:
  "length (updOrder m a f) = length m"
  "index (updOrder m a f ! c) = index (m ! c)"
  "isBid (updOrder m a f ! c) = isBid (m ! c)"
  "c \<noteq> a \<Longrightarrow> updOrder m a f ! c = m ! c"
  by (cases "c = a"; cases "a < length m"; simp add: updOrder_def list_update_beyond)+

lemma updOrder_same: "a < length m \<Longrightarrow> order (updOrder m a f ! a) = f (order (m ! a))"
  by (simp add: updOrder_def)

lemma updOrder_comp: "updOrder (updOrder m a f) a g = updOrder m a (\<lambda>x. g (f x))"
  by (cases "a < length m") (simp_all add: updOrder_def list_update_beyond)

lemma updOrder_id: "updOrder m a (\<lambda>x. x) = m"
  by (simp add: updOrder_def)

text \<open>
  The order after a successful amend, and what the amend has written when the price check
  fails.
\<close>

definition resized :: "int option \<Rightarrow> Order \<Rightarrow> Order" where
  "resized newQty o1 =
     (case newQty of
        None \<Rightarrow> o1
      | Some n \<Rightarrow> (o1\<lparr>Quantity := n\<rparr>)\<lparr>Remaining := (if Remaining o1 > n then n else Remaining o1)\<rparr>)"

definition repriced :: "int option \<Rightarrow> Order \<Rightarrow> Order" where
  "repriced newPrice o1 = (case newPrice of None \<Rightarrow> o1 | Some p \<Rightarrow> o1\<lparr>Price := p\<rparr>)"

definition amended :: "int option \<Rightarrow> int option \<Rightarrow> int \<Rightarrow> int \<Rightarrow> Order \<Rightarrow> Order" where
  "amended newPrice newQty sq ts o1 =
     (repriced newPrice (resized newQty o1))\<lparr>Sequence := sq, Timestamp := ts\<rparr>"

definition badQty :: "int option \<Rightarrow> bool" where
  "badQty newQty = (case newQty of None \<Rightarrow> False | Some n \<Rightarrow> n \<le> 0)"

definition badPrice :: "OrderBookConfig \<Rightarrow> int option \<Rightarrow> bool" where
  "badPrice c newPrice =
     (case newPrice of
        None \<Rightarrow> False
      | Some p \<Rightarrow> p \<le> 0 \<or> TickSize c \<le> 0 \<or> go_rem p (TickSize c) \<noteq> 0)"

lemma processCancel_alt:
  "processCancel s oid =
     (case orders s oid of
        None \<Rightarrow> Some (Some NotFound, s)
      | Some entry \<Rightarrow>
          (case remove (mem s) (opposing s (isBid (mem s ! entry))) entry of
             None \<Rightarrow> None
           | Some (m', q', e) \<Rightarrow>
               Some (None, set_opposing (s\<lparr>mem := m', orders := (orders s)(oid := None)\<rparr>)
                             (isBid (mem s ! entry)) q')))"
  by (simp add: processCancel_def opposing_def set_opposing_def split: option.splits)

lemma processAmend_alt:
  "processAmend s oid newPrice newQty =
     (case orders s oid of
        None \<Rightarrow> Some (Some NotFound, s)
      | Some entry \<Rightarrow>
          if badQty newQty then Some (Some InvalidQuantity, s)
          else if badPrice (cfg s) newPrice then
            Some (Some TickAlignment, s\<lparr>mem := updOrder (mem s) entry (resized newQty)\<rparr>)
          else
            (case heap_Fix
                    (updOrder (mem s) entry
                       (amended newPrice newQty (wrap64 (seq s + 1)) (now s (ticks s))))
                    (opposing s (isBid (mem s ! entry))) (index (mem s ! entry)) of
               None \<Rightarrow> None
             | Some (m5, q5) \<Rightarrow>
                 (case trimDepth m5 q5 (MaxDepth (cfg s)) (isBid (mem s ! entry)) (orders s) of
                    None \<Rightarrow> None
                  | Some (m6, q6, orders6) \<Rightarrow>
                      Some (None,
                            set_opposing
                              (s\<lparr>seq := wrap64 (seq s + 1), ticks := Suc (ticks s),
                                 mem := m6, orders := orders6\<rparr>)
                              (isBid (mem s ! entry)) q6))))"
proof (cases "orders s oid")
  case None
  then show ?thesis by (simp add: processAmend_def)
next
  case (Some entry)
  have "resized None = (\<lambda>x. x)" by (simp add: fun_eq_iff resized_def)
  then have r: "s\<lparr>mem := updOrder (mem s) entry (resized None)\<rparr> = s"
    by (simp add: updOrder_id)
  show ?thesis
  proof (cases newQty)
    case nq: None
    show ?thesis
    proof (cases newPrice)
      case None
      with nq Some show ?thesis
        by (simp add: processAmend_def badQty_def badPrice_def amended_def [abs_def]
            repriced_def [abs_def] resized_def [abs_def] opposing_def set_opposing_def
            Let_def updOrder_comp cong: option.case_cong prod.case_cong)
           (simp split: option.splits)
    next
      case (Some p)
      with nq \<open>orders s oid = Some entry\<close> r show ?thesis
        by (simp add: processAmend_def badQty_def badPrice_def amended_def [abs_def]
            repriced_def [abs_def] resized_def [abs_def] opposing_def set_opposing_def
            Let_def updOrder_comp cong: option.case_cong prod.case_cong)
           (simp split: option.splits)
    qed
  next
    case sq: (Some n)
    show ?thesis
    proof (cases newPrice)
      case None
      with sq Some show ?thesis
        by (simp add: processAmend_def badQty_def badPrice_def amended_def [abs_def]
            repriced_def [abs_def] resized_def [abs_def] opposing_def set_opposing_def
            Let_def updOrder_comp cong: option.case_cong prod.case_cong)
           (simp split: option.splits)
    next
      case (Some p)
      with sq \<open>orders s oid = Some entry\<close> show ?thesis
        by (simp add: processAmend_def badQty_def badPrice_def amended_def [abs_def]
            repriced_def [abs_def] resized_def [abs_def] opposing_def set_opposing_def
            Let_def updOrder_comp cong: option.case_cong prod.case_cong)
           (simp split: option.splits)
    qed
  qed
qed


lemma wf_entry:
  assumes "wf s" "orders s oid = Some e"
  shows "e \<in> set (opposing s (isBid (mem s ! e)))" "e \<notin> set (resting s (isBid (mem s ! e)))"
    "e < length (mem s)" "ID (order (mem s ! e)) = oid"
    "\<exists>i<length (opposing s (isBid (mem s ! e))).
        opposing s (isBid (mem s ! e)) ! i = e \<and> index (mem s ! e) = int i"
proof -
  from assms have m: "e \<in> set (bids s) \<union> set (asks s)" and i: "ID (order (mem s ! e)) = oid"
    and f: "flags (mem s) (bids s) True" "flags (mem s) (asks s) False"
    and q: "qwf (mem s) (bids s)" "qwf (mem s) (asks s)"
    unfolding wf_def by auto
  from i show "ID (order (mem s ! e)) = oid" .
  from m f show in_q: "e \<in> set (opposing s (isBid (mem s ! e)))"
    unfolding flags_def opposing_def by auto
  from m f show "e \<notin> set (resting s (isBid (mem s ! e)))"
    unfolding flags_def resting_def by auto
  from m q show "e < length (mem s)" unfolding qwf_def by auto
  from q have "qwf (mem s) (opposing s (isBid (mem s ! e)))" by (simp add: opposing_def)
  with in_q show "\<exists>i<length (opposing s (isBid (mem s ! e))).
        opposing s (isBid (mem s ! e)) ! i = e \<and> index (mem s ! e) = int i"
    unfolding qwf_def idx_ok_def by (metis in_set_conv_nth)
qed

lemma processCancel_effect:
  assumes wf: "wf s"
  shows "\<exists>err s'. processCancel s oid = Some (err, s') \<and> wf s' \<and> (heaps_ok s \<longrightarrow> heaps_ok s') \<and>
     (orders s oid = None \<longrightarrow> err = Some NotFound \<and> s' = s) \<and>
     (\<forall>e. orders s oid = Some e \<longrightarrow> err = None \<and>
        mset (opposing s (isBid (mem s ! e))) = add_mset e (mset (opposing s' (isBid (mem s ! e)))) \<and>
        resting s' (isBid (mem s ! e)) = resting s (isBid (mem s ! e)) \<and>
        orders s' = (orders s)(oid := None) \<and> length (mem s') = length (mem s) \<and>
        (\<forall>a. order (mem s' ! a) = order (mem s ! a) \<and> isBid (mem s' ! a) = isBid (mem s ! a)) \<and>
        cfg s' = cfg s \<and> seq s' = seq s \<and> trades s' = trades s \<and> updates s' = updates s \<and>
        ticks s' = ticks s \<and> now s' = now s)"
proof (cases "orders s oid")
  case None
  with wf show ?thesis by (simp add: processCancel_alt)
next
  case (Some e)
  define b where "b = isBid (mem s ! e)"
  let ?q = "opposing s b" and ?r = "resting s b"
  note E = wf_entry [OF wf Some, folded b_def]
  from E(5) obtain i where i: "i < length ?q" "?q ! i = e" "index (mem s ! e) = int i" by blast
  then have rng: "0 \<le> index (mem s ! e)" "index (mem s ! e) < int (length ?q)" by simp_all
  from heap_Remove_Some [OF rng, of "mem s"] obtain m' q' e' where
    hr: "heap_Remove (mem s) ?q (index (mem s ! e)) = Some (m', q', e')"
    by (metis not_Some_eq prod_cases3)
  note R = heap_Remove_spec [OF hr, of b]
  from R i have e': "e' = e" by simp
  from R have "removed (mem s) ?q e' m' q'" by blast
  then have rm: "removed (mem s) ?q e m' q'" unfolding e' .
  let ?s' = "set_opposing (s\<lparr>mem := m', orders := (orders s)(oid := None)\<rparr>) b q'"
  from hr Some have res: "processCancel s oid = Some (None, ?s')"
    by (simp add: processCancel_alt remove_def b_def)
  from wf have W: "qwf (mem s) ?q" "qwf (mem s) ?r" "flags (mem s) ?q b" "flags (mem s) ?r (\<not> b)"
    "\<And>oid a. orders s oid = Some a \<Longrightarrow> a \<in> set ?q \<union> set ?r \<and> ID (order (mem s ! a)) = oid"
    unfolding wf_sides [of s b] by auto
  from rm W(1) have r_ms: "mset ?q = add_mset e (mset q')" and r_len: "length m' = length (mem s)"
    and r_fr: "\<And>a. order (m' ! a) = order (mem s ! a)" "\<And>a. isBid (m' ! a) = isBid (mem s ! a)"
    and r_out: "\<And>a. a \<notin> set ?q \<Longrightarrow> m' ! a = mem s ! a"
    and r_qwf: "qwf m' q'"
    unfolding removed_def by auto
  note S = removed_set [OF rm]
  from W(1) S(3) have enq: "e \<notin> set q'" unfolding qwf_def by simp
  have dj: "set ?q \<inter> set ?r = {}" using flags_disjoint [OF W(3,4)] .
  have r': "qwf m' ?r"
  proof (rule qwf_frame [OF W(2) r_len])
    fix a assume "a \<in> set ?r"
    with dj have "a \<notin> set ?q" by auto
    then show "m' ! a = mem s ! a" by (rule r_out)
  qed
  have fq: "flags m' q' b" using removed_flags [OF rm W(3)] .
  have fr: "flags m' ?r (\<not> b)" using W(4) unfolding flags_def by (simp add: r_fr)
  have os': "a \<in> set q' \<union> set ?r \<and> ID (order (m' ! a)) = oid'"
    if o: "((orders s)(oid := None)) oid' = Some a" for oid' a
  proof -
    from o have ne: "oid' \<noteq> oid" and o': "orders s oid' = Some a" by (auto split: if_splits)
    from W(5) [OF o'] W(5) [OF Some] ne have "a \<noteq> e" by auto
    with W(5) [OF o'] S(1) show ?thesis by (auto simp: r_fr)
  qed
  have w': "wf ?s'" unfolding wf_sides [of ?s' b] using r_qwf r' fq fr os' by simp
  have h': "heaps_ok ?s'" if "heaps_ok s"
  proof -
    from that have h: "heap_upto b (keys (mem s) ?q) (length ?q)"
      "heap_upto (\<not> b) (keys (mem s) ?r) (length ?r)"
      unfolding heaps_ok_sides [of s b] by auto
    have "keys m' ?r = keys (mem s) ?r" by (intro keys_frame) (simp add: r_fr)
    with h R W(3) show ?thesis unfolding heaps_ok_sides [of ?s' b] by simp
  qed
  from res w' h' Some r_ms r_len r_fr show ?thesis
    by (intro exI [of _ None] exI [of _ ?s']) (simp add: b_def [symmetric])
qed


lemma amended_keeps:
  "ID (amended np nq sq ts o1) = ID o1" "Symbol (amended np nq sq ts o1) = Symbol o1"
  "Side (amended np nq sq ts o1) = Side o1" "Type (amended np nq sq ts o1) = Type o1"
  "ID (resized nq o1) = ID o1" "Price (resized nq o1) = Price o1"
  "Timestamp (resized nq o1) = Timestamp o1" "Sequence (resized nq o1) = Sequence o1"
  by (simp_all add: amended_def repriced_def resized_def split: option.splits)

lemma wf_updOrder:
  assumes wf: "wf s" and f: "\<And>x. ID (f x) = ID x"
  shows "wf (s\<lparr>mem := updOrder (mem s) e f\<rparr>)"
proof -
  have "ID (order (updOrder (mem s) e f ! a)) = ID (order (mem s ! a))" for a
    by (cases "a = e"; cases "e < length (mem s)") (simp_all add: updOrder_def f list_update_beyond)
  with wf show ?thesis unfolding wf_def qwf_def idx_ok_def flags_def by simp
qed

lemma heaps_ok_updOrder:
  assumes h: "heaps_ok s"
    and f: "\<And>x. Price (f x) = Price x \<and> Timestamp (f x) = Timestamp x \<and> Sequence (f x) = Sequence x"
  shows "heaps_ok (s\<lparr>mem := updOrder (mem s) e f\<rparr>)"
proof -
  have eq: "Price (order (updOrder (mem s) e f ! a)) = Price (order (mem s ! a)) \<and>
            Timestamp (order (updOrder (mem s) e f ! a)) = Timestamp (order (mem s ! a)) \<and>
            Sequence (order (updOrder (mem s) e f ! a)) = Sequence (order (mem s ! a))" for a
    by (cases "a = e"; cases "e < length (mem s)") (simp_all add: updOrder_def f list_update_beyond)
  have "heap_upto b (keys (updOrder (mem s) e f) q) (length q)"
    if "heap_upto b (keys (mem s) q) (length q)" for b q
    using that by (rule heap_upto_prio) (simp add: keys_def eq)
  with h show ?thesis unfolding heaps_ok_def by simp
qed

lemma processAmend_effect:
  assumes wf: "wf s"
  shows "\<exists>err s'. processAmend s oid newPrice newQty = Some (err, s') \<and> wf s' \<and>
     (heaps_ok s \<longrightarrow> heaps_ok s') \<and>
     (orders s oid = None \<longrightarrow> err = Some NotFound \<and> s' = s) \<and>
     (\<forall>e. orders s oid = Some e \<longrightarrow>
        (badQty newQty \<longrightarrow> err = Some InvalidQuantity \<and> s' = s) \<and>
        (\<not> badQty newQty \<and> badPrice (cfg s) newPrice \<longrightarrow>
           err = Some TickAlignment \<and> s' = s\<lparr>mem := updOrder (mem s) e (resized newQty)\<rparr>) \<and>
        (\<not> badQty newQty \<and> \<not> badPrice (cfg s) newPrice \<longrightarrow> err = None \<and>
           mset (opposing s' (isBid (mem s ! e))) \<subseteq># mset (opposing s (isBid (mem s ! e))) \<and>
           resting s' (isBid (mem s ! e)) = resting s (isBid (mem s ! e)) \<and>
           (\<not> (0 < MaxDepth (cfg s) \<and>
                MaxDepth (cfg s) < int (length (opposing s (isBid (mem s ! e))))) \<longrightarrow>
              mset (opposing s' (isBid (mem s ! e))) = mset (opposing s (isBid (mem s ! e))) \<and>
              orders s' = orders s) \<and>
           (0 < MaxDepth (cfg s) \<longrightarrow>
              int (length (opposing s' (isBid (mem s ! e)))) \<le> MaxDepth (cfg s)) \<and>
           orders s' =
             (\<lambda>oid'. if oid' \<in> (\<lambda>a. ID (order (mem s ! a))) `
                              (set (opposing s (isBid (mem s ! e))) -
                               set (opposing s' (isBid (mem s ! e))))
                      then None else orders s oid') \<and>
           length (mem s') = length (mem s) \<and>
           (\<forall>a. isBid (mem s' ! a) = isBid (mem s ! a)) \<and>
           (\<forall>a. a \<noteq> e \<longrightarrow> order (mem s' ! a) = order (mem s ! a)) \<and>
           order (mem s' ! e) =
             amended newPrice newQty (wrap64 (seq s + 1)) (now s (ticks s)) (order (mem s ! e)) \<and>
           cfg s' = cfg s \<and> seq s' = wrap64 (seq s + 1) \<and> trades s' = trades s \<and>
           updates s' = updates s \<and> ticks s' = Suc (ticks s) \<and> now s' = now s))"
proof (cases "orders s oid")
  case None
  with wf show ?thesis by (simp add: processAmend_alt)
next
  case (Some e)
  show ?thesis
  proof (cases "badQty newQty")
    case True
    with Some wf show ?thesis by (simp add: processAmend_alt)
  next
    case gq: False
    show ?thesis
    proof (cases "badPrice (cfg s) newPrice")
      case True
      let ?s' = "s\<lparr>mem := updOrder (mem s) e (resized newQty)\<rparr>"
      from True gq Some have "processAmend s oid newPrice newQty = Some (Some TickAlignment, ?s')"
        by (simp add: processAmend_alt)
      moreover have "wf ?s'" using wf by (rule wf_updOrder) (simp add: amended_keeps)
      moreover have "heaps_ok ?s'" if "heaps_ok s"
        using that by (rule heaps_ok_updOrder) (simp add: amended_keeps)
      ultimately show ?thesis using True gq Some by simp
    next
      case gp: False
      define b where "b = isBid (mem s ! e)"
      define f where "f = amended newPrice newQty (wrap64 (seq s + 1)) (now s (ticks s))"
      define m4 where "m4 = updOrder (mem s) e f"
      define d where "d = MaxDepth (cfg s)"
      let ?q = "opposing s b" and ?r = "resting s b"
      note E = wf_entry [OF wf Some, folded b_def]
      from E(5) obtain i where i: "i < length ?q" "?q ! i = e" "index (mem s ! e) = int i"
        by blast
      then have rng: "0 \<le> index (mem s ! e)" "index (mem s ! e) < int (length ?q)" by simp_all
      from heap_Fix_Some [OF rng, of m4] obtain m5 q5 where
        hf: "heap_Fix m4 ?q (index (mem s ! e)) = Some (m5, q5)" by auto
      note F = heap_Fix_spec [OF hf, of b]
      from F have ro: "reorder m4 ?q m5 q5" by blast
      from trimDepth_spec [of m5 q5 d b "orders s" b]
      obtain m6 q6 orders6 where
        td: "trimDepth m5 q5 d b (orders s) = Some (m6, q6, orders6)"
        and tr: "trimmed b m5 q5 (orders s) m6 q6 orders6"
        and dp: "0 < d \<longrightarrow> int (length q6) \<le> d"
        and nt: "\<not> (0 < d \<and> d < int (length q5)) \<longrightarrow> m6 = m5 \<and> q6 = q5 \<and> orders6 = orders s"
        by blast
      let ?s' = "set_opposing (s\<lparr>seq := wrap64 (seq s + 1), ticks := Suc (ticks s),
                                 mem := m6, orders := orders6\<rparr>) b q6"
      from gq gp Some hf td have res: "processAmend s oid newPrice newQty = Some (None, ?s')"
        by (simp add: processAmend_alt b_def f_def m4_def d_def)
      from wf have W: "qwf (mem s) ?q" "qwf (mem s) ?r" "flags (mem s) ?q b"
        "flags (mem s) ?r (\<not> b)"
        "\<And>oid a. orders s oid = Some a \<Longrightarrow> a \<in> set ?q \<union> set ?r \<and> ID (order (mem s ! a)) = oid"
        unfolding wf_sides [of s b] by auto
      have q4: "qwf m4 ?q" using W(1) by (rule qwf_index_frame) (simp_all add: m4_def)
      have f4: "flags m4 ?q b" using W(3) by (rule flags_frame) (simp add: m4_def)
      have o4: "order (m4 ! a) = (if a = e then f (order (mem s ! e)) else order (mem s ! a))" for a
        using E(3) by (simp add: m4_def updOrder_same)
      from ro q4 have r_ms: "mset q5 = mset ?q" and r_len: "length m5 = length (mem s)"
        and r_fr: "\<And>a. order (m5 ! a) = order (m4 ! a)" "\<And>a. isBid (m5 ! a) = isBid (mem s ! a)"
        and r_out: "\<And>a. a \<notin> set ?q \<Longrightarrow> m5 ! a = m4 ! a"
        and r_qwf: "qwf m5 q5"
        unfolding reorder_def by (auto simp: m4_def)
      from r_ms have sq5: "set q5 = set ?q" and lq5: "length q5 = length ?q"
        by (auto dest: mset_eq_setD mset_eq_length)
      from r_qwf have dq5: "distinct q5" unfolding qwf_def by simp
      have f5: "flags m5 q5 b" using reorder_flags [OF ro f4] .
      from tr r_qwf dq5 have t_ms: "mset q6 \<subseteq># mset q5" and t_len: "length m6 = length m5"
        and t_fr: "\<And>a. order (m6 ! a) = order (m5 ! a)" "\<And>a. isBid (m6 ! a) = isBid (m5 ! a)"
        and t_out: "\<And>a. a \<notin> set q5 \<Longrightarrow> m6 ! a = m5 ! a"
        and t_qwf: "qwf m6 q6"
        and t_heap: "heap_upto b (keys m5 q5) (length q5) \<Longrightarrow> heap_upto b (keys m6 q6) (length q6)"
        and t_ords: "orders6 = (\<lambda>oid. if oid \<in> (\<lambda>e. ID (order (m5 ! e))) ` (set q5 - set q6) then None
                       else orders s oid)"
        using f5 unfolding trimmed_def by auto
      from t_ms have sq6: "set q6 \<subseteq> set ?q" unfolding sq5 [symmetric]
        by (metis set_mset_mono set_mset_mset)
      have ids: "ID (order (m5 ! a)) = ID (order (mem s ! a))" for a
        by (simp add: r_fr o4 f_def amended_keeps)
      have out: "m6 ! a = mem s ! a" if "a \<notin> set ?q" for a
      proof -
        from that E(1) have "a \<noteq> e" by auto
        with that t_out r_out sq5 show ?thesis by (simp add: m4_def)
      qed
      have dj: "set ?q \<inter> set ?r = {}" using flags_disjoint [OF W(3,4)] .
      have r': "qwf m6 ?r"
      proof (rule qwf_frame [OF W(2)])
        show "length m6 = length (mem s)" by (simp add: t_len r_len)
        fix a assume "a \<in> set ?r"
        with dj have "a \<notin> set ?q" by auto
        then show "m6 ! a = mem s ! a" by (rule out)
      qed
      have fq: "flags m6 q6 b" using W(3) sq6 unfolding flags_def by (auto simp: t_fr r_fr)
      have fr: "flags m6 ?r (\<not> b)" using W(4) unfolding flags_def by (simp add: t_fr r_fr)
      have ords: "orders6 = (\<lambda>oid'. if oid' \<in> (\<lambda>a. ID (order (mem s ! a))) ` (set ?q - set q6)
                      then None else orders s oid')"
        unfolding t_ords sq5 by (simp add: ids)
      have os': "a \<in> set q6 \<union> set ?r \<and> ID (order (m6 ! a)) = oid'"
        if o: "orders6 oid' = Some a" for oid' a
      proof -
        from o have nrm: "oid' \<notin> (\<lambda>a. ID (order (mem s ! a))) ` (set ?q - set q6)"
          and o': "orders s oid' = Some a" unfolding ords by (auto split: if_splits)
        from W(5) [OF o'] nrm have "a \<in> set q6 \<union> set ?r" by auto
        moreover from W(5) [OF o'] have "ID (order (m6 ! a)) = oid'" by (simp add: t_fr ids)
        ultimately show ?thesis ..
      qed
      have w': "wf ?s'" unfolding wf_sides [of ?s' b] using t_qwf r' fq fr os' by simp
      have h': "heaps_ok ?s'" if "heaps_ok s"
      proof -
        from that have h: "heap_upto b (keys (mem s) ?q) (length ?q)"
          "heap_upto (\<not> b) (keys (mem s) ?r) (length ?r)"
          unfolding heaps_ok_sides [of s b] by auto
        from h(1) have "almost b (keys (mem s) ?q) (length ?q) i" by (rule heap_uptoD)
        then have "almost b (keys m4 ?q) (length ?q) i"
        proof (rule almost_cong [rotated])
          fix c assume c: "c < length ?q" "c \<noteq> i"
          with i W(1) have "?q ! c \<noteq> e" unfolding qwf_def by (auto simp: nth_eq_iff_index_eq)
          with c show "keys m4 ?q ! c = keys (mem s) ?q ! c" by (simp add: keys_def o4)
        qed
        with F f4 rng i have "heap_upto b (keys m5 q5) (length q5)" by (simp add: lq5)
        from t_heap [OF this] have hq: "heap_upto b (keys m6 q6) (length q6)" .
        have "keys m6 ?r = keys (mem s) ?r"
        proof (rule keys_frame)
          fix a assume "a \<in> set ?r"
          with dj have "a \<notin> set ?q" by auto
          then show "order (m6 ! a) = order (mem s ! a)" by (simp add: out)
        qed
        with h hq show ?thesis unfolding heaps_ok_sides [of ?s' b] by simp
      qed
      have ms: "mset q6 \<subseteq># mset ?q" using t_ms r_ms by simp
      have ntr: "mset q6 = mset ?q \<and> orders6 = orders s"
        if "\<not> (0 < d \<and> d < int (length ?q))"
        using that nt r_ms lq5 by simp
      have dpt: "0 < d \<longrightarrow> int (length q6) \<le> d" by (rule dp)
      have ib: "isBid (m6 ! a) = isBid (mem s ! a)" for a by (simp add: t_fr r_fr)
      have oo: "a \<noteq> e \<Longrightarrow> order (m6 ! a) = order (mem s ! a)" for a by (simp add: t_fr r_fr o4)
      have oe: "order (m6 ! e) = f (order (mem s ! e))" by (simp add: t_fr r_fr o4)
      have len: "length m6 = length (mem s)" by (simp add: t_len r_len)
      from res w' h' Some gq gp ms ntr dpt ords ib oo oe len show ?thesis
        by (intro exI [of _ None] exI [of _ ?s'])
           (simp add: b_def [symmetric] d_def [symmetric] f_def [symmetric])
    qed
  qed
qed


section \<open>Submit\<close>

text \<open>
  The validation of \<^verbatim>\<open>processAdd\<close>, the book it hands to \<^verbatim>\<open>match\<close> and the order as it
  enters the loop.
\<close>

definition validate :: "OrderBookConfig \<Rightarrow> Order \<Rightarrow> error option" where
  "validate c order0 =
     (if Symbol order0 \<noteq> cfgSymbol c then Some SymbolMismatch
      else if Quantity order0 \<le> 0 then Some InvalidQuantity
      else if Type order0 = Limit \<and>
              (TickSize c \<le> 0 \<or> Price order0 \<le> 0 \<or> go_rem (Price order0) (TickSize c) \<noteq> 0)
           then Some TickAlignment
      else None)"

definition opened :: "OrderBook \<Rightarrow> OrderBook" where
  "opened s = s\<lparr>seq := wrap64 (seq s + 1), ticks := Suc (ticks s)\<rparr>"

definition accepted :: "OrderBook \<Rightarrow> Order \<Rightarrow> Order" where
  "accepted s order0 =
     order0\<lparr>Sequence := wrap64 (seq s + 1), Timestamp := now s (ticks s),
            Remaining := Quantity order0\<rparr>"

lemma processAdd_alt:
  "processAdd s order0 =
     (case validate (cfg s) order0 of
        Some e \<Rightarrow> Some (Some e, s)
      | None \<Rightarrow>
          (case match (opened s) (accepted s order0) (Side order0 \<noteq> Buy) of
             None \<Rightarrow> None
           | Some (s3, incoming1) \<Rightarrow> Some (None, s3)))"
  by (auto simp: processAdd_def validate_def opened_def accepted_def Let_def
      split: option.splits)

lemma opened_simps [simp]:
  "mem (opened s) = mem s" "bids (opened s) = bids s" "asks (opened s) = asks s"
  "orders (opened s) = orders s" "cfg (opened s) = cfg s" "trades (opened s) = trades s"
  "updates (opened s) = updates s" "now (opened s) = now s"
  "seq (opened s) = wrap64 (seq s + 1)" "ticks (opened s) = Suc (ticks s)"
  "opposing (opened s) b = opposing s b" "resting (opened s) b = resting s b"
  by (simp_all add: opened_def opposing_def resting_def)

lemma wf_opened [simp]: "wf (opened s) = wf s"
  by (simp add: wf_def)

lemma heaps_ok_opened [simp]: "heaps_ok (opened s) = heaps_ok s"
  by (simp add: heaps_ok_def)

lemma match_step_keeps_incoming:
  assumes "match_step s incoming b = Next s' incoming'"
  shows "ID incoming' = ID incoming" "Symbol incoming' = Symbol incoming"
    "Side incoming' = Side incoming" "Type incoming' = Type incoming"
    "Price incoming' = Price incoming" "Quantity incoming' = Quantity incoming"
    "Timestamp incoming' = Timestamp incoming" "Sequence incoming' = Sequence incoming"
  using match_step_Next [OF assms] by auto

text \<open>
  \<^verbatim>\<open>match\<close> from a well-formed book, for an order of the side the flag stands for: the loop
  ends in a book \<open>s1\<close> where an iteration exits, and either nothing is posted or the
  remainder is pushed and the side trimmed.
\<close>

lemma match_result:
  assumes wf: "wf s" and sd: "(Side incoming = Buy) = (\<not> b)" and p: "P s incoming"
    and step: "\<And>s i s' i'. wf s \<Longrightarrow> P s i \<Longrightarrow> match_step s i b = Next s' i' \<Longrightarrow> P s' i'"
  shows "\<exists>s1 incoming1 s'. match_loop s incoming b = Some (s1, incoming1) \<and> wf s1 \<and>
      P s1 incoming1 \<and> match_step s1 incoming1 b = Exit \<and>
      (Side incoming1 = Buy) = (\<not> b) \<and>
      match s incoming b = Some (s', incoming1) \<and> wf s' \<and>
      (if 0 < Remaining incoming1 \<and> Type incoming1 = Limit then
         \<exists>m2 q2 m3 q3 orders3.
           heap_Push (mem s1 @ [\<lparr>order = incoming1, index = 0, isBid = (Side incoming1 = Buy)\<rparr>])
               (resting s1 b) (length (mem s1)) = (m2, q2) \<and>
           trimDepth m2 q2 (MaxDepth (cfg s1)) (Side incoming1 = Buy)
               ((orders s1)(ID incoming1 \<mapsto> length (mem s1))) = Some (m3, q3, orders3) \<and>
           s' = set_resting (s1\<lparr>mem := m3, orders := orders3\<rparr>) b q3
       else s' = s1)"
proof -
  let ?P = "\<lambda>s i. P s i \<and> (Side i = Buy) = (\<not> b)"
  have "\<exists>s' incoming'. match_loop s incoming b = Some (s', incoming') \<and> wf s' \<and>
           ?P s' incoming' \<and> match_step s' incoming' b = Exit"
  proof (rule match_loop_rule [where P = ?P, OF wf])
    from p sd show "?P s incoming" by simp
    fix s i s' i'
    assume "wf s" "?P s i" "match_step s i b = Next s' i'"
    with step [of s i s' i'] match_step_keeps_incoming(3) [of s i b s' i']
    show "?P s' i'" by simp
  qed
  then obtain s1 i1 where ml: "match_loop s incoming b = Some (s1, i1)" and w1: "wf s1"
    and p1: "P s1 i1" and sd1: "(Side i1 = Buy) = (\<not> b)" and ex: "match_step s1 i1 b = Exit"
    by blast
  show ?thesis
  proof (cases "0 < Remaining i1 \<and> Type i1 = Limit")
    case False
    with ml have "match s incoming b = Some (s1, i1)" by (auto simp: match_def)
    with ml w1 p1 sd1 ex False show ?thesis by auto
  next
    case True
    obtain m2 q2 where psh:
      "heap_Push (mem s1 @ [\<lparr>order = i1, index = 0, isBid = (Side i1 = Buy)\<rparr>])
               (resting s1 b) (length (mem s1)) = (m2, q2)" by force
    from post_effect [OF w1 sd1 psh] obtain m3 q3 orders3 where
      td: "trimDepth m2 q2 (MaxDepth (cfg s1)) (Side i1 = Buy)
             ((orders s1)(ID i1 \<mapsto> length (mem s1))) = Some (m3, q3, orders3)"
      and w': "wf (set_resting (s1\<lparr>mem := m3, orders := orders3\<rparr>) b q3)"
      by blast
    from ml True psh td have
      "match s incoming b = Some (set_resting (s1\<lparr>mem := m3, orders := orders3\<rparr>) b q3, i1)"
      by (simp add: match_def Let_def)
    with ml w1 p1 sd1 ex True psh td w' show ?thesis by auto
  qed
qed


lemma processAdd_result:
  assumes wf: "wf s" and v: "validate (cfg s) order0 = None"
    and p: "P (opened s) (accepted s order0)"
    and step: "\<And>s i s' i'. wf s \<Longrightarrow> P s i \<Longrightarrow>
                 match_step s i (Side order0 \<noteq> Buy) = Next s' i' \<Longrightarrow> P s' i'"
  shows "\<exists>s1 incoming1 s'.
      match_loop (opened s) (accepted s order0) (Side order0 \<noteq> Buy) = Some (s1, incoming1) \<and>
      wf s1 \<and> P s1 incoming1 \<and> match_step s1 incoming1 (Side order0 \<noteq> Buy) = Exit \<and>
      (Side incoming1 = Buy) = (Side order0 = Buy) \<and>
      processAdd s order0 = Some (None, s') \<and> wf s' \<and>
      (if 0 < Remaining incoming1 \<and> Type incoming1 = Limit then
         \<exists>m2 q2 m3 q3 orders3.
           heap_Push (mem s1 @ [\<lparr>order = incoming1, index = 0, isBid = (Side incoming1 = Buy)\<rparr>])
               (resting s1 (Side order0 \<noteq> Buy)) (length (mem s1)) = (m2, q2) \<and>
           trimDepth m2 q2 (MaxDepth (cfg s1)) (Side incoming1 = Buy)
               ((orders s1)(ID incoming1 \<mapsto> length (mem s1))) = Some (m3, q3, orders3) \<and>
           s' = set_resting (s1\<lparr>mem := m3, orders := orders3\<rparr>) (Side order0 \<noteq> Buy) q3
       else s' = s1)"
proof -
  have w: "wf (opened s)" using wf by simp
  have sd: "(Side (accepted s order0) = Buy) = (\<not> Side order0 \<noteq> Buy)"
    by (simp add: accepted_def)
  have "\<exists>s1 incoming1 s'.
      match_loop (opened s) (accepted s order0) (Side order0 \<noteq> Buy) = Some (s1, incoming1) \<and>
      wf s1 \<and> P s1 incoming1 \<and> match_step s1 incoming1 (Side order0 \<noteq> Buy) = Exit \<and>
      (Side incoming1 = Buy) = (\<not> Side order0 \<noteq> Buy) \<and>
      match (opened s) (accepted s order0) (Side order0 \<noteq> Buy) = Some (s', incoming1) \<and>
      wf s' \<and>
      (if 0 < Remaining incoming1 \<and> Type incoming1 = Limit then
         \<exists>m2 q2 m3 q3 orders3.
           heap_Push (mem s1 @ [\<lparr>order = incoming1, index = 0, isBid = (Side incoming1 = Buy)\<rparr>])
               (resting s1 (Side order0 \<noteq> Buy)) (length (mem s1)) = (m2, q2) \<and>
           trimDepth m2 q2 (MaxDepth (cfg s1)) (Side incoming1 = Buy)
               ((orders s1)(ID incoming1 \<mapsto> length (mem s1))) = Some (m3, q3, orders3) \<and>
           s' = set_resting (s1\<lparr>mem := m3, orders := orders3\<rparr>) (Side order0 \<noteq> Buy) q3
       else s' = s1)"
    by (rule match_result [where P = P, OF w sd p]) (blast intro: step)
  then obtain s1 i1 s' where
    R: "match_loop (opened s) (accepted s order0) (Side order0 \<noteq> Buy) = Some (s1, i1)"
       "wf s1" "P s1 i1" "match_step s1 i1 (Side order0 \<noteq> Buy) = Exit"
       "(Side i1 = Buy) = (\<not> Side order0 \<noteq> Buy)"
       "match (opened s) (accepted s order0) (Side order0 \<noteq> Buy) = Some (s', i1)" "wf s'"
       "if 0 < Remaining i1 \<and> Type i1 = Limit then
         \<exists>m2 q2 m3 q3 orders3.
           heap_Push (mem s1 @ [\<lparr>order = i1, index = 0, isBid = (Side i1 = Buy)\<rparr>])
               (resting s1 (Side order0 \<noteq> Buy)) (length (mem s1)) = (m2, q2) \<and>
           trimDepth m2 q2 (MaxDepth (cfg s1)) (Side i1 = Buy)
               ((orders s1)(ID i1 \<mapsto> length (mem s1))) = Some (m3, q3, orders3) \<and>
           s' = set_resting (s1\<lparr>mem := m3, orders := orders3\<rparr>) (Side order0 \<noteq> Buy) q3
       else s' = s1"
    by blast
  from R(6) v have "processAdd s order0 = Some (None, s')" by (simp add: processAdd_alt)
  with R show ?thesis by (intro exI [of _ s1] exI [of _ i1] exI [of _ s']) simp
qed

lemma processAdd_rejected:
  "validate (cfg s) order0 = Some e \<Longrightarrow> processAdd s order0 = Some (Some e, s)"
  by (simp add: processAdd_alt)

section \<open>Invariants of every reachable book\<close>

definition depth_ok :: "OrderBook \<Rightarrow> bool" where
  "depth_ok s \<longleftrightarrow>
     (0 < MaxDepth (cfg s) \<longrightarrow>
        int (length (bids s)) \<le> MaxDepth (cfg s) \<and> int (length (asks s)) \<le> MaxDepth (cfg s))"

lemma depth_ok_sides:
  "depth_ok s \<longleftrightarrow>
     (0 < MaxDepth (cfg s) \<longrightarrow>
        int (length (opposing s b)) \<le> MaxDepth (cfg s) \<and>
        int (length (resting s b)) \<le> MaxDepth (cfg s))"
  by (cases b) (auto simp: depth_ok_def opposing_def resting_def)

definition sound :: "OrderBook \<Rightarrow> bool" where
  "sound s \<longleftrightarrow> wf s \<and> heaps_ok s \<and> depth_ok s"

lemma mset_add_length: "mset q = add_mset e (mset q') \<Longrightarrow> length q = Suc (length q')"
  by (metis size_add_mset size_mset)

lemma match_step_sound:
  assumes "wf s" "heaps_ok s \<and> depth_ok s" "match_step s i b = Next s' i'"
  shows "heaps_ok s' \<and> depth_ok s'"
proof -
  from match_step_Next [OF assms(3)] obtain best where pk: "peek (opposing s b) = Some best"
    and c: "cfg s' = cfg s" and r: "resting s' b = resting s b" by blast
  note E = match_step_effect [OF assms(1,3) pk]
  from E(8) have "length (opposing s' b) \<le> length (opposing s b)"
    by (auto split: if_splits dest: mset_eq_length mset_add_length)
  with assms(2) c r have "depth_ok s'" unfolding depth_ok_sides [of _ b] by auto
  with E(2) assms(2) show ?thesis by simp
qed


lemma processAdd_sound:
  assumes "sound s"
  shows "\<exists>s'. processAdd s order0 = Some (validate (cfg s) order0, s') \<and> sound s' \<and>
           cfg s' = cfg s \<and> (validate (cfg s) order0 \<noteq> None \<longrightarrow> s' = s)"
proof (cases "validate (cfg s) order0")
  case (Some e)
  with assms processAdd_rejected [OF Some] show ?thesis by simp
next
  case None
  let ?b = "Side order0 \<noteq> Buy"
  let ?P = "\<lambda>s (i::Order). heaps_ok s \<and> depth_ok s \<and> cfg s = cfg s"
  from assms have wf: "wf s" and p: "heaps_ok (opened s) \<and> depth_ok (opened s)"
    by (simp_all add: sound_def depth_ok_def)
  have "\<exists>s1 incoming1 s'.
      match_loop (opened s) (accepted s order0) ?b = Some (s1, incoming1) \<and>
      wf s1 \<and> (heaps_ok s1 \<and> depth_ok s1 \<and> cfg s1 = cfg s) \<and>
      match_step s1 incoming1 ?b = Exit \<and>
      (Side incoming1 = Buy) = (Side order0 = Buy) \<and>
      processAdd s order0 = Some (None, s') \<and> wf s' \<and>
      (if 0 < Remaining incoming1 \<and> Type incoming1 = Limit then
         \<exists>m2 q2 m3 q3 orders3.
           heap_Push (mem s1 @ [\<lparr>order = incoming1, index = 0, isBid = (Side incoming1 = Buy)\<rparr>])
               (resting s1 ?b) (length (mem s1)) = (m2, q2) \<and>
           trimDepth m2 q2 (MaxDepth (cfg s1)) (Side incoming1 = Buy)
               ((orders s1)(ID incoming1 \<mapsto> length (mem s1))) = Some (m3, q3, orders3) \<and>
           s' = set_resting (s1\<lparr>mem := m3, orders := orders3\<rparr>) ?b q3
       else s' = s1)"
  proof (rule processAdd_result [where P = "\<lambda>s1 i. heaps_ok s1 \<and> depth_ok s1 \<and> cfg s1 = cfg s",
        OF wf None])
    from p show "heaps_ok (opened s) \<and> depth_ok (opened s) \<and> cfg (opened s) = cfg s" by simp
    fix s0 i s' i'
    assume a: "wf s0" "heaps_ok s0 \<and> depth_ok s0 \<and> cfg s0 = cfg s" "match_step s0 i ?b = Next s' i'"
    from match_step_Next [OF a(3)] have "cfg s' = cfg s0" by blast
    with match_step_sound [OF a(1) _ a(3)] a(2)
    show "heaps_ok s' \<and> depth_ok s' \<and> cfg s' = cfg s" by simp
  qed
  then obtain s1 i1 s' where
    R: "wf s1" "heaps_ok s1" "depth_ok s1" "cfg s1 = cfg s"
       "(Side i1 = Buy) = (Side order0 = Buy)"
       "processAdd s order0 = Some (None, s')" "wf s'"
       "if 0 < Remaining i1 \<and> Type i1 = Limit then
         \<exists>m2 q2 m3 q3 orders3.
           heap_Push (mem s1 @ [\<lparr>order = i1, index = 0, isBid = (Side i1 = Buy)\<rparr>])
               (resting s1 ?b) (length (mem s1)) = (m2, q2) \<and>
           trimDepth m2 q2 (MaxDepth (cfg s1)) (Side i1 = Buy)
               ((orders s1)(ID i1 \<mapsto> length (mem s1))) = Some (m3, q3, orders3) \<and>
           s' = set_resting (s1\<lparr>mem := m3, orders := orders3\<rparr>) ?b q3
       else s' = s1"
    by blast
  have "heaps_ok s' \<and> depth_ok s' \<and> cfg s' = cfg s"
  proof (cases "0 < Remaining i1 \<and> Type i1 = Limit")
    case False
    with R show ?thesis by simp
  next
    case True
    with R(8) obtain m2 q2 m3 q3 orders3 where
      psh: "heap_Push (mem s1 @ [\<lparr>order = i1, index = 0, isBid = (Side i1 = Buy)\<rparr>])
               (resting s1 ?b) (length (mem s1)) = (m2, q2)"
      and td: "trimDepth m2 q2 (MaxDepth (cfg s1)) (Side i1 = Buy)
               ((orders s1)(ID i1 \<mapsto> length (mem s1))) = Some (m3, q3, orders3)"
      and s': "s' = set_resting (s1\<lparr>mem := m3, orders := orders3\<rparr>) ?b q3" by auto
    from R(5) have sd: "(Side i1 = Buy) = (\<not> ?b)" by simp
    from post_effect [OF R(1) sd psh] td R(2)
    have "heaps_ok s'" "0 < MaxDepth (cfg s1) \<longrightarrow> int (length q3) \<le> MaxDepth (cfg s1)"
      unfolding s' by auto
    moreover from R(3) have "0 < MaxDepth (cfg s1) \<longrightarrow>
        int (length (opposing s1 ?b)) \<le> MaxDepth (cfg s1)"
      unfolding depth_ok_sides [of s1 ?b] by simp
    ultimately have "heaps_ok s'" "depth_ok s'"
      unfolding depth_ok_sides [of s' ?b] unfolding s' using R(4) by simp_all
    moreover from R(4) have "cfg s' = cfg s" unfolding s' by simp
    ultimately show ?thesis by simp
  qed
  with R(6,7) None show ?thesis by (simp add: sound_def)
qed

lemma result_of_effect:
  "\<exists>e s'. f = Some (e, s') \<and> Q e s' \<Longrightarrow> f = Some (err, s1) \<Longrightarrow> Q err s1"
  by auto

lemma processCancel_result:
  assumes wf: "wf s" and res: "processCancel s oid = Some (err, s')"
  shows "wf s'" "heaps_ok s \<Longrightarrow> heaps_ok s'"
    "orders s oid = None \<Longrightarrow> err = Some NotFound \<and> s' = s"
    "orders s oid = Some e \<Longrightarrow> err = None \<and>
        mset (opposing s (isBid (mem s ! e))) = add_mset e (mset (opposing s' (isBid (mem s ! e)))) \<and>
        resting s' (isBid (mem s ! e)) = resting s (isBid (mem s ! e)) \<and>
        orders s' = (orders s)(oid := None) \<and> length (mem s') = length (mem s) \<and>
        (\<forall>a. order (mem s' ! a) = order (mem s ! a) \<and> isBid (mem s' ! a) = isBid (mem s ! a)) \<and>
        cfg s' = cfg s \<and> seq s' = seq s \<and> trades s' = trades s \<and> updates s' = updates s \<and>
        ticks s' = ticks s \<and> now s' = now s"
  using result_of_effect [OF processCancel_effect [OF wf, of oid] res] by blast+

lemma processCancel_no_crash: "wf s \<Longrightarrow> processCancel s oid \<noteq> None"
  using processCancel_effect [of s oid] by auto

lemma processAmend_result:
  assumes wf: "wf s" and res: "processAmend s oid newPrice newQty = Some (err, s')"
  shows "wf s'" "heaps_ok s \<Longrightarrow> heaps_ok s'"
    "orders s oid = None \<Longrightarrow> err = Some NotFound \<and> s' = s"
    "orders s oid = Some e \<Longrightarrow> badQty newQty \<Longrightarrow> err = Some InvalidQuantity \<and> s' = s"
    "orders s oid = Some e \<Longrightarrow> \<not> badQty newQty \<Longrightarrow> badPrice (cfg s) newPrice \<Longrightarrow>
           err = Some TickAlignment \<and> s' = s\<lparr>mem := updOrder (mem s) e (resized newQty)\<rparr>"
    "orders s oid = Some e \<Longrightarrow> \<not> badQty newQty \<Longrightarrow> \<not> badPrice (cfg s) newPrice \<Longrightarrow>
           err = None \<and>
           mset (opposing s' (isBid (mem s ! e))) \<subseteq># mset (opposing s (isBid (mem s ! e))) \<and>
           resting s' (isBid (mem s ! e)) = resting s (isBid (mem s ! e)) \<and>
           (\<not> (0 < MaxDepth (cfg s) \<and>
                MaxDepth (cfg s) < int (length (opposing s (isBid (mem s ! e))))) \<longrightarrow>
              mset (opposing s' (isBid (mem s ! e))) = mset (opposing s (isBid (mem s ! e))) \<and>
              orders s' = orders s) \<and>
           (0 < MaxDepth (cfg s) \<longrightarrow>
              int (length (opposing s' (isBid (mem s ! e)))) \<le> MaxDepth (cfg s)) \<and>
           orders s' =
             (\<lambda>oid'. if oid' \<in> (\<lambda>a. ID (order (mem s ! a))) `
                              (set (opposing s (isBid (mem s ! e))) -
                               set (opposing s' (isBid (mem s ! e))))
                      then None else orders s oid') \<and>
           length (mem s') = length (mem s) \<and>
           (\<forall>a. isBid (mem s' ! a) = isBid (mem s ! a)) \<and>
           (\<forall>a. a \<noteq> e \<longrightarrow> order (mem s' ! a) = order (mem s ! a)) \<and>
           order (mem s' ! e) =
             amended newPrice newQty (wrap64 (seq s + 1)) (now s (ticks s)) (order (mem s ! e)) \<and>
           cfg s' = cfg s \<and> seq s' = wrap64 (seq s + 1) \<and> trades s' = trades s \<and>
           updates s' = updates s \<and> ticks s' = Suc (ticks s) \<and> now s' = now s"
  using result_of_effect [OF processAmend_effect [OF wf, of oid newPrice newQty] res] by blast+

lemma processAmend_no_crash: "wf s \<Longrightarrow> processAmend s oid newPrice newQty \<noteq> None"
  using processAmend_effect [of s oid newPrice newQty] by auto

lemma processCancel_sound:
  assumes "sound s"
  shows "\<exists>err s'. processCancel s oid = Some (err, s') \<and> sound s' \<and> cfg s' = cfg s"
proof -
  from assms have wf: "wf s" and h: "heaps_ok s" and d: "depth_ok s" by (simp_all add: sound_def)
  from processCancel_no_crash [OF wf, of oid] obtain err s' where
    res: "processCancel s oid = Some (err, s')" by auto
  note E = processCancel_result [OF wf res]
  have "depth_ok s' \<and> cfg s' = cfg s"
  proof (cases "orders s oid")
    case None
    with E(3) d show ?thesis by simp
  next
    case (Some e)
    from E(4) [OF Some]
    have "length (opposing s' (isBid (mem s ! e))) \<le> length (opposing s (isBid (mem s ! e)))"
      "resting s' (isBid (mem s ! e)) = resting s (isBid (mem s ! e))" "cfg s' = cfg s"
      by (auto dest: mset_add_length)
    with d show ?thesis unfolding depth_ok_sides [of _ "isBid (mem s ! e)"] by auto
  qed
  with res E(1) E(2) [OF h] show ?thesis by (auto simp: sound_def)
qed

lemma processAmend_sound:
  assumes "sound s"
  shows "\<exists>err s'. processAmend s oid newPrice newQty = Some (err, s') \<and> sound s' \<and> cfg s' = cfg s"
proof -
  from assms have wf: "wf s" and h: "heaps_ok s" and d: "depth_ok s" by (simp_all add: sound_def)
  from processAmend_no_crash [OF wf, of oid newPrice newQty] obtain err s' where
    res: "processAmend s oid newPrice newQty = Some (err, s')" by auto
  note E = processAmend_result [OF wf res]
  have "depth_ok s' \<and> cfg s' = cfg s"
  proof (cases "orders s oid")
    case None
    with E(3) d show ?thesis by simp
  next
    case (Some e)
    consider "badQty newQty" | "\<not> badQty newQty" "badPrice (cfg s) newPrice"
      | "\<not> badQty newQty" "\<not> badPrice (cfg s) newPrice" by blast
    then show ?thesis
    proof cases
      case 1
      with E(4) [OF Some] d show ?thesis by simp
    next
      case 2
      with E(5) [OF Some] d show ?thesis by (simp add: depth_ok_def)
    next
      case 3
      from E(6) [OF Some 3]
      have "resting s' (isBid (mem s ! e)) = resting s (isBid (mem s ! e))"
        "0 < MaxDepth (cfg s) \<longrightarrow>
              int (length (opposing s' (isBid (mem s ! e)))) \<le> MaxDepth (cfg s)"
        "cfg s' = cfg s" by simp_all
      with d show ?thesis unfolding depth_ok_sides [of _ "isBid (mem s ! e)"] by auto
    qed
  qed
  with res E(1) E(2) [OF h] show ?thesis by (auto simp: sound_def)
qed

lemma publishView_simps [simp]:
  "mem (publishView s) = mem s" "bids (publishView s) = bids s" "asks (publishView s) = asks s"
  "orders (publishView s) = orders s" "cfg (publishView s) = cfg s"
  "trades (publishView s) = trades s" "now (publishView s) = now s"
  "seq (publishView s) = seq s" "ticks (publishView s) = ticks s"
  "updates (publishView s) = updates s @ [snapshotView s]"
  by (simp_all add: publishView_def)

lemma sound_publishView [simp]: "sound (publishView s) = sound s"
  by (simp add: sound_def wf_def heaps_ok_def depth_ok_def)

text \<open>What the worker does with one request, by the command it dispatches to.\<close>

lemma serve_cases:
  assumes "serve s req = Some (err, s')"
  obtains order0 s0 where "req = requestAdd order0" "processAdd s order0 = Some (err, s0)"
      "s' = (if err = None then publishView s0 else s0)"
  | oid s0 where "req = requestCancel oid" "processCancel s oid = Some (err, s0)"
      "s' = (if err = None then publishView s0 else s0)"
  | oid np nq s0 where "req = requestAmend oid np nq" "processAmend s oid np nq = Some (err, s0)"
      "s' = (if err = None then publishView s0 else s0)"
  | "req = requestSnapshot" "err = None" "s' = s"
  using assms by (cases req) (auto simp: reply_def split: option.splits)

lemma serve_sound:
  assumes "sound s"
  shows "\<exists>err s'. serve s req = Some (err, s') \<and> sound s' \<and> cfg s' = cfg s"
proof (cases req)
  case (requestAdd order0)
  from processAdd_sound [OF assms, of order0] show ?thesis
    unfolding requestAdd by (auto simp: reply_def)
next
  case (requestCancel oid)
  from processCancel_sound [OF assms, of oid] show ?thesis
    unfolding requestCancel by (auto simp: reply_def)
next
  case (requestAmend oid np nq)
  from processAmend_sound [OF assms, of oid np nq] show ?thesis
    unfolding requestAmend by (auto simp: reply_def)
next
  case requestSnapshot
  with assms show ?thesis by simp
qed

lemma run_sound:
  assumes "sound s"
  shows "\<exists>s'. run s reqs = Some s' \<and> sound s' \<and> cfg s' = cfg s"
  using assms
proof (induction reqs arbitrary: s)
  case Nil
  then show ?case by simp
next
  case (Cons req reqs)
  from serve_sound [OF Cons.prems, of req] obtain err s1 where
    s1: "serve s req = Some (err, s1)" "sound s1" "cfg s1 = cfg s" by blast
  from Cons.IH [OF s1(2)] s1 show ?case by auto
qed

lemma sound_NewOrderBook: "sound (NewOrderBook c clock)"
  by (simp add: sound_def wf_def heaps_ok_def depth_ok_def NewOrderBook_def qwf_def idx_ok_def
      flags_def heap_upto_def keys_def)

lemma go_rem_dvd: "0 < p \<Longrightarrow> 0 < t \<Longrightarrow> go_rem p t \<noteq> 0 \<longleftrightarrow> \<not> t dvd p"
  by (simp add: go_rem_def dvd_eq_mod_eq_0)

lemma validate_spec:
  "validate c order0 =
     (if Symbol order0 \<noteq> cfgSymbol c then Some SymbolMismatch
      else if Quantity order0 \<le> 0 then Some InvalidQuantity
      else if Type order0 = Limit \<and>
              (TickSize c \<le> 0 \<or> Price order0 \<le> 0 \<or> \<not> TickSize c dvd Price order0)
           then Some TickAlignment
      else None)"
  using go_rem_dvd [of "Price order0" "TickSize c"]
  by (auto simp: validate_def)

lemma trimDepth_evicts:
  assumes "trimDepth m q d isB ords = Some (m', q', ords')" "e \<in> set q" "e \<notin> set q'"
    "a \<in> set q'"
  shows "worse isB (order (m ! e)) (order (m ! a))"
  using assms
proof (induction m q d isB ords rule: trimDepth.induct)
  case (1 m q d isB ords)
  show ?case
  proof (cases "0 < d \<and> d < int (length q)")
    case False
    with "1.prems" show ?thesis by (auto simp: trimDepth.simps [of m q d isB ords])
  next
    case True
    then have ne: "q \<noteq> []" by auto
    define idx where "idx = findWorstIndex m q isB"
    note W = findWorstIndex_spec [OF ne, of m isB, folded idx_def]
    from W have rng: "0 \<le> idx" "idx < int (length q)" by simp_all
    from heap_Remove_Some [OF rng, of m] obtain m1 q1 e1
      where hr: "heap_Remove m q idx = Some (m1, q1, e1)" by (metis not_Some_eq prod_cases3)
    from rng have nneg: "\<not> idx < 0" by simp
    from True hr nneg "1.prems"(1)
    have td: "trimDepth m1 q1 d isB (ords(ID (order (m1 ! e1)) := None)) = Some (m', q', ords')"
      by (simp add: trimDepth.simps [of m q d isB ords] idx_def [symmetric])
    note R = heap_Remove_spec [OF hr, of isB]
    from R have e1: "e1 = q ! nat idx" and rm: "removed m q e1 m1 q1" by blast+
    from rm have fr: "\<And>c. order (m1 ! c) = order (m ! c)" unfolding removed_def by blast
    note S = removed_set [OF rm]
    from trimDepth_spec [of m1 q1 d isB "ords(ID (order (m1 ! e1)) := None)" isB] td
    have "mset q' \<subseteq># mset q1" unfolding trimmed_def by auto
    then have sub: "set q' \<subseteq> set q1" by (metis set_mset_mono set_mset_mset)
    show ?thesis
    proof (cases "e = e1")
      case True
      from "1.prems"(4) sub S(1) have "a \<in> set q" by auto
      then obtain i where i: "i < length q" "q ! i = a" by (auto simp: in_set_conv_nth)
      from W i(1) have "worse isB (keys m q ! nat idx) (keys m q ! i)" by blast
      with i rng True e1 show ?thesis by (simp add: keys_def)
    next
      case False
      with "1.prems"(2) S(1) have "e \<in> set q1" by auto
      from "1.IH" [OF True idx_def nneg hr refl refl td this "1.prems"(3,4)]
      show ?thesis by (simp add: fr)
    qed
  qed
qed

lemma trimDepth_unindexes:
  assumes "trimDepth m q d isB ords = Some (m', q', ords')" "distinct q" "e \<in> set q" "e \<notin> set q'"
  shows "ords' (ID (order (m ! e))) = None"
proof -
  from trimDepth_spec [of m q d isB ords isB] assms(1)
  have "trimmed isB m q ords m' q' ords'" by auto
  with assms(2) have "ords' = (\<lambda>oid. if oid \<in> (\<lambda>e. ID (order (m ! e))) ` (set q - set q') then None
                       else ords oid)" unfolding trimmed_def by blast
  with assms(3,4) show ?thesis by auto
qed

lemma match_loop_trades_of_post:
  assumes "sound s" "validate (cfg s) order0 = None"
  shows "\<exists>s1 incoming1 s'.
      match_loop (opened s) (accepted s order0) (Side order0 \<noteq> Buy) = Some (s1, incoming1) \<and>
      processAdd s order0 = Some (None, s') \<and> trades s' = trades s1"
proof -
  from assms(1) have wf: "wf s" by (simp add: sound_def)
  have "\<exists>s1 incoming1 s'.
      match_loop (opened s) (accepted s order0) (Side order0 \<noteq> Buy) = Some (s1, incoming1) \<and>
      wf s1 \<and> True \<and> match_step s1 incoming1 (Side order0 \<noteq> Buy) = Exit \<and>
      (Side incoming1 = Buy) = (Side order0 = Buy) \<and>
      processAdd s order0 = Some (None, s') \<and> wf s' \<and>
      (if 0 < Remaining incoming1 \<and> Type incoming1 = Limit then
         \<exists>m2 q2 m3 q3 orders3.
           heap_Push (mem s1 @ [\<lparr>order = incoming1, index = 0, isBid = (Side incoming1 = Buy)\<rparr>])
               (resting s1 (Side order0 \<noteq> Buy)) (length (mem s1)) = (m2, q2) \<and>
           trimDepth m2 q2 (MaxDepth (cfg s1)) (Side incoming1 = Buy)
               ((orders s1)(ID incoming1 \<mapsto> length (mem s1))) = Some (m3, q3, orders3) \<and>
           s' = set_resting (s1\<lparr>mem := m3, orders := orders3\<rparr>) (Side order0 \<noteq> Buy) q3
       else s' = s1)"
    by (rule processAdd_result [where P = "\<lambda>s i. True", OF wf assms(2)]) simp_all
  then obtain s1 i1 s' where
    R: "match_loop (opened s) (accepted s order0) (Side order0 \<noteq> Buy) = Some (s1, i1)"
       "processAdd s order0 = Some (None, s')"
       "if 0 < Remaining i1 \<and> Type i1 = Limit then
         \<exists>m2 q2 m3 q3 orders3.
           heap_Push (mem s1 @ [\<lparr>order = i1, index = 0, isBid = (Side i1 = Buy)\<rparr>])
               (resting s1 (Side order0 \<noteq> Buy)) (length (mem s1)) = (m2, q2) \<and>
           trimDepth m2 q2 (MaxDepth (cfg s1)) (Side i1 = Buy)
               ((orders s1)(ID i1 \<mapsto> length (mem s1))) = Some (m3, q3, orders3) \<and>
           s' = set_resting (s1\<lparr>mem := m3, orders := orders3\<rparr>) (Side order0 \<noteq> Buy) q3
       else s' = s1"
    by blast
  have "trades s' = trades s1"
  proof (cases "0 < Remaining i1 \<and> Type i1 = Limit")
    case True
    with R(3) obtain m3 q3 orders3 where
      "s' = set_resting (s1\<lparr>mem := m3, orders := orders3\<rparr>) (Side order0 \<noteq> Buy) q3" by auto
    then show ?thesis by simp
  next
    case False
    with R(3) show ?thesis by simp
  qed
  with R(1,2) show ?thesis by blast
qed


subsection \<open>The states of the matching loop\<close>

text \<open>
  The loop of \<^verbatim>\<open>match\<close> evaluates its condition at a sequence of books and incoming
  orders: the ones it is entered with, and the ones each iteration leaves. The list ends
  with the pair at which the loop exits; every pair before the last is one at which an
  iteration matches the incoming order against the top of the opposing queue.
\<close>

function match_states :: "OrderBook \<Rightarrow> Order \<Rightarrow> bool \<Rightarrow> (OrderBook \<times> Order) list" where
  "match_states s incoming opposingIsBid =
     (s, incoming) #
     (case match_step s incoming opposingIsBid of
        Next s' incoming' \<Rightarrow> match_states s' incoming' opposingIsBid
      | _ \<Rightarrow> [])"
  by pat_completeness auto

termination match_states
  by (relation "measure (\<lambda>(s, incoming, b).
        2 * length (opposing s b) + (if Remaining incoming > 0 then 1 else 0))")
     (auto dest!: match_step_decreases split: if_splits)

declare match_states.simps [simp del]

lemma match_states_Exit:
  "match_step s i b = Exit \<Longrightarrow> match_states s i b = [(s, i)]"
  by (simp add: match_states.simps [of s i b])

lemma match_states_Next:
  "match_step s i b = Next s' i' \<Longrightarrow> match_states s i b = (s, i) # match_states s' i' b"
  by (simp add: match_states.simps [of s i b])

lemma match_states_not_Nil [simp]: "match_states s i b \<noteq> []"
  by (simp add: match_states.simps [of s i b])

lemma hd_match_states [simp]: "hd (match_states s i b) = (s, i)"
  by (simp add: match_states.simps [of s i b])



lemma match_states_rule:
  assumes w: "wf s"
    and base: "\<And>s i. wf s \<Longrightarrow> match_step s i b = Exit \<Longrightarrow> Q s i [(s, i)]"
    and step: "\<And>s i s' i'. wf s \<Longrightarrow> wf s' \<Longrightarrow> match_step s i b = Next s' i' \<Longrightarrow>
                 Q s' i' (match_states s' i' b) \<Longrightarrow> Q s i ((s, i) # match_states s' i' b)"
  shows "Q s i (match_states s i b)"
  using w base step
proof (induction s i b rule: match_states.induct)
  case (1 s i b)
  note w = "1.prems"(1) and base = "1.prems"(2) and step = "1.prems"(3)
  show ?case
  proof (cases "match_step s i b")
    case Exit
    show ?thesis unfolding match_states_Exit [OF Exit] by (rule base [OF w Exit])
  next
    case Crash
    with match_step_no_crash [OF w] show ?thesis by simp
  next
    case (Next s1 i1)
    from match_step_Next [OF Next] obtain best where pk: "peek (opposing s b) = Some best"
      by blast
    from match_step_effect(1) [OF w Next pk] have w1: "wf s1" .
    have ih: "Q s1 i1 (match_states s1 i1 b)"
      using Next w1 base step by (rule "1.IH")
    show ?thesis unfolding match_states_Next [OF Next] by (rule step [OF w w1 Next ih])
  qed
qed


lemma match_states_loop:
  assumes "wf s"
  shows "match_loop s i b = Some (last (match_states s i b))"
proof (rule match_states_rule [where Q = "\<lambda>s i sts. match_loop s i b = Some (last sts)", OF assms])
  fix s i
  assume "match_step s i b = Exit"
  then show "match_loop s i b = Some (last [(s, i)])"
    by (simp add: match_loop.simps [of s i b])
next
  fix s i s' i'
  assume "match_step s i b = Next s' i'"
    and "match_loop s' i' b = Some (last (match_states s' i' b))"
  then show "match_loop s i b = Some (last ((s, i) # match_states s' i' b))"
    by (simp add: match_loop.simps [of s i b])
qed

lemma match_states_inv:
  assumes w: "wf s" and p: "P s i"
    and pres: "\<And>s i s' i'. wf s \<Longrightarrow> P s i \<Longrightarrow> match_step s i b = Next s' i' \<Longrightarrow> P s' i'"
  shows "\<forall>(sk, ik)\<in>set (match_states s i b). wf sk \<and> P sk ik"
proof -
  have "P s i \<longrightarrow> (\<forall>(sk, ik)\<in>set (match_states s i b). wf sk \<and> P sk ik)"
  proof (rule match_states_rule [where
        Q = "\<lambda>s i sts. P s i \<longrightarrow> (\<forall>(sk, ik)\<in>set sts. wf sk \<and> P sk ik)", OF w])
    fix s i
    assume "wf s"
    then show "P s i \<longrightarrow> (\<forall>(sk, ik)\<in>set [(s, i)]. wf sk \<and> P sk ik)" by simp
  next
    fix s i s' i'
    assume w: "wf s" and st: "match_step s i b = Next s' i'"
      and ih: "P s' i' \<longrightarrow> (\<forall>(sk, ik)\<in>set (match_states s' i' b). wf sk \<and> P sk ik)"
    show "P s i \<longrightarrow> (\<forall>(sk, ik)\<in>set ((s, i) # match_states s' i' b). wf sk \<and> P sk ik)"
    proof
      assume p: "P s i"
      from pres [OF w p st] ih have "\<forall>(sk, ik)\<in>set (match_states s' i' b). wf sk \<and> P sk ik"
        by blast
      with w p show "\<forall>(sk, ik)\<in>set ((s, i) # match_states s' i' b). wf sk \<and> P sk ik"
        by simp
    qed
  qed
  with p show ?thesis by blast
qed

lemma match_states_last_Exit:
  assumes "wf s"
  shows "match_step (fst (last (match_states s i b))) (snd (last (match_states s i b))) b = Exit"
proof (rule match_states_rule [where
      Q = "\<lambda>s i sts. match_step (fst (last sts)) (snd (last sts)) b = Exit", OF assms])
  fix s i
  assume "match_step s i b = Exit"
  then show "match_step (fst (last [(s, i)])) (snd (last [(s, i)])) b = Exit" by simp
next
  fix s i s' i'
  assume "match_step (fst (last (match_states s' i' b))) (snd (last (match_states s' i' b))) b
      = Exit"
  then show "match_step (fst (last ((s, i) # match_states s' i' b)))
      (snd (last ((s, i) # match_states s' i' b))) b = Exit" by simp
qed

text \<open>
  The entries the iterations match against, in order: the top of the opposing queue at
  each state but the last.
\<close>

definition counterparties :: "bool \<Rightarrow> (OrderBook \<times> Order) list \<Rightarrow> addr list" where
  "counterparties b sts = map (\<lambda>(sk, ik). hd (opposing sk b)) (butlast sts)"

lemma counterparties_simps [simp]:
  "counterparties b [x] = []"
  "sts \<noteq> [] \<Longrightarrow> counterparties b ((s, i) # sts) = hd (opposing s b) # counterparties b sts"
  by (simp_all add: counterparties_def)

lemma match_states_trades:
  assumes "wf s"
  shows "trades (fst (last (match_states s i b))) =
     trades s @ map (\<lambda>(sk, ik). tradeOf sk ik (hd (opposing sk b))) (butlast (match_states s i b))"
proof (rule match_states_rule [where
      Q = "\<lambda>s i sts. trades (fst (last sts)) =
             trades s @ map (\<lambda>(sk, ik). tradeOf sk ik (hd (opposing sk b))) (butlast sts)",
      OF assms])
  fix s i
  show "trades (fst (last [(s, i)])) =
     trades s @ map (\<lambda>(sk, ik). tradeOf sk ik (hd (opposing sk b))) (butlast [(s, i)])"
    by simp
next
  fix s i s' i'
  assume st: "match_step s i b = Next s' i'"
    and ih: "trades (fst (last (match_states s' i' b))) =
      trades s' @ map (\<lambda>(sk, ik). tradeOf sk ik (hd (opposing sk b)))
        (butlast (match_states s' i' b))"
  from match_step_Next [OF st] obtain best where pk: "peek (opposing s b) = Some best"
    and t: "trades s' = trades s @ [tradeOf s i best]" by blast
  from peek_hd [OF pk] have "best = hd (opposing s b)" by simp
  with t ih show "trades (fst (last ((s, i) # match_states s' i' b))) =
     trades s @ map (\<lambda>(sk, ik). tradeOf sk ik (hd (opposing sk b)))
       (butlast ((s, i) # match_states s' i' b))"
    by simp
qed

lemma match_states_incoming:
  assumes "wf s"
  shows "\<forall>(sk, ik)\<in>set (match_states s i b). ik = i\<lparr>Remaining := Remaining ik\<rparr>"
proof (rule match_states_rule [where
      Q = "\<lambda>s i sts. \<forall>(sk, ik)\<in>set sts. ik = i\<lparr>Remaining := Remaining ik\<rparr>", OF assms])
  fix s :: OrderBook and i :: Order
  show "\<forall>(sk, ik)\<in>set [(s, i)]. ik = i\<lparr>Remaining := Remaining ik\<rparr>" by simp
next
  fix s i s' i'
  assume st: "match_step s i b = Next s' i'"
    and ih: "\<forall>(sk, ik)\<in>set (match_states s' i' b). ik = i'\<lparr>Remaining := Remaining ik\<rparr>"
  from match_step_Next [OF st] obtain n where i': "i' = i\<lparr>Remaining := n\<rparr>" by blast
  have "ik = i\<lparr>Remaining := Remaining ik\<rparr>" if "(sk, ik) \<in> set (match_states s' i' b)" for sk ik
  proof -
    from ih that have "ik = i'\<lparr>Remaining := Remaining ik\<rparr>" by blast
    then have "ik = i\<lparr>Remaining := n, Remaining := Remaining ik\<rparr>" unfolding i' .
    then show ?thesis by simp
  qed
  then show "\<forall>(sk, ik)\<in>set ((s, i) # match_states s' i' b). ik = i\<lparr>Remaining := Remaining ik\<rparr>"
    by auto
qed

lemma match_states_remaining:
  assumes "wf s"
  shows "Remaining (snd (last (match_states s i b))) +
     (\<Sum>(sk, ik)\<leftarrow>butlast (match_states s i b). tradedQty sk ik (hd (opposing sk b)))
     = Remaining i"
proof (rule match_states_rule [where
      Q = "\<lambda>s i sts. Remaining (snd (last sts)) +
             (\<Sum>(sk, ik)\<leftarrow>butlast sts. tradedQty sk ik (hd (opposing sk b))) = Remaining i",
      OF assms])
  fix s :: OrderBook and i :: Order
  show "Remaining (snd (last [(s, i)])) +
     (\<Sum>(sk, ik)\<leftarrow>butlast [(s, i)]. tradedQty sk ik (hd (opposing sk b))) = Remaining i"
    by simp
next
  fix s i s' i'
  assume st: "match_step s i b = Next s' i'"
    and ih: "Remaining (snd (last (match_states s' i' b))) +
     (\<Sum>(sk, ik)\<leftarrow>butlast (match_states s' i' b). tradedQty sk ik (hd (opposing sk b)))
     = Remaining i'"
  from match_step_Next [OF st] obtain best where pk: "peek (opposing s b) = Some best"
    and i': "i' = i\<lparr>Remaining := Remaining i - tradedQty s i best\<rparr>" by blast
  from peek_hd [OF pk] have b: "best = hd (opposing s b)" by simp
  from i' have "Remaining i' = Remaining i - tradedQty s i (hd (opposing s b))"
    unfolding b by simp
  with ih show "Remaining (snd (last ((s, i) # match_states s' i' b))) +
     (\<Sum>(sk, ik)\<leftarrow>butlast ((s, i) # match_states s' i' b). tradedQty sk ik (hd (opposing sk b)))
     = Remaining i"
    by simp
qed


lemma accepted_simps [simp]:
  "ID (accepted s order0) = ID order0" "Symbol (accepted s order0) = Symbol order0"
  "Side (accepted s order0) = Side order0" "Type (accepted s order0) = Type order0"
  "Price (accepted s order0) = Price order0" "Quantity (accepted s order0) = Quantity order0"
  "Remaining (accepted s order0) = Quantity order0"
  "Sequence (accepted s order0) = wrap64 (seq s + 1)"
  "Timestamp (accepted s order0) = now s (ticks s)"
  by (simp_all add: accepted_def)

lemma processAdd_states:
  assumes wf: "wf s" and v: "validate (cfg s) order0 = None"
  shows "\<exists>s1 incoming1 s'.
     last (match_states (opened s) (accepted s order0) (Side order0 \<noteq> Buy)) = (s1, incoming1) \<and>
     match (opened s) (accepted s order0) (Side order0 \<noteq> Buy) = Some (s', incoming1) \<and>
     processAdd s order0 = Some (None, s') \<and> wf s1 \<and> trades s' = trades s1 \<and>
     (\<forall>a<length (mem s1). order (mem s' ! a) = order (mem s1 ! a))"
proof -
  let ?b = "Side order0 \<noteq> Buy"
  have w: "wf (opened s)" using wf by simp
  have sd: "(Side (accepted s order0) = Buy) = (\<not> ?b)" by simp
  have "\<exists>s1 incoming1 s'. match_loop (opened s) (accepted s order0) ?b = Some (s1, incoming1) \<and>
      wf s1 \<and> True \<and> match_step s1 incoming1 ?b = Exit \<and>
      (Side incoming1 = Buy) = (\<not> ?b) \<and>
      match (opened s) (accepted s order0) ?b = Some (s', incoming1) \<and> wf s' \<and>
      (if 0 < Remaining incoming1 \<and> Type incoming1 = Limit then
         \<exists>m2 q2 m3 q3 orders3.
           heap_Push (mem s1 @ [\<lparr>order = incoming1, index = 0, isBid = (Side incoming1 = Buy)\<rparr>])
               (resting s1 ?b) (length (mem s1)) = (m2, q2) \<and>
           trimDepth m2 q2 (MaxDepth (cfg s1)) (Side incoming1 = Buy)
               ((orders s1)(ID incoming1 \<mapsto> length (mem s1))) = Some (m3, q3, orders3) \<and>
           s' = set_resting (s1\<lparr>mem := m3, orders := orders3\<rparr>) ?b q3
       else s' = s1)"
    by (rule match_result [where P = "\<lambda>s i. True", OF w sd]) simp_all
  then obtain s1 i1 s' where
    R: "match_loop (opened s) (accepted s order0) ?b = Some (s1, i1)" "wf s1"
       "(Side i1 = Buy) = (\<not> ?b)"
       "match (opened s) (accepted s order0) ?b = Some (s', i1)"
       "if 0 < Remaining i1 \<and> Type i1 = Limit then
         \<exists>m2 q2 m3 q3 orders3.
           heap_Push (mem s1 @ [\<lparr>order = i1, index = 0, isBid = (Side i1 = Buy)\<rparr>])
               (resting s1 ?b) (length (mem s1)) = (m2, q2) \<and>
           trimDepth m2 q2 (MaxDepth (cfg s1)) (Side i1 = Buy)
               ((orders s1)(ID i1 \<mapsto> length (mem s1))) = Some (m3, q3, orders3) \<and>
           s' = set_resting (s1\<lparr>mem := m3, orders := orders3\<rparr>) ?b q3
       else s' = s1"
    by blast
  from match_states_loop [OF w, of "accepted s order0" ?b] R(1)
  have l: "last (match_states (opened s) (accepted s order0) ?b) = (s1, i1)" by simp
  from R(4) v have pa: "processAdd s order0 = Some (None, s')" by (simp add: processAdd_alt)
  have fr: "trades s' = trades s1 \<and> (\<forall>a<length (mem s1). order (mem s' ! a) = order (mem s1 ! a))"
  proof (cases "0 < Remaining i1 \<and> Type i1 = Limit")
    case True
    with R(5) obtain m2 q2 m3 q3 orders3 where
      psh: "heap_Push (mem s1 @ [\<lparr>order = i1, index = 0, isBid = (Side i1 = Buy)\<rparr>])
               (resting s1 ?b) (length (mem s1)) = (m2, q2)"
      and tr: "trimDepth m2 q2 (MaxDepth (cfg s1)) (Side i1 = Buy)
               ((orders s1)(ID i1 \<mapsto> length (mem s1))) = Some (m3, q3, orders3)"
      and s': "s' = set_resting (s1\<lparr>mem := m3, orders := orders3\<rparr>) ?b q3" by auto
    from post_effect [OF R(2,3) psh] tr
    have "\<forall>a<length (mem s1). order (m3 ! a) = order (mem s1 ! a)" by auto
    then show ?thesis unfolding s' by simp
  next
    case False
    with R(5) show ?thesis by simp
  qed
  from l R(4) pa R(2) fr show ?thesis by blast
qed

lemma match_states_matching:
  assumes "wf s"
  shows "\<forall>(sk, ik)\<in>set (butlast (match_states s i b)). \<exists>s' i'. match_step sk ik b = Next s' i'"
proof (rule match_states_rule [where
      Q = "\<lambda>s i sts. \<forall>(sk, ik)\<in>set (butlast sts). \<exists>s' i'. match_step sk ik b = Next s' i'",
      OF assms])
  fix s :: OrderBook and i :: Order
  show "\<forall>(sk, ik)\<in>set (butlast [(s, i)]). \<exists>s' i'. match_step sk ik b = Next s' i'" by simp
next
  fix s i s' i'
  assume st: "match_step s i b = Next s' i'"
    and ih: "\<forall>(sk, ik)\<in>set (butlast (match_states s' i' b)).
               \<exists>s' i'. match_step sk ik b = Next s' i'"
  then show "\<forall>(sk, ik)\<in>set (butlast ((s, i) # match_states s' i' b)).
               \<exists>s' i'. match_step sk ik b = Next s' i'"
    by simp
qed

lemma min_i64_min: "min_i64 a b = min a b"
  by (simp add: min_i64_def min_def)

lemma map_tradeOf:
  "map trPrice (map (\<lambda>(sk, ik). tradeOf sk ik (hd (opposing sk b))) xs) =
     map (\<lambda>(sk, ik). Price (order (mem sk ! hd (opposing sk b)))) xs"
  "map trQuantity (map (\<lambda>(sk, ik). tradeOf sk ik (hd (opposing sk b))) xs) =
     map (\<lambda>(sk, ik). min (Remaining ik) (Remaining (order (mem sk ! hd (opposing sk b))))) xs"
  by (simp_all add: tradeOf_def tradedQty_def min_i64_min case_prod_unfold)

lemma processAdd_trades:
  assumes wf: "wf s" and v: "validate (cfg s) order0 = None"
  shows "\<exists>s'. processAdd s order0 = Some (None, s') \<and>
     trades s' = trades s @ map (\<lambda>(sk, ik). tradeOf sk ik (hd (opposing sk (Side order0 \<noteq> Buy))))
        (butlast (match_states (opened s) (accepted s order0) (Side order0 \<noteq> Buy)))"
proof -
  from processAdd_states [OF wf v] obtain s1 i1 s' where
    l: "last (match_states (opened s) (accepted s order0) (Side order0 \<noteq> Buy)) = (s1, i1)"
    and pa: "processAdd s order0 = Some (None, s')" and t: "trades s' = trades s1" by blast
  have w: "wf (opened s)" using wf by simp
  from match_states_trades [OF w, of "accepted s order0" "Side order0 \<noteq> Buy"] l t
  have "trades s' = trades s @ map (\<lambda>(sk, ik). tradeOf sk ik (hd (opposing sk (Side order0 \<noteq> Buy))))
        (butlast (match_states (opened s) (accepted s order0) (Side order0 \<noteq> Buy)))"
    by simp
  with pa show ?thesis by blast
qed

lemma matching_state:
  assumes w: "wf s" and m: "(sk, ik) \<in> set (butlast (match_states s i b))"
  shows "peek (opposing sk b) = Some (hd (opposing sk b))" "0 < Remaining ik"
    "crosses ik (order (mem sk ! hd (opposing sk b)))" "ik = i\<lparr>Remaining := Remaining ik\<rparr>"
proof -
  from match_states_matching [OF w, of i b] m obtain s' i' where
    st: "match_step sk ik b = Next s' i'" by blast
  from match_step_Next [OF st] obtain best where pk: "peek (opposing sk b) = Some best"
    and r: "0 < Remaining ik" and c: "crosses ik (order (mem sk ! best))" by blast
  from peek_hd [OF pk] have b: "best = hd (opposing sk b)" by simp
  from pk show "peek (opposing sk b) = Some (hd (opposing sk b))" unfolding b .
  from r show "0 < Remaining ik" .
  from c show "crosses ik (order (mem sk ! hd (opposing sk b)))" unfolding b .
  from m have "(sk, ik) \<in> set (match_states s i b)" by (rule in_set_butlastD)
  with match_states_incoming [OF w, of i b] show "ik = i\<lparr>Remaining := Remaining ik\<rparr>" by blast
qed

text \<open>
  What the trades \<open>ts\<close> take from the entry \<open>a\<close>, when \<open>es\<close> lists the resting
  counterparty of each.
\<close>

definition filled :: "addr \<Rightarrow> addr list \<Rightarrow> MatchResult list \<Rightarrow> int" where
  "filled a es ts = (\<Sum>(e, t)\<leftarrow>zip es ts. if e = a then trQuantity t else 0)"

lemma filled_map:
  "filled a (map f xs) (map g xs) = (\<Sum>x\<leftarrow>xs. if f x = a then trQuantity (g x) else 0)"
  by (induction xs) (simp_all add: filled_def)

lemma match_states_resting:
  assumes "wf s"
  shows "\<forall>a. order (mem (fst (last (match_states s i b))) ! a) =
     (order (mem s ! a))\<lparr>Remaining := Remaining (order (mem s ! a)) -
        (\<Sum>x\<leftarrow>butlast (match_states s i b).
           if hd (opposing (fst x) b) = a then tradedQty (fst x) (snd x) (hd (opposing (fst x) b))
           else 0)\<rparr>"
proof (rule match_states_rule [where
      Q = "\<lambda>s i sts. \<forall>a. order (mem (fst (last sts)) ! a) =
        (order (mem s ! a))\<lparr>Remaining := Remaining (order (mem s ! a)) -
           (\<Sum>x\<leftarrow>butlast sts.
              if hd (opposing (fst x) b) = a then tradedQty (fst x) (snd x) (hd (opposing (fst x) b))
              else 0)\<rparr>", OF assms])
  fix s :: OrderBook and i :: Order
  show "\<forall>a. order (mem (fst (last [(s, i)])) ! a) =
     (order (mem s ! a))\<lparr>Remaining := Remaining (order (mem s ! a)) -
        (\<Sum>x\<leftarrow>butlast [(s, i)].
           if hd (opposing (fst x) b) = a then tradedQty (fst x) (snd x) (hd (opposing (fst x) b))
           else 0)\<rparr>"
    by simp
next
  fix s i s' i'
  assume w: "wf s" and st: "match_step s i b = Next s' i'"
    and ih: "\<forall>a. order (mem (fst (last (match_states s' i' b))) ! a) =
     (order (mem s' ! a))\<lparr>Remaining := Remaining (order (mem s' ! a)) -
        (\<Sum>x\<leftarrow>butlast (match_states s' i' b).
           if hd (opposing (fst x) b) = a then tradedQty (fst x) (snd x) (hd (opposing (fst x) b))
           else 0)\<rparr>"
  from match_step_Next [OF st] obtain best where pk: "peek (opposing s b) = Some best" by blast
  from peek_hd [OF pk] have b: "hd (opposing s b) = best" by simp
  note E = match_step_effect [OF w st pk]
  show "\<forall>a. order (mem (fst (last ((s, i) # match_states s' i' b))) ! a) =
     (order (mem s ! a))\<lparr>Remaining := Remaining (order (mem s ! a)) -
        (\<Sum>x\<leftarrow>butlast ((s, i) # match_states s' i' b).
           if hd (opposing (fst x) b) = a then tradedQty (fst x) (snd x) (hd (opposing (fst x) b))
           else 0)\<rparr>"
  proof
    fix a
    show "order (mem (fst (last ((s, i) # match_states s' i' b))) ! a) =
     (order (mem s ! a))\<lparr>Remaining := Remaining (order (mem s ! a)) -
        (\<Sum>x\<leftarrow>butlast ((s, i) # match_states s' i' b).
           if hd (opposing (fst x) b) = a then tradedQty (fst x) (snd x) (hd (opposing (fst x) b))
           else 0)\<rparr>"
    proof (cases "a = best")
      case True
      from ih have "order (mem (fst (last (match_states s' i' b))) ! best) =
        (order (mem s' ! best))\<lparr>Remaining := Remaining (order (mem s' ! best)) -
        (\<Sum>x\<leftarrow>butlast (match_states s' i' b).
           if hd (opposing (fst x) b) = best
           then tradedQty (fst x) (snd x) (hd (opposing (fst x) b)) else 0)\<rparr>" by blast
      then show ?thesis unfolding E(6) True by (simp add: b algebra_simps)
    next
      case False
      from ih have "order (mem (fst (last (match_states s' i' b))) ! a) =
        (order (mem s' ! a))\<lparr>Remaining := Remaining (order (mem s' ! a)) -
        (\<Sum>x\<leftarrow>butlast (match_states s' i' b).
           if hd (opposing (fst x) b) = a
           then tradedQty (fst x) (snd x) (hd (opposing (fst x) b)) else 0)\<rparr>" by blast
      then show ?thesis unfolding E(5) [OF False] using False by (simp add: b)
    qed
  qed
qed

lemma match_states_length_mem:
  assumes "wf s"
  shows "\<forall>(sk, ik)\<in>set (match_states s i b).
           wf sk \<and> length (mem sk) = length (mem s) \<and> set (opposing sk b) \<subseteq> set (opposing s b)"
proof (rule match_states_inv [where
      P = "\<lambda>sk ik. length (mem sk) = length (mem s) \<and> set (opposing sk b) \<subseteq> set (opposing s b)",
      OF assms])
  show "length (mem s) = length (mem s) \<and> set (opposing s b) \<subseteq> set (opposing s b)" by simp
next
  fix t i t' i'
  assume w: "wf t" and p: "length (mem t) = length (mem s) \<and> set (opposing t b) \<subseteq> set (opposing s b)"
    and st: "match_step t i b = Next t' i'"
  from match_step_Next [OF st] obtain best where pk: "peek (opposing t b) = Some best" by blast
  note E = match_step_effect [OF w st pk]
  have "set (opposing t' b) \<subseteq> set (opposing t b)"
  proof (cases "Remaining (order (mem t ! best)) = tradedQty t i best")
    case True
    with E(8) have "mset (opposing t b) = add_mset best (mset (opposing t' b))" by simp
    then have "set_mset (mset (opposing t b)) = set_mset (add_mset best (mset (opposing t' b)))"
      by simp
    then show ?thesis by auto
  next
    case False
    with E(8) have "mset (opposing t' b) = mset (opposing t b)" by simp
    then have "set (opposing t' b) = set (opposing t b)" by (rule mset_eq_setD)
    then show ?thesis by simp
  qed
  with p E(3) show "length (mem t') = length (mem s) \<and> set (opposing t' b) \<subseteq> set (opposing s b)"
    by auto
qed


lemma sum_tradeOf:
  "sum_list (map trQuantity (map (\<lambda>(sk, ik). tradeOf sk ik (hd (opposing sk b))) xs)) =
     (\<Sum>(sk, ik)\<leftarrow>xs. tradedQty sk ik (hd (opposing sk b)))"
  by (simp add: tradeOf_def case_prod_unfold comp_def)

lemma filled_tradeOf:
  "filled a (map (\<lambda>(sk, ik). hd (opposing sk b)) xs)
       (map (\<lambda>(sk, ik). tradeOf sk ik (hd (opposing sk b))) xs) =
     (\<Sum>x\<leftarrow>xs. if hd (opposing (fst x) b) = a
                then tradedQty (fst x) (snd x) (hd (opposing (fst x) b)) else 0)"
  unfolding filled_map by (simp add: tradeOf_def case_prod_unfold cong: if_cong)

lemma counterparties_rest:
  assumes w: "wf s"
  shows "set (counterparties b (match_states s i b)) \<subseteq> set (opposing s b)"
proof
  fix e
  assume "e \<in> set (counterparties b (match_states s i b))"
  then obtain sk ik where m: "(sk, ik) \<in> set (butlast (match_states s i b))"
    and e: "e = hd (opposing sk b)" by (auto simp: counterparties_def)
  from matching_state(1) [OF w m] have "peek (opposing sk b) = Some e" unfolding e .
  from peek_hd [OF this] have "e \<in> set (opposing sk b)" by blast
  moreover from m have "(sk, ik) \<in> set (match_states s i b)" by (rule in_set_butlastD)
  with match_states_length_mem [OF w, of i b] have "set (opposing sk b) \<subseteq> set (opposing s b)"
    by blast
  ultimately show "e \<in> set (opposing s b)" by blast
qed

lemma processAdd_conserves:
  assumes wf: "wf s" and v: "validate (cfg s) order0 = None"
  shows "\<exists>s' incoming1.
     match (opened s) (accepted s order0) (Side order0 \<noteq> Buy) = Some (s', incoming1) \<and>
     processAdd s order0 = Some (None, s') \<and>
     sum_list (map trQuantity (drop (length (trades s)) (trades s'))) + Remaining incoming1
       = Quantity order0 \<and>
     (\<forall>a<length (mem s). order (mem s' ! a) =
        (order (mem s ! a))\<lparr>Remaining := Remaining (order (mem s ! a)) -
           filled a (counterparties (Side order0 \<noteq> Buy)
                       (match_states (opened s) (accepted s order0) (Side order0 \<noteq> Buy)))
             (drop (length (trades s)) (trades s'))\<rparr>)"
proof -
  let ?b = "Side order0 \<noteq> Buy"
  let ?sts = "match_states (opened s) (accepted s order0) ?b"
  have w: "wf (opened s)" using wf by simp
  from processAdd_states [OF wf v] obtain s1 i1 s' where
    l: "last ?sts = (s1, i1)"
    and m: "match (opened s) (accepted s order0) ?b = Some (s', i1)"
    and pa: "processAdd s order0 = Some (None, s')" and t: "trades s' = trades s1"
    and fr: "\<forall>a<length (mem s1). order (mem s' ! a) = order (mem s1 ! a)" by blast
  from match_states_trades [OF w, of "accepted s order0" ?b] l t
  have d: "drop (length (trades s)) (trades s') =
      map (\<lambda>(sk, ik). tradeOf sk ik (hd (opposing sk ?b))) (butlast ?sts)" by simp
  from match_states_remaining [OF w, of "accepted s order0" ?b] l
  have r: "sum_list (map trQuantity (drop (length (trades s)) (trades s'))) + Remaining i1
       = Quantity order0"
    unfolding d sum_tradeOf by simp
  have "last ?sts \<in> set ?sts" by simp
  with match_states_length_mem [OF w, of "accepted s order0" ?b] l
  have len: "length (mem s1) = length (mem s)" by auto
  have o: "order (mem s' ! a) =
        (order (mem s ! a))\<lparr>Remaining := Remaining (order (mem s ! a)) -
           filled a (counterparties ?b ?sts) (drop (length (trades s)) (trades s'))\<rparr>"
    if a: "a < length (mem s)" for a
  proof -
    from fr a len have "order (mem s' ! a) = order (mem s1 ! a)" by simp
    also from match_states_resting [OF w, of "accepted s order0" ?b] l
    have "order (mem s1 ! a) =
       (order (mem s ! a))\<lparr>Remaining := Remaining (order (mem s ! a)) -
        (\<Sum>x\<leftarrow>butlast ?sts.
           if hd (opposing (fst x) ?b) = a
           then tradedQty (fst x) (snd x) (hd (opposing (fst x) ?b)) else 0)\<rparr>"
      by simp
    finally show ?thesis unfolding d counterparties_def filled_tradeOf .
  qed
  from m pa r o show ?thesis by blast
qed

lemma not_before_iff:
  "\<not> before isB a best \<longleftrightarrow>
     (if isB then Price a \<le> Price best else Price best \<le> Price a) \<and>
     (Price a = Price best \<longrightarrow>
        Timestamp best \<le> Timestamp a \<and>
        (Timestamp a = Timestamp best \<longrightarrow> Sequence best \<le> Sequence a))"
  by (auto simp: before_def)

lemma top_is_best:
  assumes wf: "wf s" and hp: "heaps_ok s" and a: "a \<in> set (opposing s b)"
  shows "\<not> before b (order (mem s ! a)) (order (mem s ! hd (opposing s b)))"
    and "\<not> entryLess (mem s ! a) (mem s ! hd (opposing s b))"
proof -
  let ?q = "opposing s b"
  from a obtain c where c: "c < length ?q" "?q ! c = a" by (auto simp: in_set_conv_nth)
  from c(1) have ne: "?q \<noteq> []" by auto
  from hp have "heap_upto b (keys (mem s) ?q) (length ?q)" by (simp add: heaps_ok_sides [of s b])
  from heap_top [OF this c(1)] c ne
  show nb: "\<not> before b (order (mem s ! a)) (order (mem s ! hd ?q))"
    by (simp add: keys_def hd_conv_nth)
  from wf a have "isBid (mem s ! a) = b" by (simp add: wf_sides [of s b] flags_def)
  with nb show "\<not> entryLess (mem s ! a) (mem s ! hd ?q)" by (simp add: entryLess_before)
qed

lemma match_states_heaps:
  assumes w: "wf s" and hp: "heaps_ok s"
  shows "\<forall>(sk, ik)\<in>set (match_states s i b). wf sk \<and> heaps_ok sk"
proof (rule match_states_inv [where P = "\<lambda>sk ik. heaps_ok sk", OF w hp])
  fix t i t' i'
  assume w: "wf t" and p: "heaps_ok t" and st: "match_step t i b = Next t' i'"
  from match_step_Next [OF st] obtain best where pk: "peek (opposing t b) = Some best" by blast
  from match_step_effect(2) [OF w st pk p] show "heaps_ok t'" .
qed


text \<open>
  A submit that passes validation, in two parts: the loop, which keeps whatever its
  iterations keep, and the posting of the remainder.
\<close>

lemma processAdd_post:
  assumes wf: "wf s" and v: "validate (cfg s) order0 = None"
    and p: "P (opened s) (accepted s order0)"
    and step: "\<And>s i s' i'. wf s \<Longrightarrow> P s i \<Longrightarrow>
                 match_step s i (Side order0 \<noteq> Buy) = Next s' i' \<Longrightarrow> P s' i'"
  shows "\<exists>s1 i1 s'.
      processAdd s order0 = Some (None, s') \<and> wf s1 \<and> wf s' \<and> P s1 i1 \<and>
      match_step s1 i1 (Side order0 \<noteq> Buy) = Exit \<and>
      i1 = (accepted s order0)\<lparr>Remaining := Remaining i1\<rparr> \<and>
      opposing s' (Side order0 \<noteq> Buy) = opposing s1 (Side order0 \<noteq> Buy) \<and>
      (\<forall>a<length (mem s1). order (mem s' ! a) = order (mem s1 ! a) \<and>
                             isBid (mem s' ! a) = isBid (mem s1 ! a)) \<and>
      cfg s' = cfg s1 \<and> seq s' = seq s1 \<and> trades s' = trades s1 \<and> updates s' = updates s1 \<and>
      ticks s' = ticks s1 \<and> now s' = now s1 \<and>
      (if 0 < Remaining i1 \<and> Type i1 = Limit then
         set (resting s' (Side order0 \<noteq> Buy))
           \<subseteq> insert (length (mem s1)) (set (resting s1 (Side order0 \<noteq> Buy))) \<and>
         length (mem s') = Suc (length (mem s1)) \<and>
         order (mem s' ! length (mem s1)) = i1 \<and>
         orders s' = (\<lambda>oid. if oid \<in> (\<lambda>e. ID (order (mem s' ! e))) `
                                (insert (length (mem s1)) (set (resting s1 (Side order0 \<noteq> Buy)))
                                  - set (resting s' (Side order0 \<noteq> Buy)))
                             then None else ((orders s1)(ID i1 \<mapsto> length (mem s1))) oid)
       else s' = s1)"
proof -
  let ?b = "Side order0 \<noteq> Buy"
  let ?i0 = "accepted s order0"
  let ?P = "\<lambda>s i. P s i \<and> i = ?i0\<lparr>Remaining := Remaining i\<rparr>"
  have "\<exists>s1 incoming1 s'.
      match_loop (opened s) ?i0 ?b = Some (s1, incoming1) \<and>
      wf s1 \<and> ?P s1 incoming1 \<and>
      match_step s1 incoming1 ?b = Exit \<and>
      (Side incoming1 = Buy) = (Side order0 = Buy) \<and>
      processAdd s order0 = Some (None, s') \<and> wf s' \<and>
      (if 0 < Remaining incoming1 \<and> Type incoming1 = Limit then
         \<exists>m2 q2 m3 q3 orders3.
           heap_Push (mem s1 @ [\<lparr>order = incoming1, index = 0, isBid = (Side incoming1 = Buy)\<rparr>])
               (resting s1 ?b) (length (mem s1)) = (m2, q2) \<and>
           trimDepth m2 q2 (MaxDepth (cfg s1)) (Side incoming1 = Buy)
               ((orders s1)(ID incoming1 \<mapsto> length (mem s1))) = Some (m3, q3, orders3) \<and>
           s' = set_resting (s1\<lparr>mem := m3, orders := orders3\<rparr>) ?b q3
       else s' = s1)"
  proof (rule processAdd_result [where P = ?P, OF wf v])
    from p show "P (opened s) ?i0 \<and> ?i0 = ?i0\<lparr>Remaining := Remaining ?i0\<rparr>" by simp
    fix s0 i s' i'
    assume a: "wf s0" "P s0 i \<and> i = ?i0\<lparr>Remaining := Remaining i\<rparr>"
      "match_step s0 i ?b = Next s' i'"
    from match_step_Next [OF a(3)] obtain n where i': "i' = i\<lparr>Remaining := n\<rparr>" by blast
    from a(2) have "i = ?i0\<lparr>Remaining := Remaining i\<rparr>" by blast
    then have "i' = ?i0\<lparr>Remaining := Remaining i, Remaining := n\<rparr>" unfolding i' by simp
    then have "i' = ?i0\<lparr>Remaining := Remaining i'\<rparr>" unfolding i' by simp
    with step [OF a(1) _ a(3)] a(2) show "P s' i' \<and> i' = ?i0\<lparr>Remaining := Remaining i'\<rparr>"
      by blast
  qed
  then obtain s1 i1 s' where
    R: "wf s1" "P s1 i1" "i1 = ?i0\<lparr>Remaining := Remaining i1\<rparr>"
       "match_step s1 i1 ?b = Exit"
       "(Side i1 = Buy) = (Side order0 = Buy)"
       "processAdd s order0 = Some (None, s')" "wf s'"
       "if 0 < Remaining i1 \<and> Type i1 = Limit then
         \<exists>m2 q2 m3 q3 orders3.
           heap_Push (mem s1 @ [\<lparr>order = i1, index = 0, isBid = (Side i1 = Buy)\<rparr>])
               (resting s1 ?b) (length (mem s1)) = (m2, q2) \<and>
           trimDepth m2 q2 (MaxDepth (cfg s1)) (Side i1 = Buy)
               ((orders s1)(ID i1 \<mapsto> length (mem s1))) = Some (m3, q3, orders3) \<and>
           s' = set_resting (s1\<lparr>mem := m3, orders := orders3\<rparr>) ?b q3
       else s' = s1"
    by blast
  have post: "opposing s' ?b = opposing s1 ?b \<and>
      (\<forall>a<length (mem s1). order (mem s' ! a) = order (mem s1 ! a) \<and>
                             isBid (mem s' ! a) = isBid (mem s1 ! a)) \<and>
      cfg s' = cfg s1 \<and> seq s' = seq s1 \<and> trades s' = trades s1 \<and> updates s' = updates s1 \<and>
      ticks s' = ticks s1 \<and> now s' = now s1 \<and>
      (if 0 < Remaining i1 \<and> Type i1 = Limit then
         set (resting s' ?b) \<subseteq> insert (length (mem s1)) (set (resting s1 ?b)) \<and>
         length (mem s') = Suc (length (mem s1)) \<and>
         order (mem s' ! length (mem s1)) = i1 \<and>
         orders s' = (\<lambda>oid. if oid \<in> (\<lambda>e. ID (order (mem s' ! e))) `
                                (insert (length (mem s1)) (set (resting s1 ?b)) - set (resting s' ?b))
                             then None else ((orders s1)(ID i1 \<mapsto> length (mem s1))) oid)
       else s' = s1)"
  proof (cases "0 < Remaining i1 \<and> Type i1 = Limit")
    case False
    with R(8) show ?thesis by simp
  next
    case True
    with R(8) obtain m2 q2 m3 q3 orders3 where
      psh: "heap_Push (mem s1 @ [\<lparr>order = i1, index = 0, isBid = (Side i1 = Buy)\<rparr>])
               (resting s1 ?b) (length (mem s1)) = (m2, q2)"
      and td: "trimDepth m2 q2 (MaxDepth (cfg s1)) (Side i1 = Buy)
               ((orders s1)(ID i1 \<mapsto> length (mem s1))) = Some (m3, q3, orders3)"
      and s': "s' = set_resting (s1\<lparr>mem := m3, orders := orders3\<rparr>) ?b q3" by auto
    from R(5) have sd: "(Side i1 = Buy) = (\<not> ?b)" by simp
    from post_effect [OF R(1) sd psh] td
    have E: "length m3 = Suc (length (mem s1))"
      "\<forall>a<length (mem s1). order (m3 ! a) = order (mem s1 ! a) \<and> isBid (m3 ! a) = isBid (mem s1 ! a)"
      "order (m3 ! length (mem s1)) = i1"
      "set q2 = insert (length (mem s1)) (set (resting s1 ?b))"
      "mset q3 \<subseteq># mset q2"
      "orders3 = (\<lambda>oid. if oid \<in> (\<lambda>e. ID (order (m2 ! e))) ` (set q2 - set q3) then None
                       else ((orders s1)(ID i1 \<mapsto> length (mem s1))) oid)"
      "\<forall>a. order (m2 ! a) = order (m3 ! a)"
      by auto
    from E(5) have sub: "set q3 \<subseteq> set q2" by (rule set_mset_mono [of "mset q3" "mset q2", simplified])
    have o3: "orders3 = (\<lambda>oid. if oid \<in> (\<lambda>e. ID (order (m3 ! e))) `
                                (insert (length (mem s1)) (set (resting s1 ?b)) - set q3)
                             then None else ((orders s1)(ID i1 \<mapsto> length (mem s1))) oid)"
      unfolding E(6) using E(7) by (simp add: E(4))
    from True sub E(1,2,3) o3 show ?thesis unfolding s' by (simp add: E(4))
  qed
  from R(6,1,7,2,4,3) post show ?thesis by blast
qed


subsection \<open>The sides do not cross\<close>

definition nocross :: "OrderBook \<Rightarrow> bool" where
  "nocross s \<longleftrightarrow>
     (\<forall>a\<in>set (bids s). \<forall>b\<in>set (asks s).
        Price (order (mem s ! a)) \<le> Price (order (mem s ! b)))"

lemma nocross_sides:
  "nocross s \<longleftrightarrow>
     (\<forall>a\<in>set (opposing s b). \<forall>r\<in>set (resting s b).
        if b then Price (order (mem s ! a)) \<le> Price (order (mem s ! r))
        else Price (order (mem s ! r)) \<le> Price (order (mem s ! a)))"
  by (cases b) (auto simp: nocross_def opposing_def resting_def)

lemma nocross_mono:
  assumes n: "nocross s"
    and o: "set (opposing s' b) \<subseteq> set (opposing s b)"
    and r: "set (resting s' b) \<subseteq> set (resting s b)"
    and p: "\<forall>a\<in>set (opposing s b) \<union> set (resting s b).
              Price (order (mem s' ! a)) = Price (order (mem s ! a))"
  shows "nocross s'"
  unfolding nocross_sides [of s' b]
proof (intro ballI)
  fix a r
  assume a: "a \<in> set (opposing s' b)" and r': "r \<in> set (resting s' b)"
  from a o have a': "a \<in> set (opposing s b)" by blast
  from r' r have r'': "r \<in> set (resting s b)" by blast
  from n a' r'' have "if b then Price (order (mem s ! a)) \<le> Price (order (mem s ! r))
        else Price (order (mem s ! r)) \<le> Price (order (mem s ! a))"
    unfolding nocross_sides [of s b] by blast
  moreover from p a' r'' have "Price (order (mem s' ! a)) = Price (order (mem s ! a))"
    "Price (order (mem s' ! r)) = Price (order (mem s ! r))" by blast+
  ultimately show "if b then Price (order (mem s' ! a)) \<le> Price (order (mem s' ! r))
        else Price (order (mem s' ! r)) \<le> Price (order (mem s' ! a))" by simp
qed

lemma match_step_prices:
  assumes w: "wf s" and st: "match_step s i b = Next s' i'"
  shows "set (opposing s' b) \<subseteq> set (opposing s b)" "resting s' b = resting s b"
    "Price (order (mem s' ! a)) = Price (order (mem s ! a))"
    "ID (order (mem s' ! a)) = ID (order (mem s ! a))"
    "Timestamp (order (mem s' ! a)) = Timestamp (order (mem s ! a))"
    "Sequence (order (mem s' ! a)) = Sequence (order (mem s ! a))"
proof -
  from match_step_Next [OF st] obtain best where pk: "peek (opposing s b) = Some best"
    and r: "resting s' b = resting s b" by blast
  note E = match_step_effect [OF w st pk]
  show "set (opposing s' b) \<subseteq> set (opposing s b)"
  proof (cases "Remaining (order (mem s ! best)) = tradedQty s i best")
    case True
    with E(8) have "mset (opposing s b) = add_mset best (mset (opposing s' b))" by simp
    then have "set_mset (mset (opposing s b)) = set_mset (add_mset best (mset (opposing s' b)))"
      by simp
    then show ?thesis by auto
  next
    case False
    with E(8) have "mset (opposing s' b) = mset (opposing s b)" by simp
    then have "set (opposing s' b) = set (opposing s b)" by (rule mset_eq_setD)
    then show ?thesis by simp
  qed
  from r show "resting s' b = resting s b" .
  show "Price (order (mem s' ! a)) = Price (order (mem s ! a))"
    "ID (order (mem s' ! a)) = ID (order (mem s ! a))"
    "Timestamp (order (mem s' ! a)) = Timestamp (order (mem s ! a))"
    "Sequence (order (mem s' ! a)) = Sequence (order (mem s ! a))"
    using E(5) [of a] E(6) by (cases "a = best"; simp)+
qed

lemma match_step_nocross:
  assumes w: "wf s" and n: "nocross s" and st: "match_step s i b = Next s' i'"
  shows "nocross s'"
  by (rule nocross_mono [OF n match_step_prices(1) [OF w st]])
     (simp_all add: match_step_prices(2,3) [OF w st])


lemma exit_no_cross:
  assumes w: "wf s" and h: "heaps_ok s" and ex: "match_step s i b = Exit"
    and r: "0 < Remaining i" and sd: "(Side i = Buy) = (\<not> b)" and a: "a \<in> set (opposing s b)"
  shows "if b then Price (order (mem s ! a)) < Price i else Price i < Price (order (mem s ! a))"
proof -
  from a have ne: "opposing s b \<noteq> []" by auto
  with ex r have nc: "\<not> crosses i (order (mem s ! hd (opposing s b)))"
    by (simp add: match_step_Exit)
  from top_is_best(1) [OF w h a]
  have "if b then Price (order (mem s ! a)) \<le> Price (order (mem s ! hd (opposing s b)))
        else Price (order (mem s ! hd (opposing s b))) \<le> Price (order (mem s ! a))"
    unfolding not_before_iff by blast
  with nc sd show ?thesis by (cases b; cases "Side i") (auto simp: crosses_def)
qed

lemma processAdd_nocross:
  assumes snd: "sound s" and n: "nocross s" and res: "processAdd s order0 = Some (err, s')"
  shows "nocross s'"
proof (cases "validate (cfg s) order0")
  case (Some e)
  from processAdd_rejected [OF Some] res n show ?thesis by simp
next
  case None
  let ?b = "Side order0 \<noteq> Buy"
  from snd have wf: "wf s" and hp: "heaps_ok s" by (simp_all add: sound_def)
  have "\<exists>s1 i1 s'.
      processAdd s order0 = Some (None, s') \<and> wf s1 \<and> wf s' \<and> (heaps_ok s1 \<and> nocross s1) \<and>
      match_step s1 i1 ?b = Exit \<and>
      i1 = (accepted s order0)\<lparr>Remaining := Remaining i1\<rparr> \<and>
      opposing s' ?b = opposing s1 ?b \<and>
      (\<forall>a<length (mem s1). order (mem s' ! a) = order (mem s1 ! a) \<and>
                             isBid (mem s' ! a) = isBid (mem s1 ! a)) \<and>
      cfg s' = cfg s1 \<and> seq s' = seq s1 \<and> trades s' = trades s1 \<and> updates s' = updates s1 \<and>
      ticks s' = ticks s1 \<and> now s' = now s1 \<and>
      (if 0 < Remaining i1 \<and> Type i1 = Limit then
         set (resting s' ?b) \<subseteq> insert (length (mem s1)) (set (resting s1 ?b)) \<and>
         length (mem s') = Suc (length (mem s1)) \<and>
         order (mem s' ! length (mem s1)) = i1 \<and>
         orders s' = (\<lambda>oid. if oid \<in> (\<lambda>e. ID (order (mem s' ! e))) `
                                (insert (length (mem s1)) (set (resting s1 ?b)) - set (resting s' ?b))
                             then None else ((orders s1)(ID i1 \<mapsto> length (mem s1))) oid)
       else s' = s1)"
  proof (rule processAdd_post [where P = "\<lambda>s i. heaps_ok s \<and> nocross s", OF wf None])
    from hp n show "heaps_ok (opened s) \<and> nocross (opened s)" by (simp add: nocross_def)
    fix s0 i s' i'
    assume a: "wf s0" "heaps_ok s0 \<and> nocross s0" "match_step s0 i ?b = Next s' i'"
    from match_step_Next [OF a(3)] obtain best where pk: "peek (opposing s0 ?b) = Some best"
      by blast
    from match_step_effect(2) [OF a(1,3) pk] match_step_nocross [OF a(1) _ a(3)] a(2)
    show "heaps_ok s' \<and> nocross s'" by blast
  qed
  then obtain s1 i1 s2 where
    R: "processAdd s order0 = Some (None, s2)" "wf s1" "heaps_ok s1" "nocross s1"
       "match_step s1 i1 ?b = Exit" "i1 = (accepted s order0)\<lparr>Remaining := Remaining i1\<rparr>"
       "opposing s2 ?b = opposing s1 ?b"
       "\<forall>a<length (mem s1). order (mem s2 ! a) = order (mem s1 ! a)"
       "if 0 < Remaining i1 \<and> Type i1 = Limit then
         set (resting s2 ?b) \<subseteq> insert (length (mem s1)) (set (resting s1 ?b)) \<and>
         order (mem s2 ! length (mem s1)) = i1
       else s2 = s1"
    by (elim exE conjE) (rule that, (assumption | simp split: if_splits)+)
  from R(1) res have s2: "s2 = s'" by simp
  show ?thesis
  proof (cases "0 < Remaining i1 \<and> Type i1 = Limit")
    case False
    with R(9,4) s2 show ?thesis by simp
  next
    case True
    with R(9) have sub: "set (resting s2 ?b) \<subseteq> insert (length (mem s1)) (set (resting s1 ?b))"
      and new: "order (mem s2 ! length (mem s1)) = i1" by simp_all
    have "Side i1 = Side order0" by (subst R(6)) simp
    then have sd: "(Side i1 = Buy) = (\<not> ?b)" by simp
    have old: "a < length (mem s1)" if "a \<in> set (opposing s1 ?b) \<union> set (resting s1 ?b)" for a
      using R(2) that unfolding wf_sides [of s1 ?b] qwf_def by blast
    have "nocross s2"
      unfolding nocross_sides [of s2 ?b]
    proof (intro ballI)
      fix a r
      assume a: "a \<in> set (opposing s2 ?b)" and r: "r \<in> set (resting s2 ?b)"
      from a R(7) have a1: "a \<in> set (opposing s1 ?b)" by simp
      from old a1 R(8) have pa: "order (mem s2 ! a) = order (mem s1 ! a)" by simp
      show "if ?b then Price (order (mem s2 ! a)) \<le> Price (order (mem s2 ! r))
            else Price (order (mem s2 ! r)) \<le> Price (order (mem s2 ! a))"
      proof (cases "r = length (mem s1)")
        case True
        from exit_no_cross [OF R(2,3,5) _ sd a1] \<open>0 < Remaining i1 \<and> Type i1 = Limit\<close>
        have "if ?b then Price (order (mem s1 ! a)) < Price i1
              else Price i1 < Price (order (mem s1 ! a))" by simp
        then show ?thesis unfolding True new pa by (simp split: if_splits)
      next
        case False
        with r sub have r1: "r \<in> set (resting s1 ?b)" by blast
        from old r1 R(8) have pr: "order (mem s2 ! r) = order (mem s1 ! r)" by simp
        from R(4) a1 r1 show ?thesis unfolding pa pr nocross_sides [of s1 ?b] by blast
      qed
    qed
    with s2 show ?thesis by simp
  qed
qed


lemma processCancel_nocross:
  assumes w: "wf s" and n: "nocross s" and res: "processCancel s oid = Some (err, s')"
  shows "nocross s'"
proof (cases "orders s oid")
  case None
  from processCancel_result(3) [OF w res None] n show ?thesis by simp
next
  case (Some e)
  let ?b = "isBid (mem s ! e)"
  from processCancel_result(4) [OF w res Some]
  have m: "mset (opposing s ?b) = add_mset e (mset (opposing s' ?b))"
    and r: "resting s' ?b = resting s ?b"
    and o: "\<forall>a. order (mem s' ! a) = order (mem s ! a)" by blast+
  from m have "set_mset (mset (opposing s ?b)) = set_mset (add_mset e (mset (opposing s' ?b)))"
    by simp
  then have sub: "set (opposing s' ?b) \<subseteq> set (opposing s ?b)" by auto
  show ?thesis by (rule nocross_mono [OF n sub]) (simp_all add: r o)
qed

text \<open>The prices on each side, in queue order.\<close>

definition bidPrices :: "OrderBook \<Rightarrow> int list" where
  "bidPrices s = map (\<lambda>a. Price (order (mem s ! a))) (bids s)"

definition askPrices :: "OrderBook \<Rightarrow> int list" where
  "askPrices s = map (\<lambda>a. Price (order (mem s ! a))) (asks s)"

lemma top_price:
  assumes "sound s"
  shows "peek (bids s) = Some t \<Longrightarrow> a \<in> set (bids s) \<Longrightarrow>
           Price (order (mem s ! a)) \<le> Price (order (mem s ! t))"
    and "peek (asks s) = Some t \<Longrightarrow> a \<in> set (asks s) \<Longrightarrow>
           Price (order (mem s ! t)) \<le> Price (order (mem s ! a))"
proof -
  from assms have w: "wf s" and h: "heaps_ok s" by (simp_all add: sound_def)
  {
    assume pk: "peek (bids s) = Some t" and a: "a \<in> set (bids s)"
    from peek_hd [OF pk] have t: "t = hd (opposing s True)" by (simp add: opposing_def)
    from a have "a \<in> set (opposing s True)" by (simp add: opposing_def)
    from top_is_best(1) [OF w h this]
    show "Price (order (mem s ! a)) \<le> Price (order (mem s ! t))"
      unfolding not_before_iff t by simp
  }
  {
    assume pk: "peek (asks s) = Some t" and a: "a \<in> set (asks s)"
    from peek_hd [OF pk] have t: "t = hd (opposing s False)" by (simp add: opposing_def)
    from a have "a \<in> set (opposing s False)" by (simp add: opposing_def)
    from top_is_best(1) [OF w h this]
    show "Price (order (mem s ! t)) \<le> Price (order (mem s ! a))"
      unfolding not_before_iff t by simp
  }
qed

lemma nocross_NewOrderBook: "nocross (NewOrderBook c clock)"
  by (simp add: nocross_def NewOrderBook_def)

lemma trimDepth_within:
  "\<not> (0 < d \<and> d < int (length q)) \<Longrightarrow> trimDepth m q d isB ords = Some (m, q, ords)"
  by (auto simp: trimDepth.simps [of m q d isB ords])

text \<open>One eviction: the entry at the worst index leaves the queue and the index.\<close>

lemma trimDepth_step:
  assumes over: "0 < d \<and> d < int (length q)"
  shows "\<exists>m1 q1 e. e \<in> set q \<and> (\<forall>a\<in>set q. worse isB (order (m ! e)) (order (m ! a))) \<and>
     mset q = add_mset e (mset q1) \<and> (\<forall>a. order (m1 ! a) = order (m ! a)) \<and>
     trimDepth m q d isB ords = trimDepth m1 q1 d isB (ords(ID (order (m ! e)) := None))"
proof -
  from over have ne: "q \<noteq> []" by auto
  define idx where "idx = findWorstIndex m q isB"
  note W = findWorstIndex_spec [OF ne, of m isB, folded idx_def]
  from W have rng: "0 \<le> idx" "idx < int (length q)" by simp_all
  from heap_Remove_Some [OF rng, of m] obtain m1 q1 e
    where hr: "heap_Remove m q idx = Some (m1, q1, e)" by (metis not_Some_eq prod_cases3)
  from rng have nneg: "\<not> idx < 0" by simp
  from heap_Remove_spec [OF hr, of isB] have e: "e = q ! nat idx" and rm: "removed m q e m1 q1"
    by blast+
  from rm have fr: "\<forall>a. order (m1 ! a) = order (m ! a)"
    and ms: "mset q = add_mset e (mset q1)" unfolding removed_def by blast+
  from e rng have mem: "e \<in> set q" by simp
  have w: "\<forall>a\<in>set q. worse isB (order (m ! e)) (order (m ! a))"
  proof
    fix a
    assume "a \<in> set q"
    then obtain i where i: "i < length q" "q ! i = a" by (auto simp: in_set_conv_nth)
    from W i(1) have "worse isB (keys m q ! nat idx) (keys m q ! i)" by blast
    with i rng e show "worse isB (order (m ! e)) (order (m ! a))" by (simp add: keys_def)
  qed
  from over hr nneg fr
  have "trimDepth m q d isB ords = trimDepth m1 q1 d isB (ords(ID (order (m ! e)) := None))"
    by (simp add: trimDepth.simps [of m q d isB ords] idx_def [symmetric])
  with mem w ms fr show ?thesis by blast
qed

lemma trimDepth_length:
  assumes "trimDepth m q d isB ords = Some (m', q', ords')" "0 < d" "d \<le> int (length q)"
  shows "int (length q') = d"
  using assms
proof (induction m q d isB ords rule: trimDepth.induct)
  case (1 m q d isB ords)
  show ?case
  proof (cases "0 < d \<and> d < int (length q)")
    case False
    with "1.prems" trimDepth_within [OF False, of m isB ords] show ?thesis by simp
  next
    case True
    then have ne: "q \<noteq> []" by auto
    define idx where "idx = findWorstIndex m q isB"
    from findWorstIndex_spec [OF ne, of m isB] have rng: "0 \<le> idx" "idx < int (length q)"
      by (simp_all add: idx_def)
    from heap_Remove_Some [OF rng, of m] obtain m1 q1 e
      where hr: "heap_Remove m q idx = Some (m1, q1, e)" by (metis not_Some_eq prod_cases3)
    from rng have nneg: "\<not> idx < 0" by simp
    from True hr nneg "1.prems"(1)
    have td: "trimDepth m1 q1 d isB (ords(ID (order (m1 ! e)) := None)) = Some (m', q', ords')"
      by (simp add: trimDepth.simps [of m q d isB ords] idx_def [symmetric])
    from length_heap_Remove [OF hr] True have "d \<le> int (length q1)" by simp
    from "1.IH" [OF True idx_def nneg hr refl refl td "1.prems"(2) this] show ?thesis .
  qed
qed

text \<open>
  Depth trimming, in full: it always returns; within the depth it changes nothing; over
  a positive depth it evicts the entry at the worst index and goes on, until exactly the
  depth is left. No order changes, every evicted entry is worse than every entry kept,
  and the index loses the ids of the evicted entries and nothing else.
\<close>

lemma trimDepth_full:
  "\<exists>m' q' ords'. trimDepth m q d isB ords = Some (m', q', ords') \<and>
      (\<not> (0 < d \<and> d < int (length q)) \<longrightarrow> m' = m \<and> q' = q \<and> ords' = ords) \<and>
      (0 < d \<and> d < int (length q) \<longrightarrow>
         int (length q') = d \<and>
         (\<exists>m1 q1 e. e \<in> set q \<and> (\<forall>a\<in>set q. worse isB (order (m ! e)) (order (m ! a))) \<and>
            mset q = add_mset e (mset q1) \<and> (\<forall>a. order (m1 ! a) = order (m ! a)) \<and>
            trimDepth m q d isB ords = trimDepth m1 q1 d isB (ords(ID (order (m ! e)) := None)))) \<and>
      mset q' \<subseteq># mset q \<and> (\<forall>a. order (m' ! a) = order (m ! a)) \<and>
      (\<forall>e\<in>set q - set q'. \<forall>a\<in>set q'. worse isB (order (m ! e)) (order (m ! a))) \<and>
      (distinct q \<longrightarrow>
         ords' = (\<lambda>oid. if oid \<in> (\<lambda>e. ID (order (m ! e))) ` (set q - set q') then None
                        else ords oid))"
proof -
  from trimDepth_spec [of m q d isB ords isB] obtain m' q' ords' where
    td: "trimDepth m q d isB ords = Some (m', q', ords')"
    and tr: "trimmed isB m q ords m' q' ords'"
    and un: "\<not> (0 < d \<and> d < int (length q)) \<longrightarrow> m' = m \<and> q' = q \<and> ords' = ords" by blast
  have ov: "0 < d \<and> d < int (length q) \<longrightarrow>
         int (length q') = d \<and>
         (\<exists>m1 q1 e. e \<in> set q \<and> (\<forall>a\<in>set q. worse isB (order (m ! e)) (order (m ! a))) \<and>
            mset q = add_mset e (mset q1) \<and> (\<forall>a. order (m1 ! a) = order (m ! a)) \<and>
            trimDepth m q d isB ords = trimDepth m1 q1 d isB (ords(ID (order (m ! e)) := None)))"
  proof
    assume o: "0 < d \<and> d < int (length q)"
    then have "int (length q') = d" using trimDepth_length [OF td] by simp
    with trimDepth_step [OF o, of isB m ords] show "int (length q') = d \<and>
         (\<exists>m1 q1 e. e \<in> set q \<and> (\<forall>a\<in>set q. worse isB (order (m ! e)) (order (m ! a))) \<and>
            mset q = add_mset e (mset q1) \<and> (\<forall>a. order (m1 ! a) = order (m ! a)) \<and>
            trimDepth m q d isB ords = trimDepth m1 q1 d isB (ords(ID (order (m ! e)) := None)))"
      by blast
  qed
  from tr have ms: "mset q' \<subseteq># mset q" and fr: "\<forall>a. order (m' ! a) = order (m ! a)"
    and ix: "distinct q \<longrightarrow>
         ords' = (\<lambda>oid. if oid \<in> (\<lambda>e. ID (order (m ! e))) ` (set q - set q') then None
                        else ords oid)"
    unfolding trimmed_def by blast+
  have ev: "\<forall>e\<in>set q - set q'. \<forall>a\<in>set q'. worse isB (order (m ! e)) (order (m ! a))"
    using trimDepth_evicts [OF td] by blast
  show ?thesis
    apply (rule exI [of _ m'])
    apply (rule exI [of _ q'])
    apply (rule exI [of _ ords'])
    apply (intro conjI)
          apply (rule td)
         apply (rule un)
        apply (rule ov)
       apply (rule ms)
      apply (rule fr)
     apply (rule ev)
    apply (rule ix)
    done
qed


lemma processAdd_trims:
  assumes wf: "wf s" and v: "validate (cfg s) order0 = None" and c: "cfg s = c"
  shows "(\<exists>s1 incoming1 s'.
           match_loop (opened s) (accepted s order0) (Side order0 \<noteq> Buy) = Some (s1, incoming1) \<and>
           processAdd s order0 = Some (None, s') \<and> trades s' = trades s1 \<and> cfg s1 = c \<and>
           (if 0 < Remaining incoming1 \<and> Type incoming1 = Limit then
              \<exists>m2 q2 m3 q3 orders3.
                heap_Push
                  (mem s1 @ [\<lparr>order = incoming1, index = 0, isBid = (Side incoming1 = Buy)\<rparr>])
                  (resting s1 (Side order0 \<noteq> Buy)) (length (mem s1)) = (m2, q2) \<and>
                trimDepth m2 q2 (MaxDepth c) (Side incoming1 = Buy)
                  ((orders s1)(ID incoming1 \<mapsto> length (mem s1))) = Some (m3, q3, orders3) \<and>
                s' = set_resting (s1\<lparr>mem := m3, orders := orders3\<rparr>) (Side order0 \<noteq> Buy) q3
            else s' = s1))"
proof -
  let ?b = "Side order0 \<noteq> Buy"
  have "\<exists>s1 incoming1 s'.
      match_loop (opened s) (accepted s order0) ?b = Some (s1, incoming1) \<and>
      wf s1 \<and> cfg s1 = c \<and> match_step s1 incoming1 ?b = Exit \<and>
      (Side incoming1 = Buy) = (Side order0 = Buy) \<and>
      processAdd s order0 = Some (None, s') \<and> wf s' \<and>
      (if 0 < Remaining incoming1 \<and> Type incoming1 = Limit then
         \<exists>m2 q2 m3 q3 orders3.
           heap_Push (mem s1 @ [\<lparr>order = incoming1, index = 0, isBid = (Side incoming1 = Buy)\<rparr>])
               (resting s1 ?b) (length (mem s1)) = (m2, q2) \<and>
           trimDepth m2 q2 (MaxDepth (cfg s1)) (Side incoming1 = Buy)
               ((orders s1)(ID incoming1 \<mapsto> length (mem s1))) = Some (m3, q3, orders3) \<and>
           s' = set_resting (s1\<lparr>mem := m3, orders := orders3\<rparr>) ?b q3
       else s' = s1)"
  proof (rule processAdd_result [where P = "\<lambda>s1 i. cfg s1 = c", OF wf v])
    from c show "cfg (opened s) = c" by simp
    fix s0 i s' i'
    assume a: "cfg s0 = c" "match_step s0 i ?b = Next s' i'"
    from match_step_Next [OF a(2)] have "cfg s' = cfg s0" by blast
    with a(1) show "cfg s' = c" by simp
  qed
  then obtain s1 i1 s' where
    R: "match_loop (opened s) (accepted s order0) ?b = Some (s1, i1)" "cfg s1 = c"
       "processAdd s order0 = Some (None, s')"
       "if 0 < Remaining i1 \<and> Type i1 = Limit then
         \<exists>m2 q2 m3 q3 orders3.
           heap_Push (mem s1 @ [\<lparr>order = i1, index = 0, isBid = (Side i1 = Buy)\<rparr>])
               (resting s1 ?b) (length (mem s1)) = (m2, q2) \<and>
           trimDepth m2 q2 (MaxDepth (cfg s1)) (Side i1 = Buy)
               ((orders s1)(ID i1 \<mapsto> length (mem s1))) = Some (m3, q3, orders3) \<and>
           s' = set_resting (s1\<lparr>mem := m3, orders := orders3\<rparr>) ?b q3
       else s' = s1"
    by blast
  have t: "trades s' = trades s1"
  proof (cases "0 < Remaining i1 \<and> Type i1 = Limit")
    case True
    with R(4) obtain m3 q3 orders3 where
      "s' = set_resting (s1\<lparr>mem := m3, orders := orders3\<rparr>) ?b q3" by auto
    then show ?thesis by simp
  next
    case False
    with R(4) show ?thesis by simp
  qed
  from R(4) have st: "if 0 < Remaining i1 \<and> Type i1 = Limit then
         \<exists>m2 q2 m3 q3 orders3.
           heap_Push (mem s1 @ [\<lparr>order = i1, index = 0, isBid = (Side i1 = Buy)\<rparr>])
               (resting s1 ?b) (length (mem s1)) = (m2, q2) \<and>
           trimDepth m2 q2 (MaxDepth c) (Side i1 = Buy)
               ((orders s1)(ID i1 \<mapsto> length (mem s1))) = Some (m3, q3, orders3) \<and>
           s' = set_resting (s1\<lparr>mem := m3, orders := orders3\<rparr>) ?b q3
       else s' = s1" unfolding R(2) .
  show ?thesis
    apply (rule exI [of _ s1])
    apply (rule exI [of _ i1])
    apply (rule exI [of _ s'])
    apply (intro conjI)
        apply (rule R(1))
       apply (rule R(3))
      apply (rule t)
     apply (rule R(2))
    apply (rule st)
    done
qed

lemma match_step_keeps_rest:
  assumes w: "wf s" and st: "match_step s i b = Next s' i'"
  shows "set (opposing s b) - {hd (opposing s b)} \<subseteq> set (opposing s' b)"
proof -
  from match_step_Next [OF st] obtain best where pk: "peek (opposing s b) = Some best" by blast
  from peek_hd [OF pk] have b: "hd (opposing s b) = best" by simp
  note E = match_step_effect [OF w st pk]
  show ?thesis
  proof (cases "Remaining (order (mem s ! best)) = tradedQty s i best")
    case True
    with E(8) have "mset (opposing s b) = add_mset best (mset (opposing s' b))" by simp
    then have "set_mset (mset (opposing s b)) = set_mset (add_mset best (mset (opposing s' b)))"
      by simp
    then show ?thesis unfolding b by auto
  next
    case False
    with E(8) have "mset (opposing s' b) = mset (opposing s b)" by simp
    then have "set (opposing s' b) = set (opposing s b)" by (rule mset_eq_setD)
    then show ?thesis by auto
  qed
qed

text \<open>
  The trades of one run of the loop come in the order of the queue's comparator: the
  counterparty of each is preceded by no entry of the opposing queue the loop started
  with, the counterparties of the earlier trades apart.
\<close>

lemma match_states_priority:
  assumes w: "wf s"
  shows "heaps_ok s \<longrightarrow>
     (\<forall>k<length (counterparties b (match_states s i b)).
        \<forall>a\<in>set (opposing s b) - set (take k (counterparties b (match_states s i b))).
          \<not> before b (order (mem s ! a))
               (order (mem s ! (counterparties b (match_states s i b) ! k))))"
proof (rule match_states_rule [where
      Q = "\<lambda>s i sts. heaps_ok s \<longrightarrow>
             (\<forall>k<length (counterparties b sts).
                \<forall>a\<in>set (opposing s b) - set (take k (counterparties b sts)).
                  \<not> before b (order (mem s ! a)) (order (mem s ! (counterparties b sts ! k))))",
      OF w])
  fix s :: OrderBook and i :: Order
  show "heaps_ok s \<longrightarrow>
     (\<forall>k<length (counterparties b [(s, i)]).
        \<forall>a\<in>set (opposing s b) - set (take k (counterparties b [(s, i)])).
          \<not> before b (order (mem s ! a)) (order (mem s ! (counterparties b [(s, i)] ! k))))"
    by simp
next
  fix s i s' i'
  assume w: "wf s" and w': "wf s'" and st: "match_step s i b = Next s' i'"
    and ih: "heaps_ok s' \<longrightarrow>
     (\<forall>k<length (counterparties b (match_states s' i' b)).
        \<forall>a\<in>set (opposing s' b) - set (take k (counterparties b (match_states s' i' b))).
          \<not> before b (order (mem s' ! a))
               (order (mem s' ! (counterparties b (match_states s' i' b) ! k))))"
  let ?cs = "counterparties b (match_states s' i' b)"
  let ?h = "hd (opposing s b)"
  have cps: "counterparties b ((s, i) # match_states s' i' b) = ?h # ?cs" by simp
  show "heaps_ok s \<longrightarrow>
     (\<forall>k<length (counterparties b ((s, i) # match_states s' i' b)).
        \<forall>a\<in>set (opposing s b) - set (take k (counterparties b ((s, i) # match_states s' i' b))).
          \<not> before b (order (mem s ! a))
               (order (mem s ! (counterparties b ((s, i) # match_states s' i' b) ! k))))"
    unfolding cps
  proof (intro impI allI ballI)
    fix k a
    assume h: "heaps_ok s" and k: "k < length (?h # ?cs)"
      and a: "a \<in> set (opposing s b) - set (take k (?h # ?cs))"
    from match_step_Next [OF st] obtain best where pk: "peek (opposing s b) = Some best"
      by blast
    from match_step_effect(2) [OF w st pk h] have h': "heaps_ok s'" .
    show "\<not> before b (order (mem s ! a)) (order (mem s ! ((?h # ?cs) ! k)))"
    proof (cases k)
      case 0
      from a have "a \<in> set (opposing s b)" by simp
      from top_is_best(1) [OF w h this] 0 show ?thesis by simp
    next
      case (Suc j)
      with k have j: "j < length ?cs" by simp
      from a Suc have "a \<in> set (opposing s b) - {?h}" "a \<notin> set (take j ?cs)" by auto
      with match_step_keeps_rest [OF w st]
      have "a \<in> set (opposing s' b) - set (take j ?cs)" by blast
      with ih h' j have "\<not> before b (order (mem s' ! a)) (order (mem s' ! (?cs ! j)))" by blast
      moreover have "before b (order (mem s' ! a)) (order (mem s' ! (?cs ! j)))
          = before b (order (mem s ! a)) (order (mem s ! (?cs ! j)))"
        by (rule before_cong) (rule match_step_prices(3,5,6) [OF w st])+
      ultimately show ?thesis using Suc by simp
    qed
  qed
qed

lemma match_states_ids:
  assumes w: "wf s"
  shows "\<forall>(sk, ik)\<in>set (match_states s i b).
           wf sk \<and> (\<forall>a. ID (order (mem sk ! a)) = ID (order (mem s ! a)))"
proof (rule match_states_inv [where
      P = "\<lambda>sk ik. \<forall>a. ID (order (mem sk ! a)) = ID (order (mem s ! a))", OF w])
  show "\<forall>a. ID (order (mem s ! a)) = ID (order (mem s ! a))" by simp
next
  fix t i t' i'
  assume w: "wf t" and p: "\<forall>a. ID (order (mem t ! a)) = ID (order (mem s ! a))"
    and st: "match_step t i b = Next t' i'"
  from match_step_prices(4) [OF w st] p
  show "\<forall>a. ID (order (mem t' ! a)) = ID (order (mem s ! a))" by simp
qed

text \<open>
  Who trades: each trade of an accepted submit names the incoming order on its own side
  and, on the other, the counterparty of its iteration.
\<close>

lemma processAdd_trade_ids:
  assumes wf: "wf s" and v: "validate (cfg s) order0 = None"
  shows "\<exists>s'. processAdd s order0 = Some (None, s') \<and>
     map (\<lambda>t. if Side order0 = Buy then SellOrderID t else BuyOrderID t)
         (drop (length (trades s)) (trades s')) =
       map (\<lambda>a. ID (order (mem s ! a)))
         (counterparties (Side order0 \<noteq> Buy)
            (match_states (opened s) (accepted s order0) (Side order0 \<noteq> Buy))) \<and>
     map (\<lambda>t. if Side order0 = Buy then BuyOrderID t else SellOrderID t)
         (drop (length (trades s)) (trades s')) =
       map (\<lambda>a. ID order0)
         (counterparties (Side order0 \<noteq> Buy)
            (match_states (opened s) (accepted s order0) (Side order0 \<noteq> Buy)))"
proof -
  let ?b = "Side order0 \<noteq> Buy"
  let ?sts = "match_states (opened s) (accepted s order0) ?b"
  have w: "wf (opened s)" using wf by simp
  from processAdd_trades [OF wf v] obtain s' where
    pa: "processAdd s order0 = Some (None, s')"
    and t: "trades s' = trades s @ map (\<lambda>(sk, ik). tradeOf sk ik (hd (opposing sk ?b))) (butlast ?sts)"
    by blast
  have d: "drop (length (trades s)) (trades s') =
      map (\<lambda>(sk, ik). tradeOf sk ik (hd (opposing sk ?b))) (butlast ?sts)"
    unfolding t by simp
  have el: "Side ik = Side order0 \<and> ID ik = ID order0 \<and>
      ID (order (mem sk ! a)) = ID (order (mem s ! a))"
    if m: "(sk, ik) \<in> set (butlast ?sts)" for sk ik a
  proof -
    from matching_state(4) [OF w m]
    have "Side ik = Side ((accepted s order0)\<lparr>Remaining := Remaining ik\<rparr>)"
      "ID ik = ID ((accepted s order0)\<lparr>Remaining := Remaining ik\<rparr>)" by simp_all
    then have "Side ik = Side order0" "ID ik = ID order0" by simp_all
    moreover from m have "(sk, ik) \<in> set ?sts" by (rule in_set_butlastD)
    with match_states_ids [OF w, of "accepted s order0" ?b]
    have "ID (order (mem sk ! a)) = ID (order (mem s ! a))" by auto
    ultimately show ?thesis by simp
  qed
  have r: "map (\<lambda>t. if Side order0 = Buy then SellOrderID t else BuyOrderID t)
         (drop (length (trades s)) (trades s')) =
       map (\<lambda>a. ID (order (mem s ! a))) (counterparties ?b ?sts)"
    unfolding d counterparties_def map_map
    by (rule map_cong [OF refl])
       (insert el, auto simp: tradeOf_def selectOrderID_def)
  have sx: "Side order0 = Buy \<or> Side order0 = Sell" by (cases "Side order0") simp_all
  have o: "map (\<lambda>t. if Side order0 = Buy then BuyOrderID t else SellOrderID t)
         (drop (length (trades s)) (trades s')) =
       map (\<lambda>a. ID order0) (counterparties ?b ?sts)"
    unfolding d counterparties_def map_map
    by (rule map_cong [OF refl])
       (insert el sx, auto simp: tradeOf_def selectOrderID_def)
  from pa r o show ?thesis by blast
qed


text \<open>
  The one request that can cross the sides: an amend that succeeds and prices a bid
  above the top of the asks, or an ask below the top of the bids.
\<close>

fun crossing :: "OrderBook \<Rightarrow> bookRequest \<Rightarrow> bool" where
  "crossing s (requestAmend oid (Some p) amendQty) =
     (case orders s oid of
        None \<Rightarrow> False
      | Some e \<Rightarrow>
          \<not> badQty amendQty \<and> \<not> badPrice (cfg s) (Some p) \<and>
          (if isBid (mem s ! e) then
             (case peek (asks s) of None \<Rightarrow> False | Some t \<Rightarrow> Price (order (mem s ! t)) < p)
           else
             (case peek (bids s) of None \<Rightarrow> False | Some t \<Rightarrow> p < Price (order (mem s ! t)))))"
| "crossing s req = False"

text \<open>No request of the sequence is crossing on the book it is served on.\<close>

fun crossing_free :: "OrderBook \<Rightarrow> bookRequest list \<Rightarrow> bool" where
  "crossing_free s [] = True"
| "crossing_free s (req # reqs) =
     (\<not> crossing s req \<and>
      (case serve s req of None \<Rightarrow> True | Some (err, s') \<Rightarrow> crossing_free s' reqs))"

lemma top_of_other:
  assumes snd: "sound s" and r: "r \<in> set (resting s b)"
  shows "\<exists>t. peek (resting s b) = Some t \<and>
           (if b then Price (order (mem s ! t)) \<le> Price (order (mem s ! r))
            else Price (order (mem s ! r)) \<le> Price (order (mem s ! t)))"
proof -
  from r obtain t where pk: "peek (resting s b) = Some t"
    by (cases "resting s b") (auto simp: peek_def)
  show ?thesis
  proof (cases b)
    case True
    with pk r have "peek (asks s) = Some t" "r \<in> set (asks s)" by (simp_all add: resting_def)
    from top_price(2) [OF snd this] pk True show ?thesis by simp
  next
    case False
    with pk r have "peek (bids s) = Some t" "r \<in> set (bids s)" by (simp_all add: resting_def)
    from top_price(1) [OF snd this] pk False show ?thesis by simp
  qed
qed

lemma processAmend_nocross:
  assumes snd: "sound s" and n: "nocross s"
    and nc: "\<not> crossing s (requestAmend oid newPrice newQty)"
    and res: "processAmend s oid newPrice newQty = Some (err, s')"
  shows "nocross s'"
proof (cases "orders s oid")
  case None
  from snd have w: "wf s" by (simp add: sound_def)
  from processAmend_result(3) [OF w res None] n show ?thesis by simp
next
  case (Some e)
  from snd have w: "wf s" by (simp add: sound_def)
  let ?b = "isBid (mem s ! e)"
  show ?thesis
  proof (cases "badQty newQty")
    case True
    from processAmend_result(4) [OF w res Some True] n show ?thesis by simp
  next
    case False
    note bq = this
    show ?thesis
    proof (cases "badPrice (cfg s) newPrice")
      case True
      from processAmend_result(5) [OF w res Some bq True]
      have s': "s' = s\<lparr>mem := updOrder (mem s) e (resized newQty)\<rparr>" by blast
      from wf_entry(3) [OF w Some] have el: "e < length (mem s)" .
      have "Price (order (updOrder (mem s) e (resized newQty) ! a)) = Price (order (mem s ! a))"
        for a
        using el by (cases "a = e") (simp_all add: updOrder_def amended_keeps)
      with n show ?thesis unfolding s' nocross_def by simp
    next
      case False
      from processAmend_result(6) [OF w res Some bq False]
      have m: "mset (opposing s' ?b) \<subseteq># mset (opposing s ?b)"
        and r: "resting s' ?b = resting s ?b"
        and o: "\<forall>a. a \<noteq> e \<longrightarrow> order (mem s' ! a) = order (mem s ! a)"
        and e: "order (mem s' ! e) =
               amended newPrice newQty (wrap64 (seq s + 1)) (now s (ticks s)) (order (mem s ! e))"
        by blast+
      from m have sub: "set (opposing s' ?b) \<subseteq> set (opposing s ?b)"
        by (rule set_mset_mono [of "mset (opposing s' ?b)" "mset (opposing s ?b)", simplified])
      from w Some have eo: "e \<in> set (opposing s ?b)"
        using wf_entry [OF w Some] by blast
      show ?thesis
        unfolding nocross_sides [of s' ?b]
      proof (intro ballI)
        fix a x
        assume a: "a \<in> set (opposing s' ?b)" and x: "x \<in> set (resting s' ?b)"
        from a sub have a': "a \<in> set (opposing s ?b)" by blast
        from x r have x': "x \<in> set (resting s ?b)" by simp
        from wf_entry(2) [OF w Some] x' have xe: "x \<noteq> e" by blast
        with o have px: "order (mem s' ! x) = order (mem s ! x)" by blast
        from n a' x' have old: "if ?b then Price (order (mem s ! a)) \<le> Price (order (mem s ! x))
            else Price (order (mem s ! x)) \<le> Price (order (mem s ! a))"
          unfolding nocross_sides [of s ?b] by blast
        show "if ?b then Price (order (mem s' ! a)) \<le> Price (order (mem s' ! x))
            else Price (order (mem s' ! x)) \<le> Price (order (mem s' ! a))"
        proof (cases "a = e")
          case ne: False
          with o have "order (mem s' ! a) = order (mem s ! a)" by blast
          with old px show ?thesis by simp
        next
          case ae: True
          show ?thesis
          proof (cases newPrice)
            case None
            then have "Price (order (mem s' ! e)) = Price (order (mem s ! e))"
              unfolding e by (simp add: amended_def repriced_def amended_keeps)
            with old px ae show ?thesis by (auto split: if_splits)
          next
            case (Some p)
            then have pe: "Price (order (mem s' ! e)) = p"
              unfolding e by (simp add: amended_def repriced_def)
            from top_of_other [OF snd x'] obtain t where
              pk: "peek (resting s ?b) = Some t"
              and t: "if ?b then Price (order (mem s ! t)) \<le> Price (order (mem s ! x))
                      else Price (order (mem s ! x)) \<le> Price (order (mem s ! t))" by blast
            from nc Some \<open>orders s oid = Some e\<close> bq False pk
            have "if ?b then \<not> Price (order (mem s ! t)) < p
                  else \<not> p < Price (order (mem s ! t))"
              by (auto simp: resting_def split: if_splits)
            with t show ?thesis unfolding ae pe px by (simp split: if_splits)
          qed
        qed
      qed
    qed
  qed
qed

lemma nocross_publishView [simp]: "nocross (publishView s) = nocross s"
  by (simp add: nocross_def)

lemma serve_nocross:
  assumes snd: "sound s" and n: "nocross s" and k: "\<not> crossing s req"
    and res: "serve s req = Some (err, s')"
  shows "nocross s'"
proof -
  from snd have w: "wf s" by (simp add: sound_def)
  from res show ?thesis
  proof (cases rule: serve_cases)
    case (1 order0 s0)
    from processAdd_nocross [OF snd n 1(2)] 1(3) show ?thesis by simp
  next
    case (2 oid s0)
    from processCancel_nocross [OF w n 2(2)] 2(3) show ?thesis by simp
  next
    case (3 oid np nq s0)
    from k 3(1) have "\<not> crossing s (requestAmend oid np nq)" by simp
    from processAmend_nocross [OF snd n this 3(2)] 3(3) show ?thesis by simp
  next
    case 4
    with n show ?thesis by simp
  qed
qed

lemma run_nocross:
  assumes "sound s" "nocross s" "crossing_free s reqs" "run s reqs = Some s'"
  shows "nocross s'"
  using assms
proof (induction reqs arbitrary: s)
  case Nil
  then show ?case by simp
next
  case (Cons req reqs)
  from serve_sound [OF Cons.prems(1), of req] obtain err s1 where
    s1: "serve s req = Some (err, s1)" "sound s1" by blast
  from Cons.prems(3) s1(1) have k: "\<not> crossing s req" "crossing_free s1 reqs" by simp_all
  from serve_nocross [OF Cons.prems(1,2) k(1) s1(1)] have n1: "nocross s1" .
  from Cons.prems(4) s1(1) have "run s1 reqs = Some s'" by simp
  from Cons.IH [OF s1(2) n1 k(2) this] show ?case .
qed


text \<open>A crossing amend succeeds, trades nothing and leaves the sides crossed.\<close>

lemma crossing_crosses:
  assumes snd: "sound s" and c: "crossing s req" and res: "serve s req = Some (err, s')"
  shows "err = None \<and> trades s' = trades s \<and>
     (\<exists>a\<in>set (bids s'). \<exists>b\<in>set (asks s').
        Price (order (mem s' ! b)) < Price (order (mem s' ! a)))"
proof -
  from snd have w: "wf s" and dp: "depth_ok s" by (simp_all add: sound_def)
  from c obtain oid p nq where req: "req = requestAmend oid (Some p) nq"
    by (cases "(s, req)" rule: crossing.cases) simp_all
  from c req obtain e where oe: "orders s oid = Some e" by (auto split: option.splits)
  let ?b = "isBid (mem s ! e)"
  from c req oe have bq: "\<not> badQty nq" and bp: "\<not> badPrice (cfg s) (Some p)" by simp_all
  from c req oe obtain t where pk: "peek (resting s ?b) = Some t"
    and tp: "if ?b then Price (order (mem s ! t)) < p else p < Price (order (mem s ! t))"
    by (auto simp: resting_def split: option.splits if_splits)
  from res req obtain s0 where pa: "processAmend s oid (Some p) nq = Some (err, s0)"
    and s': "s' = (if err = None then publishView s0 else s0)"
    by (cases rule: serve_cases) simp_all
  note R = processAmend_result(6) [OF w pa oe bq bp]
  from R have err: "err = None" and r: "resting s0 ?b = resting s ?b"
    and tr: "trades s0 = trades s"
    and o: "\<forall>a. a \<noteq> e \<longrightarrow> order (mem s0 ! a) = order (mem s ! a)"
    and e: "order (mem s0 ! e) =
               amended (Some p) nq (wrap64 (seq s + 1)) (now s (ticks s)) (order (mem s ! e))"
    by blast+
  from dp have "\<not> (0 < MaxDepth (cfg s) \<and> MaxDepth (cfg s) < int (length (opposing s ?b)))"
    unfolding depth_ok_sides [of s ?b] by auto
  with R have "mset (opposing s0 ?b) = mset (opposing s ?b)" by blast
  then have "set (opposing s0 ?b) = set (opposing s ?b)" by (rule mset_eq_setD)
  with wf_entry(1) [OF w oe] have e0: "e \<in> set (opposing s0 ?b)" by simp
  from peek_hd [OF pk] have t0: "t \<in> set (resting s0 ?b)" unfolding r by blast
  with r wf_entry(2) [OF w oe] have "t \<noteq> e" by auto
  with o have pt: "Price (order (mem s0 ! t)) = Price (order (mem s ! t))" by simp
  from e have pe: "Price (order (mem s0 ! e)) = p" by (simp add: amended_def repriced_def)
  have "\<exists>a\<in>set (bids s0). \<exists>b\<in>set (asks s0).
        Price (order (mem s0 ! b)) < Price (order (mem s0 ! a))"
  proof (cases ?b)
    case True
    with e0 t0 have "e \<in> set (bids s0)" "t \<in> set (asks s0)"
      by (simp_all add: opposing_def resting_def)
    moreover from tp True pt pe have "Price (order (mem s0 ! t)) < Price (order (mem s0 ! e))"
      by simp
    ultimately show ?thesis by blast
  next
    case False
    with e0 t0 have "e \<in> set (asks s0)" "t \<in> set (bids s0)"
      by (simp_all add: opposing_def resting_def)
    moreover from tp False pt pe have "Price (order (mem s0 ! e)) < Price (order (mem s0 ! t))"
      by simp
    ultimately show ?thesis by blast
  qed
  with err tr show ?thesis unfolding s' by simp
qed


declare crossing_free.simps [simp del]


subsection \<open>Every resting entry is in the index\<close>

definition indexed :: "OrderBook \<Rightarrow> bool" where
  "indexed s \<longleftrightarrow>
     (\<forall>a\<in>set (bids s) \<union> set (asks s). orders s (ID (order (mem s ! a))) = Some a)"

lemma indexed_sides:
  "indexed s \<longleftrightarrow>
     (\<forall>a\<in>set (opposing s b) \<union> set (resting s b). orders s (ID (order (mem s ! a))) = Some a)"
  by (cases b) (auto simp: indexed_def opposing_def resting_def)

lemma indexed_inj:
  assumes "indexed s" "a \<in> set (opposing s b) \<union> set (resting s b)"
    "x \<in> set (opposing s b) \<union> set (resting s b)"
    "ID (order (mem s ! a)) = ID (order (mem s ! x))"
  shows "a = x"
proof -
  from assms(1,2) have "orders s (ID (order (mem s ! a))) = Some a"
    unfolding indexed_sides [of s b] by blast
  then have "orders s (ID (order (mem s ! x))) = Some a" unfolding assms(4) .
  moreover from assms(1,3) have "orders s (ID (order (mem s ! x))) = Some x"
    unfolding indexed_sides [of s b] by blast
  ultimately have "Some a = Some x" by (rule trans [OF sym])
  then show ?thesis by (rule option.inject [THEN iffD1])
qed

lemma sides_disjoint:
  assumes "wf s"
  shows "set (opposing s b) \<inter> set (resting s b) = {}"
proof -
  from assms have "flags (mem s) (opposing s b) b" "flags (mem s) (resting s b) (\<not> b)"
    unfolding wf_sides [of s b] by blast+
  then show ?thesis unfolding flags_def by blast
qed


lemma match_step_indexed:
  assumes w: "wf s" and x: "indexed s" and st: "match_step s i b = Next s' i'"
  shows "indexed s'"
proof -
  from match_step_Next [OF st] obtain best where pk: "peek (opposing s b) = Some best"
    and r: "resting s' b = resting s b" by blast
  note E = match_step_effect [OF w st pk]
  from peek_hd [OF pk] have bo: "best \<in> set (opposing s b)" by blast
  from w have d: "distinct (opposing s b)" unfolding wf_sides [of s b] qwf_def by blast
  have id: "ID (order (mem s' ! a)) = ID (order (mem s ! a))" for a
    by (rule match_step_prices(4) [OF w st])
  show ?thesis
  proof (cases "Remaining (order (mem s ! best)) = tradedQty s i best")
    case True
    with E(8) have m: "mset (opposing s b) = add_mset best (mset (opposing s' b))"
      and o: "orders s' = (orders s)(ID (order (mem s ! best)) := None)" by simp_all
    from m have "set_mset (mset (opposing s b)) = set_mset (add_mset best (mset (opposing s' b)))"
      by simp
    then have se: "set (opposing s b) = insert best (set (opposing s' b))" by simp
    from m have "mset (opposing s b) = mset (best # opposing s' b)" by simp
    from mset_eq_imp_distinct_iff [OF this] d have "distinct (best # opposing s' b)" by blast
    then have nb: "best \<notin> set (opposing s' b)" by simp
    have "orders s' (ID (order (mem s' ! a))) = Some a"
      if a: "a \<in> set (opposing s' b) \<union> set (resting s' b)" for a
    proof -
      from a se r have a': "a \<in> set (opposing s b) \<union> set (resting s b)" by auto
      from a nb r sides_disjoint [OF w, of b] bo have ne: "a \<noteq> best" by auto
      from bo have b': "best \<in> set (opposing s b) \<union> set (resting s b)" by simp
      from indexed_inj [OF x a' b'] ne
      have "ID (order (mem s ! a)) \<noteq> ID (order (mem s ! best))" by blast
      moreover from x a' have "orders s (ID (order (mem s ! a))) = Some a"
        unfolding indexed_sides [of s b] by blast
      ultimately show ?thesis unfolding o id by simp
    qed
    then show "indexed s'" unfolding indexed_sides [of s' b] by blast
  next
    case False
    with E(8) have m: "mset (opposing s' b) = mset (opposing s b)"
      and o: "orders s' = orders s" by simp_all
    from m have se: "set (opposing s' b) = set (opposing s b)" by (rule mset_eq_setD)
    from x show "indexed s'" unfolding indexed_sides [of s' b] indexed_sides [of s b] se r o id
      by blast
  qed
qed


text \<open>
  The one request that can break it: a submit that is accepted and posts a limit
  remainder under an id that the index holds when the remainder is posted.
\<close>

fun reusing :: "OrderBook \<Rightarrow> bookRequest \<Rightarrow> bool" where
  "reusing s (requestAdd order0) =
     (validate (cfg s) order0 = None \<and>
      (case match_loop (opened s) (accepted s order0) (Side order0 \<noteq> Buy) of
         None \<Rightarrow> False
       | Some (s1, incoming1) \<Rightarrow>
           0 < Remaining incoming1 \<and> Type incoming1 = Limit \<and> orders s1 (ID order0) \<noteq> None))"
| "reusing s req = False"

text \<open>No request of the sequence is reusing on the book it is served on.\<close>

fun reuse_free :: "OrderBook \<Rightarrow> bookRequest list \<Rightarrow> bool" where
  "reuse_free s [] = True"
| "reuse_free s (req # reqs) =
     (\<not> reusing s req \<and>
      (case serve s req of None \<Rightarrow> True | Some (err, s') \<Rightarrow> reuse_free s' reqs))"

lemma match_loop_Next:
  "match_step s i b = Next s' i' \<Longrightarrow> match_loop s i b = match_loop s' i' b"
  by (simp add: match_loop.simps [of s i b])

lemma match_loop_Exit:
  "match_step s i b = Exit \<Longrightarrow> match_loop s i b = Some (s, i)"
  by (simp add: match_loop.simps [of s i b])

lemma processAdd_indexed:
  assumes wf: "wf s" and x: "indexed s" and nr: "\<not> reusing s (requestAdd order0)"
    and res: "processAdd s order0 = Some (err, s')"
  shows "indexed s'"
proof (cases "validate (cfg s) order0")
  case (Some e)
  from processAdd_rejected [OF Some] res x show ?thesis by simp
next
  case None
  let ?b = "Side order0 \<noteq> Buy"
  let ?l = "match_loop (opened s) (accepted s order0) ?b"
  have "\<exists>s1 i1 s'.
      processAdd s order0 = Some (None, s') \<and> wf s1 \<and> wf s' \<and>
      (indexed s1 \<and> match_loop s1 i1 ?b = ?l) \<and>
      match_step s1 i1 ?b = Exit \<and>
      i1 = (accepted s order0)\<lparr>Remaining := Remaining i1\<rparr> \<and>
      opposing s' ?b = opposing s1 ?b \<and>
      (\<forall>a<length (mem s1). order (mem s' ! a) = order (mem s1 ! a) \<and>
                             isBid (mem s' ! a) = isBid (mem s1 ! a)) \<and>
      cfg s' = cfg s1 \<and> seq s' = seq s1 \<and> trades s' = trades s1 \<and> updates s' = updates s1 \<and>
      ticks s' = ticks s1 \<and> now s' = now s1 \<and>
      (if 0 < Remaining i1 \<and> Type i1 = Limit then
         set (resting s' ?b) \<subseteq> insert (length (mem s1)) (set (resting s1 ?b)) \<and>
         length (mem s') = Suc (length (mem s1)) \<and>
         order (mem s' ! length (mem s1)) = i1 \<and>
         orders s' = (\<lambda>oid. if oid \<in> (\<lambda>e. ID (order (mem s' ! e))) `
                                (insert (length (mem s1)) (set (resting s1 ?b)) - set (resting s' ?b))
                             then None else ((orders s1)(ID i1 \<mapsto> length (mem s1))) oid)
       else s' = s1)"
  proof (rule processAdd_post [where P = "\<lambda>s1 i. indexed s1 \<and> match_loop s1 i ?b = ?l",
        OF wf None])
    from x show "indexed (opened s) \<and> ?l = ?l" by (simp add: indexed_def)
    fix s0 i s' i'
    assume a: "wf s0" "indexed s0 \<and> match_loop s0 i ?b = ?l" "match_step s0 i ?b = Next s' i'"
    from match_step_indexed [OF a(1) _ a(3)] match_loop_Next [OF a(3)] a(2)
    show "indexed s' \<and> match_loop s' i' ?b = ?l" by simp
  qed
  then obtain s1 i1 s2 where
    R: "processAdd s order0 = Some (None, s2)" "wf s1" "indexed s1"
       "match_loop s1 i1 ?b = ?l"
       "match_step s1 i1 ?b = Exit" "i1 = (accepted s order0)\<lparr>Remaining := Remaining i1\<rparr>"
       "opposing s2 ?b = opposing s1 ?b"
       "\<forall>a<length (mem s1). order (mem s2 ! a) = order (mem s1 ! a)"
       "if 0 < Remaining i1 \<and> Type i1 = Limit then
         set (resting s2 ?b) \<subseteq> insert (length (mem s1)) (set (resting s1 ?b)) \<and>
         order (mem s2 ! length (mem s1)) = i1 \<and>
         orders s2 = (\<lambda>oid. if oid \<in> (\<lambda>e. ID (order (mem s2 ! e))) `
                                (insert (length (mem s1)) (set (resting s1 ?b)) - set (resting s2 ?b))
                             then None else ((orders s1)(ID i1 \<mapsto> length (mem s1))) oid)
       else s2 = s1"
    by (elim exE conjE) (rule that, (assumption | simp split: if_splits)+)
  from R(1) res have s2: "s2 = s'" by simp
  show ?thesis
  proof (cases "0 < Remaining i1 \<and> Type i1 = Limit")
    case False
    with R(9,3) s2 show ?thesis by simp
  next
    case True
    let ?new = "length (mem s1)"
    let ?E = "insert ?new (set (resting s1 ?b)) - set (resting s2 ?b)"
    from True R(9) have sub: "set (resting s2 ?b) \<subseteq> insert ?new (set (resting s1 ?b))"
      and new: "order (mem s2 ! ?new) = i1"
      and os: "orders s2 = (\<lambda>oid. if oid \<in> (\<lambda>e. ID (order (mem s2 ! e))) ` ?E
                             then None else ((orders s1)(ID i1 \<mapsto> ?new)) oid)"
      by simp_all
    have idi: "ID i1 = ID order0" by (subst R(6)) simp
    from R(4,5) have "?l = Some (s1, i1)" by (simp add: match_loop_Exit)
    with nr None True have fresh: "orders s1 (ID order0) = None" by simp
    have old: "a < ?new" if "a \<in> set (opposing s1 ?b) \<union> set (resting s1 ?b)" for a
      using R(2) that unfolding wf_sides [of s1 ?b] qwf_def by blast
    have ido: "ID (order (mem s2 ! a)) = ID (order (mem s1 ! a))"
      if "a \<in> set (opposing s1 ?b) \<union> set (resting s1 ?b)" for a
      using old [OF that] R(8) by simp
    have ix: "orders s1 (ID (order (mem s1 ! a))) = Some a"
      if "a \<in> set (opposing s1 ?b) \<union> set (resting s1 ?b)" for a
      using R(3) that unfolding indexed_sides [of s1 ?b] by blast
    have nx: "ID (order (mem s1 ! a)) \<noteq> ID order0"
      if "a \<in> set (opposing s1 ?b) \<union> set (resting s1 ?b)" for a
      using ix [OF that] fresh by auto
    have "orders s2 (ID (order (mem s2 ! a))) = Some a"
      if a: "a \<in> set (opposing s2 ?b) \<union> set (resting s2 ?b)" for a
    proof (cases "a = ?new")
      case an: True
      have "ID order0 \<notin> (\<lambda>e. ID (order (mem s2 ! e))) ` ?E"
      proof
        assume "ID order0 \<in> (\<lambda>e. ID (order (mem s2 ! e))) ` ?E"
        then obtain e where e: "ID order0 = ID (order (mem s2 ! e))" "e \<in> ?E"
          by (rule imageE)
        from a an R(7) old have "?new \<in> set (resting s2 ?b)" by auto
        with e(2) have er: "e \<in> set (resting s1 ?b)" by auto
        with ido [of e] nx [of e] e(1) show False by simp
      qed
      then show ?thesis unfolding an new idi os by simp
    next
      case False
      with a sub R(7) have a1: "a \<in> set (opposing s1 ?b) \<union> set (resting s1 ?b)" by auto
      have "ID (order (mem s1 ! a)) \<notin> (\<lambda>e. ID (order (mem s2 ! e))) ` ?E"
      proof
        assume "ID (order (mem s1 ! a)) \<in> (\<lambda>e. ID (order (mem s2 ! e))) ` ?E"
        then obtain e where e: "ID (order (mem s1 ! a)) = ID (order (mem s2 ! e))" "e \<in> ?E"
          by (rule imageE)
        show False
        proof (cases "e = ?new")
          case True
          with e(1) new idi nx [OF a1] show False by simp
        next
          case ne: False
          with e(2) have er: "e \<in> set (resting s1 ?b)" "e \<notin> set (resting s2 ?b)" by auto
          then have e1: "e \<in> set (opposing s1 ?b) \<union> set (resting s1 ?b)" by simp
          from e(1) ido [OF e1] have "ID (order (mem s1 ! a)) = ID (order (mem s1 ! e))" by simp
          from indexed_inj [OF R(3) a1 e1 this] have ae: "a = e" .
          with er(1) sides_disjoint [OF R(2), of ?b] have "a \<notin> set (opposing s1 ?b)" by auto
          with a R(7) have "a \<in> set (resting s2 ?b)" by auto
          with ae er(2) show False by simp
        qed
      qed
      with ix [OF a1] nx [OF a1] show ?thesis unfolding ido [OF a1] os idi by simp
    qed
    then have "indexed s2" unfolding indexed_sides [of s2 ?b] by blast
    with s2 show ?thesis by simp
  qed
qed


lemma processCancel_indexed:
  assumes w: "wf s" and x: "indexed s" and res: "processCancel s oid = Some (err, s')"
  shows "indexed s'"
proof (cases "orders s oid")
  case None
  from processCancel_result(3) [OF w res None] x show ?thesis by simp
next
  case (Some e)
  let ?b = "isBid (mem s ! e)"
  from processCancel_result(4) [OF w res Some]
  have m: "mset (opposing s ?b) = add_mset e (mset (opposing s' ?b))"
    and r: "resting s' ?b = resting s ?b"
    and os: "orders s' = (orders s)(oid := None)"
    and o: "\<forall>a. order (mem s' ! a) = order (mem s ! a)" by blast+
  from m have "set_mset (mset (opposing s ?b)) = set_mset (add_mset e (mset (opposing s' ?b)))"
    by simp
  then have se: "set (opposing s ?b) = insert e (set (opposing s' ?b))" by simp
  from w have d: "distinct (opposing s ?b)" unfolding wf_sides [of s ?b] qwf_def by blast
  from m have "mset (opposing s ?b) = mset (e # opposing s' ?b)" by simp
  from mset_eq_imp_distinct_iff [OF this] d have "distinct (e # opposing s' ?b)" by blast
  then have ne: "e \<notin> set (opposing s' ?b)" by simp
  have "orders s' (ID (order (mem s' ! a))) = Some a"
    if a: "a \<in> set (opposing s' ?b) \<union> set (resting s' ?b)" for a
  proof -
    from a se r have a': "a \<in> set (opposing s ?b) \<union> set (resting s ?b)" by auto
    from a ne r wf_entry(2) [OF w Some] have ae: "a \<noteq> e" by auto
    from x a' have ia: "orders s (ID (order (mem s ! a))) = Some a"
      unfolding indexed_sides [of s ?b] by blast
    with Some ae have "ID (order (mem s ! a)) \<noteq> oid" by auto
    with ia o show ?thesis unfolding os by simp
  qed
  then show ?thesis unfolding indexed_sides [of s' ?b] by blast
qed

lemma processAmend_indexed:
  assumes w: "wf s" and x: "indexed s"
    and res: "processAmend s oid newPrice newQty = Some (err, s')"
  shows "indexed s'"
proof (cases "orders s oid")
  case None
  from processAmend_result(3) [OF w res None] x show ?thesis by simp
next
  case (Some e)
  let ?b = "isBid (mem s ! e)"
  from wf_entry(3) [OF w Some] have el: "e < length (mem s)" .
  show ?thesis
  proof (cases "badQty newQty")
    case True
    from processAmend_result(4) [OF w res Some True] x show ?thesis by simp
  next
    case False
    note bq = this
    show ?thesis
    proof (cases "badPrice (cfg s) newPrice")
      case True
      from processAmend_result(5) [OF w res Some bq True]
      have s': "s' = s\<lparr>mem := updOrder (mem s) e (resized newQty)\<rparr>" by blast
      have "ID (order (updOrder (mem s) e (resized newQty) ! a)) = ID (order (mem s ! a))" for a
        using el by (cases "a = e") (simp_all add: updOrder_def amended_keeps)
      with x show ?thesis unfolding s' indexed_def by simp
    next
      case False
      from processAmend_result(6) [OF w res Some bq False]
      have m: "mset (opposing s' ?b) \<subseteq># mset (opposing s ?b)"
        and r: "resting s' ?b = resting s ?b"
        and os: "orders s' =
             (\<lambda>oid'. if oid' \<in> (\<lambda>a. ID (order (mem s ! a))) `
                              (set (opposing s ?b) - set (opposing s' ?b))
                      then None else orders s oid')"
        and o: "\<forall>a. a \<noteq> e \<longrightarrow> order (mem s' ! a) = order (mem s ! a)"
        and e: "order (mem s' ! e) =
               amended newPrice newQty (wrap64 (seq s + 1)) (now s (ticks s)) (order (mem s ! e))"
        by blast+
      from m have sub: "set (opposing s' ?b) \<subseteq> set (opposing s ?b)"
        by (rule set_mset_mono [of "mset (opposing s' ?b)" "mset (opposing s ?b)", simplified])
      have id: "ID (order (mem s' ! a)) = ID (order (mem s ! a))" for a
        using o e by (cases "a = e") (simp_all add: amended_keeps)
      have "orders s' (ID (order (mem s' ! a))) = Some a"
        if a: "a \<in> set (opposing s' ?b) \<union> set (resting s' ?b)" for a
      proof -
        from a sub r have a': "a \<in> set (opposing s ?b) \<union> set (resting s ?b)" by auto
        from x a' have ia: "orders s (ID (order (mem s ! a))) = Some a"
          unfolding indexed_sides [of s ?b] by blast
        have "ID (order (mem s ! a)) \<notin> (\<lambda>a. ID (order (mem s ! a))) `
                (set (opposing s ?b) - set (opposing s' ?b))"
        proof
          assume "ID (order (mem s ! a)) \<in> (\<lambda>a. ID (order (mem s ! a))) `
                (set (opposing s ?b) - set (opposing s' ?b))"
          then obtain y where y: "ID (order (mem s ! a)) = ID (order (mem s ! y))"
            "y \<in> set (opposing s ?b) - set (opposing s' ?b)" by (rule imageE)
          from y(2) have y': "y \<in> set (opposing s ?b) \<union> set (resting s ?b)" by simp
          from indexed_inj [OF x a' y' y(1)] have ay: "a = y" .
          with y(2) sides_disjoint [OF w, of ?b] have "a \<notin> set (resting s ?b)"
            "a \<notin> set (opposing s' ?b)" by auto
          with a r show False by simp
        qed
        with ia show ?thesis unfolding os id by simp
      qed
      then show ?thesis unfolding indexed_sides [of s' ?b] by blast
    qed
  qed
qed

lemma indexed_publishView [simp]: "indexed (publishView s) = indexed s"
  by (simp add: indexed_def)

lemma serve_indexed:
  assumes w: "wf s" and x: "indexed s" and k: "\<not> reusing s req"
    and res: "serve s req = Some (err, s')"
  shows "indexed s'"
  using res
proof (cases rule: serve_cases)
  case (1 order0 s0)
  from k 1(1) have "\<not> reusing s (requestAdd order0)" by simp
  from processAdd_indexed [OF w x this 1(2)] 1(3) show ?thesis by simp
next
  case (2 oid s0)
  from processCancel_indexed [OF w x 2(2)] 2(3) show ?thesis by simp
next
  case (3 oid np nq s0)
  from processAmend_indexed [OF w x 3(2)] 3(3) show ?thesis by simp
next
  case 4
  with x show ?thesis by simp
qed

lemma run_indexed:
  assumes "sound s" "indexed s" "reuse_free s reqs" "run s reqs = Some s'"
  shows "indexed s'"
  using assms
proof (induction reqs arbitrary: s)
  case Nil
  then show ?case by simp
next
  case (Cons req reqs)
  from Cons.prems(1) have w: "wf s" by (simp add: sound_def)
  from serve_sound [OF Cons.prems(1), of req] obtain err s1 where
    s1: "serve s req = Some (err, s1)" "sound s1" by blast
  from Cons.prems(3) s1(1) have k: "\<not> reusing s req" "reuse_free s1 reqs" by simp_all
  from serve_indexed [OF w Cons.prems(2) k(1) s1(1)] have n1: "indexed s1" .
  from Cons.prems(4) s1(1) have "run s1 reqs = Some s'" by simp
  from Cons.IH [OF s1(2) n1 k(2) this] show ?case .
qed

declare reuse_free.simps [simp del]

lemma indexed_NewOrderBook: "indexed (NewOrderBook c clock)"
  by (simp add: indexed_def NewOrderBook_def)


lemma distinct_sub:
  assumes s: "mset xs \<subseteq># mset ys" and d: "distinct ys"
  shows "distinct xs"
proof -
  have "count (mset xs) a = (if a \<in> set xs then 1 else 0)" for a
  proof -
    from s have "count (mset xs) a \<le> count (mset ys) a" by (rule mset_subset_eq_count)
    moreover from d have "count (mset ys) a \<le> 1" by (simp add: distinct_count_atmost_1)
    ultimately have le: "count (mset xs) a \<le> 1" by simp
    show ?thesis
    proof (cases "a \<in> set xs")
      case True
      then have "count (mset xs) a \<noteq> 0" by (simp add: count_eq_zero_iff)
      with le have "count (mset xs) a = 1" by arith
      with True show ?thesis by simp
    next
      case False
      then have "count (mset xs) a = 0" by (simp add: count_eq_zero_iff)
      with False show ?thesis by simp
    qed
  qed
  then show ?thesis unfolding distinct_count_atmost_1 by blast
qed

text \<open>A reusing submit is accepted and leaves a resting entry that the index does not map.\<close>

lemma reusing_breaks:
  assumes snd: "sound s" and c: "reusing s req" and res: "serve s req = Some (err, s')"
  shows "err = None \<and> \<not> indexed s'"
proof -
  from snd have wf: "wf s" and hd: "heaps_ok (opened s) \<and> depth_ok (opened s)"
    by (simp_all add: sound_def depth_ok_def)
  from c obtain order0 where req: "req = requestAdd order0"
    by (cases "(s, req)" rule: reusing.cases) simp_all
  let ?b = "Side order0 \<noteq> Buy"
  let ?X = "ID order0"
  from c req have v: "validate (cfg s) order0 = None" by simp
  have "\<exists>s1 incoming1 s'.
      match_loop (opened s) (accepted s order0) ?b = Some (s1, incoming1) \<and>
      wf s1 \<and> ((heaps_ok s1 \<and> depth_ok s1) \<and> ID incoming1 = ?X) \<and>
      match_step s1 incoming1 ?b = Exit \<and>
      (Side incoming1 = Buy) = (Side order0 = Buy) \<and>
      processAdd s order0 = Some (None, s') \<and> wf s' \<and>
      (if 0 < Remaining incoming1 \<and> Type incoming1 = Limit then
         \<exists>m2 q2 m3 q3 orders3.
           heap_Push (mem s1 @ [\<lparr>order = incoming1, index = 0, isBid = (Side incoming1 = Buy)\<rparr>])
               (resting s1 ?b) (length (mem s1)) = (m2, q2) \<and>
           trimDepth m2 q2 (MaxDepth (cfg s1)) (Side incoming1 = Buy)
               ((orders s1)(ID incoming1 \<mapsto> length (mem s1))) = Some (m3, q3, orders3) \<and>
           s' = set_resting (s1\<lparr>mem := m3, orders := orders3\<rparr>) ?b q3
       else s' = s1)"
  proof (rule processAdd_result [where
        P = "\<lambda>s1 i. (heaps_ok s1 \<and> depth_ok s1) \<and> ID i = ?X", OF wf v])
    from hd show "(heaps_ok (opened s) \<and> depth_ok (opened s)) \<and> ID (accepted s order0) = ?X"
      by simp
    fix s0 i s' i'
    assume a: "wf s0" "(heaps_ok s0 \<and> depth_ok s0) \<and> ID i = ?X" "match_step s0 i ?b = Next s' i'"
    from match_step_sound [OF a(1) _ a(3)] a(2) match_step_keeps_incoming(1) [OF a(3)]
    show "(heaps_ok s' \<and> depth_ok s') \<and> ID i' = ?X" by simp
  qed
  then obtain s1 i1 s2 where
    R: "match_loop (opened s) (accepted s order0) ?b = Some (s1, i1)" "wf s1"
       "depth_ok s1" "ID i1 = ?X" "(Side i1 = Buy) = (Side order0 = Buy)"
       "processAdd s order0 = Some (None, s2)"
       "if 0 < Remaining i1 \<and> Type i1 = Limit then
         \<exists>m2 q2 m3 q3 orders3.
           heap_Push (mem s1 @ [\<lparr>order = i1, index = 0, isBid = (Side i1 = Buy)\<rparr>])
               (resting s1 ?b) (length (mem s1)) = (m2, q2) \<and>
           trimDepth m2 q2 (MaxDepth (cfg s1)) (Side i1 = Buy)
               ((orders s1)(ID i1 \<mapsto> length (mem s1))) = Some (m3, q3, orders3) \<and>
           s2 = set_resting (s1\<lparr>mem := m3, orders := orders3\<rparr>) ?b q3
       else s2 = s1"
    by blast
  from c req R(1) have post: "0 < Remaining i1 \<and> Type i1 = Limit"
    and "orders s1 ?X \<noteq> None" by simp_all
  then obtain a0 where a0: "orders s1 ?X = Some a0" by auto
  let ?new = "length (mem s1)"
  let ?d = "MaxDepth (cfg s1)"
  from R(2) a0 have a0r: "a0 \<in> set (opposing s1 ?b) \<union> set (resting s1 ?b)"
    and a0i: "ID (order (mem s1 ! a0)) = ?X"
    unfolding wf_sides [of s1 ?b] by blast+
  from R(2) a0r have a0l: "a0 < ?new" unfolding wf_sides [of s1 ?b] qwf_def by blast
  from post R(7) obtain m2 q2 m3 q3 orders3 where
    psh: "heap_Push (mem s1 @ [\<lparr>order = i1, index = 0, isBid = (Side i1 = Buy)\<rparr>])
               (resting s1 ?b) ?new = (m2, q2)"
    and td: "trimDepth m2 q2 ?d (Side i1 = Buy) ((orders s1)(ID i1 \<mapsto> ?new))
               = Some (m3, q3, orders3)"
    and s2: "s2 = set_resting (s1\<lparr>mem := m3, orders := orders3\<rparr>) ?b q3" by auto
  from R(5) have sd: "(Side i1 = Buy) = (\<not> ?b)" by simp
  from post_effect [OF R(2) sd psh] td
  have E: "\<forall>a<?new. order (m3 ! a) = order (mem s1 ! a) \<and> isBid (m3 ! a) = isBid (mem s1 ! a)"
    "order (m3 ! ?new) = i1"
    "set q2 = insert ?new (set (resting s1 ?b))" "distinct q2"
    "mset q3 \<subseteq># mset q2"
    "\<not> (0 < ?d \<and> ?d < int (length q2)) \<longrightarrow> q3 = q2"
    "orders3 = (\<lambda>oid. if oid \<in> (\<lambda>e. ID (order (m2 ! e))) ` (set q2 - set q3) then None
                       else ((orders s1)(ID i1 \<mapsto> ?new)) oid)"
    "\<forall>a. order (m2 ! a) = order (m3 ! a)"
    by auto
  from E(5) have sub: "set q3 \<subseteq> set q2"
    by (rule set_mset_mono [of "mset q3" "mset q2", simplified])
  from distinct_sub [OF E(5,4)] have d3: "distinct q3" .
  have o3: "orders3 ?X = None \<or> orders3 ?X = Some ?new" unfolding E(7) R(4) by simp
  have m3: "mem s2 = m3" "orders s2 = orders3" "resting s2 ?b = q3"
    "opposing s2 ?b = opposing s1 ?b" unfolding s2 by simp_all
  have ida: "ID (order (m3 ! a0)) = ?X" using E(1) a0l a0i by simp
  have idn: "ID (order (m3 ! ?new)) = ?X" using E(2) R(4) by simp
  have bad: "\<exists>a\<in>set (opposing s2 ?b) \<union> set (resting s2 ?b).
      orders s2 (ID (order (mem s2 ! a))) \<noteq> Some a"
  proof (cases "a0 \<in> set (opposing s1 ?b) \<union> set q3")
    case True
    from o3 a0l have ne: "orders3 ?X \<noteq> Some a0" by auto
    have "orders3 (ID (order (m3 ! a0))) \<noteq> Some a0" unfolding ida by (rule ne)
    with True show ?thesis unfolding m3 by blast
  next
    case False
    with a0r E(3) have ev: "a0 \<in> set q2 - set q3" by auto
    then have "?X \<in> (\<lambda>e. ID (order (m2 ! e))) ` (set q2 - set q3)"
      using ida E(8) by (auto simp: image_iff intro!: bexI [of _ a0])
    then have none: "orders3 ?X = None" unfolding E(7) by simp
    have "?new \<in> set q3"
    proof (rule ccontr)
      assume "?new \<notin> set q3"
      with E(3) ev a0l have two: "{a0, ?new} \<subseteq> set q2 - set q3" "a0 \<noteq> ?new" by auto
      from two have "card {a0, ?new} \<le> card (set q2 - set q3)"
        by (intro card_mono) simp_all
      with two(2) have c2: "2 \<le> card (set q2 - set q3)" by simp
      from sub have "card (set q2 - set q3) = card (set q2) - card (set q3)"
        by (intro card_Diff_subset) simp_all
      with E(4) d3 have cd: "card (set q2 - set q3) = length q2 - length q3"
        by (simp add: distinct_card)
      from c2 cd have lt: "length q3 + 2 \<le> length q2" by simp
      then have "q3 \<noteq> q2" by auto
      with E(6) have over: "0 < ?d" "?d < int (length q2)" by auto
      from trimDepth_length [OF td over(1)] over(2) have l3: "int (length q3) = ?d" by simp
      from distinct_card [OF E(4)] have "length q2 = card (insert ?new (set (resting s1 ?b)))"
        unfolding E(3) by simp
      also have "\<dots> \<le> Suc (card (set (resting s1 ?b)))" by (simp add: card_insert_if)
      also have "\<dots> \<le> Suc (length (resting s1 ?b))" by (simp add: card_length)
      finally have l2: "length q2 \<le> Suc (length (resting s1 ?b))" .
      from R(3) over(1) have "int (length (resting s1 ?b)) \<le> ?d"
        unfolding depth_ok_sides [of s1 ?b] by simp
      with l2 l3 lt show False by simp
    qed
    moreover have "orders3 (ID (order (m3 ! ?new))) \<noteq> Some ?new" unfolding idn none by simp
    ultimately show ?thesis unfolding m3 by blast
  qed
  then have "\<not> indexed s2" unfolding indexed_sides [of s2 ?b] by blast
  moreover from res req R(6) have "err = None" "s' = publishView s2"
    by (simp_all add: reply_def)
  ultimately show ?thesis by simp
qed


section \<open>The claims\<close>

text \<open>
  The configuration and the orders used in the concrete runs below: symbol \<open>B\<close>, tick size
  1, depth 10, and a clock whose \<open>n\<close>-th reading is \<open>n\<close>.
\<close>

definition cfg0 :: OrderBookConfig where
  "cfg0 = \<lparr>cfgSymbol = ''B'', TickSize = 1, MaxDepth = 10\<rparr>"

definition clock0 :: "nat \<Rightarrow> int" where
  "clock0 n = int n"

definition mkOrder :: "string \<Rightarrow> Side \<Rightarrow> OrderType \<Rightarrow> int \<Rightarrow> int \<Rightarrow> Order" where
  "mkOrder i sd ty p n =
     \<lparr>ID = i, Symbol = ''B'', Side = sd, Type = ty, Price = p, Quantity = n,
      Remaining = 0, Timestamp = 0, Sequence = 0\<rparr>"


text \<open>
  C1: an accepted submit appends its trades to those emitted before, one for each
  iteration of the matching loop. The price of each is the price, at that iteration, of
  the resting order at the top of the opposing queue, whatever the price of the incoming
  order; its quantity is the smaller of the incoming order's remaining and that resting
  order's remaining at that iteration.
\<close>

theorem trade_price_quantity:
  "\<exists>s. run (NewOrderBook c clock) reqs = Some s \<and>
     (validate c order0 = None \<longrightarrow>
        (\<exists>s'. processAdd s order0 = Some (None, s') \<and>
           take (length (trades s)) (trades s') = trades s \<and>
           map trPrice (drop (length (trades s)) (trades s')) =
             map (\<lambda>(sk, ik). Price (order (mem sk ! hd (opposing sk (Side order0 \<noteq> Buy)))))
               (butlast (match_states (opened s) (accepted s order0) (Side order0 \<noteq> Buy))) \<and>
           map trQuantity (drop (length (trades s)) (trades s')) =
             map (\<lambda>(sk, ik). min (Remaining ik)
                    (Remaining (order (mem sk ! hd (opposing sk (Side order0 \<noteq> Buy))))))
               (butlast (match_states (opened s) (accepted s order0) (Side order0 \<noteq> Buy))) \<and>
           (\<forall>(sk, ik)\<in>set (butlast (match_states (opened s) (accepted s order0) (Side order0 \<noteq> Buy))).
              peek (opposing sk (Side order0 \<noteq> Buy)) = Some (hd (opposing sk (Side order0 \<noteq> Buy))) \<and>
              ik = (accepted s order0)\<lparr>Remaining := Remaining ik\<rparr>)))"
proof -
  from run_sound [OF sound_NewOrderBook, of c clock reqs] obtain s where
    s: "run (NewOrderBook c clock) reqs = Some s" "sound s" "cfg s = c"
    by (auto simp: NewOrderBook_def)
  from s(2) have wf: "wf s" by (simp add: sound_def)
  have w: "wf (opened s)" using wf by simp
  let ?b = "Side order0 \<noteq> Buy"
  let ?sts = "match_states (opened s) (accepted s order0) ?b"
  have imp: "\<exists>s'. processAdd s order0 = Some (None, s') \<and>
           take (length (trades s)) (trades s') = trades s \<and>
           map trPrice (drop (length (trades s)) (trades s')) =
             map (\<lambda>(sk, ik). Price (order (mem sk ! hd (opposing sk ?b)))) (butlast ?sts) \<and>
           map trQuantity (drop (length (trades s)) (trades s')) =
             map (\<lambda>(sk, ik). min (Remaining ik) (Remaining (order (mem sk ! hd (opposing sk ?b)))))
               (butlast ?sts) \<and>
           (\<forall>(sk, ik)\<in>set (butlast ?sts).
              peek (opposing sk ?b) = Some (hd (opposing sk ?b)) \<and>
              ik = (accepted s order0)\<lparr>Remaining := Remaining ik\<rparr>)"
    if v: "validate c order0 = None"
  proof -
    from v s(3) have v': "validate (cfg s) order0 = None" by simp
    from processAdd_trades [OF wf v'] obtain s' where
      pa: "processAdd s order0 = Some (None, s')"
      and t: "trades s' = trades s @ map (\<lambda>(sk, ik). tradeOf sk ik (hd (opposing sk ?b))) (butlast ?sts)"
      by blast
    have a: "take (length (trades s)) (trades s') = trades s" unfolding t by simp
    have d: "drop (length (trades s)) (trades s') =
        map (\<lambda>(sk, ik). tradeOf sk ik (hd (opposing sk ?b))) (butlast ?sts)"
      unfolding t by simp
    have p: "map trPrice (drop (length (trades s)) (trades s')) =
             map (\<lambda>(sk, ik). Price (order (mem sk ! hd (opposing sk ?b)))) (butlast ?sts)"
      unfolding d by (rule map_tradeOf)
    have q: "map trQuantity (drop (length (trades s)) (trades s')) =
             map (\<lambda>(sk, ik). min (Remaining ik) (Remaining (order (mem sk ! hd (opposing sk ?b)))))
               (butlast ?sts)"
      unfolding d by (rule map_tradeOf)
    have m: "\<forall>(sk, ik)\<in>set (butlast ?sts).
              peek (opposing sk ?b) = Some (hd (opposing sk ?b)) \<and>
              ik = (accepted s order0)\<lparr>Remaining := Remaining ik\<rparr>"
      using matching_state(1,4) [OF w] by blast
    from pa a p q m show ?thesis by blast
  qed
  show ?thesis
    apply (rule exI [of _ s])
    apply (rule conjI)
     apply (rule s(1))
    apply (rule impI)
    apply (erule imp)
    done
qed


text \<open>
  An ask at 101 for 5 rests; a bid at 102 for 3 trades with it at 101, for 3.
\<close>

theorem trade_price_quantity_witness:
  "validate cfg0 (mkOrder ''bid1'' Buy Limit 102 3) = None \<and>
   map_option (map (\<lambda>t. (trPrice t, trQuantity t)) \<circ> trades)
     (run (NewOrderBook cfg0 clock0)
        [requestAdd (mkOrder ''ask1'' Sell Limit 101 5),
         requestAdd (mkOrder ''bid1'' Buy Limit 102 3)]) = Some [(101, 3)] \<and>
   (\<exists>s. run (NewOrderBook cfg0 clock0) [requestAdd (mkOrder ''ask1'' Sell Limit 101 5)] = Some s \<and>
     (\<exists>s'. processAdd s (mkOrder ''bid1'' Buy Limit 102 3) = Some (None, s') \<and>
        take (length (trades s)) (trades s') = trades s \<and>
        map trPrice (drop (length (trades s)) (trades s')) =
          map (\<lambda>(sk, ik). Price (order (mem sk !
                 hd (opposing sk (Side (mkOrder ''bid1'' Buy Limit 102 3) \<noteq> Buy)))))
            (butlast (match_states (opened s) (accepted s (mkOrder ''bid1'' Buy Limit 102 3))
               (Side (mkOrder ''bid1'' Buy Limit 102 3) \<noteq> Buy))) \<and>
        map trQuantity (drop (length (trades s)) (trades s')) =
          map (\<lambda>(sk, ik). min (Remaining ik) (Remaining (order (mem sk !
                 hd (opposing sk (Side (mkOrder ''bid1'' Buy Limit 102 3) \<noteq> Buy))))))
            (butlast (match_states (opened s) (accepted s (mkOrder ''bid1'' Buy Limit 102 3))
               (Side (mkOrder ''bid1'' Buy Limit 102 3) \<noteq> Buy))) \<and>
        (\<forall>(sk, ik)\<in>set (butlast (match_states (opened s)
              (accepted s (mkOrder ''bid1'' Buy Limit 102 3))
              (Side (mkOrder ''bid1'' Buy Limit 102 3) \<noteq> Buy))).
           peek (opposing sk (Side (mkOrder ''bid1'' Buy Limit 102 3) \<noteq> Buy)) =
             Some (hd (opposing sk (Side (mkOrder ''bid1'' Buy Limit 102 3) \<noteq> Buy))) \<and>
           ik = (accepted s (mkOrder ''bid1'' Buy Limit 102 3))\<lparr>Remaining := Remaining ik\<rparr>)))"
proof -
  have h: "validate cfg0 (mkOrder ''bid1'' Buy Limit 102 3) = None"
    by (simp add: cfg0_def validate_def mkOrder_def go_rem_def)
  have e: "map_option (map (\<lambda>t. (trPrice t, trQuantity t)) \<circ> trades)
     (run (NewOrderBook cfg0 clock0)
        [requestAdd (mkOrder ''ask1'' Sell Limit 101 5),
         requestAdd (mkOrder ''bid1'' Buy Limit 102 3)]) = Some [(101, 3)]"
    by code_simp
  from trade_price_quantity [of cfg0 clock0 "[requestAdd (mkOrder ''ask1'' Sell Limit 101 5)]"
      "mkOrder ''bid1'' Buy Limit 102 3"] h
  have "\<exists>s. run (NewOrderBook cfg0 clock0) [requestAdd (mkOrder ''ask1'' Sell Limit 101 5)] = Some s \<and>
     (\<exists>s'. processAdd s (mkOrder ''bid1'' Buy Limit 102 3) = Some (None, s') \<and>
        take (length (trades s)) (trades s') = trades s \<and>
        map trPrice (drop (length (trades s)) (trades s')) =
          map (\<lambda>(sk, ik). Price (order (mem sk !
                 hd (opposing sk (Side (mkOrder ''bid1'' Buy Limit 102 3) \<noteq> Buy)))))
            (butlast (match_states (opened s) (accepted s (mkOrder ''bid1'' Buy Limit 102 3))
               (Side (mkOrder ''bid1'' Buy Limit 102 3) \<noteq> Buy))) \<and>
        map trQuantity (drop (length (trades s)) (trades s')) =
          map (\<lambda>(sk, ik). min (Remaining ik) (Remaining (order (mem sk !
                 hd (opposing sk (Side (mkOrder ''bid1'' Buy Limit 102 3) \<noteq> Buy))))))
            (butlast (match_states (opened s) (accepted s (mkOrder ''bid1'' Buy Limit 102 3))
               (Side (mkOrder ''bid1'' Buy Limit 102 3) \<noteq> Buy))) \<and>
        (\<forall>(sk, ik)\<in>set (butlast (match_states (opened s)
              (accepted s (mkOrder ''bid1'' Buy Limit 102 3))
              (Side (mkOrder ''bid1'' Buy Limit 102 3) \<noteq> Buy))).
           peek (opposing sk (Side (mkOrder ''bid1'' Buy Limit 102 3) \<noteq> Buy)) =
             Some (hd (opposing sk (Side (mkOrder ''bid1'' Buy Limit 102 3) \<noteq> Buy))) \<and>
           ik = (accepted s (mkOrder ''bid1'' Buy Limit 102 3))\<lparr>Remaining := Remaining ik\<rparr>))"
    by simp
  with h e show ?thesis by (intro conjI)
qed


text \<open>
  C2: for an accepted submit, the quantities of the trades it emits and what remains of
  the incoming order after matching add up to the order's quantity. Every order that
  rested before the submit is afterwards what it was, its remaining less the quantities
  of the trades it was the resting counterparty of; the counterparties are entries of
  the opposing queue.
\<close>

theorem conservation:
  "\<exists>s. run (NewOrderBook c clock) reqs = Some s \<and>
     (validate c order0 = None \<longrightarrow>
        (\<exists>s' incoming1.
           match (opened s) (accepted s order0) (Side order0 \<noteq> Buy) = Some (s', incoming1) \<and>
           processAdd s order0 = Some (None, s') \<and>
           sum_list (map trQuantity (drop (length (trades s)) (trades s'))) + Remaining incoming1
             = Quantity order0 \<and>
           (\<forall>a<length (mem s). order (mem s' ! a) =
              (order (mem s ! a))\<lparr>Remaining := Remaining (order (mem s ! a)) -
                 filled a (counterparties (Side order0 \<noteq> Buy)
                             (match_states (opened s) (accepted s order0) (Side order0 \<noteq> Buy)))
                   (drop (length (trades s)) (trades s'))\<rparr>) \<and>
           set (counterparties (Side order0 \<noteq> Buy)
                  (match_states (opened s) (accepted s order0) (Side order0 \<noteq> Buy)))
             \<subseteq> set (opposing s (Side order0 \<noteq> Buy))))"
proof -
  from run_sound [OF sound_NewOrderBook, of c clock reqs] obtain s where
    s: "run (NewOrderBook c clock) reqs = Some s" "sound s" "cfg s = c"
    by (auto simp: NewOrderBook_def)
  from s(2) have wf: "wf s" by (simp add: sound_def)
  have w: "wf (opened s)" using wf by simp
  have imp: "\<exists>s' incoming1.
           match (opened s) (accepted s order0) (Side order0 \<noteq> Buy) = Some (s', incoming1) \<and>
           processAdd s order0 = Some (None, s') \<and>
           sum_list (map trQuantity (drop (length (trades s)) (trades s'))) + Remaining incoming1
             = Quantity order0 \<and>
           (\<forall>a<length (mem s). order (mem s' ! a) =
              (order (mem s ! a))\<lparr>Remaining := Remaining (order (mem s ! a)) -
                 filled a (counterparties (Side order0 \<noteq> Buy)
                             (match_states (opened s) (accepted s order0) (Side order0 \<noteq> Buy)))
                   (drop (length (trades s)) (trades s'))\<rparr>) \<and>
           set (counterparties (Side order0 \<noteq> Buy)
                  (match_states (opened s) (accepted s order0) (Side order0 \<noteq> Buy)))
             \<subseteq> set (opposing s (Side order0 \<noteq> Buy))"
    if v: "validate c order0 = None"
  proof -
    from v s(3) have v': "validate (cfg s) order0 = None" by simp
    from counterparties_rest [OF w, of "Side order0 \<noteq> Buy" "accepted s order0"]
    have "set (counterparties (Side order0 \<noteq> Buy)
                  (match_states (opened s) (accepted s order0) (Side order0 \<noteq> Buy)))
             \<subseteq> set (opposing s (Side order0 \<noteq> Buy))" by simp
    with processAdd_conserves [OF wf v'] show ?thesis by blast
  qed
  show ?thesis
    apply (rule exI [of _ s])
    apply (rule conjI)
     apply (rule s(1))
    apply (rule impI)
    apply (erule imp)
    done
qed


text \<open>
  Asks of 2 at 50 and of 5 at 55 rest; a market buy of 4 trades 2 and 2, and leaves the
  asks with 0 and 3.
\<close>

theorem conservation_witness:
  "validate cfg0 (mkOrder ''mkt1'' Buy Market 0 4) = None \<and>
   map_option (\<lambda>s. (map trQuantity (trades s), map (Remaining \<circ> order) (mem s)))
     (run (NewOrderBook cfg0 clock0)
        [requestAdd (mkOrder ''ask1'' Sell Limit 50 2),
         requestAdd (mkOrder ''ask2'' Sell Limit 55 5),
         requestAdd (mkOrder ''mkt1'' Buy Market 0 4)]) = Some ([2, 2], [0, 3]) \<and>
   (\<exists>s. run (NewOrderBook cfg0 clock0)
          [requestAdd (mkOrder ''ask1'' Sell Limit 50 2),
           requestAdd (mkOrder ''ask2'' Sell Limit 55 5)] = Some s \<and>
      (\<exists>s' incoming1.
         match (opened s) (accepted s (mkOrder ''mkt1'' Buy Market 0 4))
           (Side (mkOrder ''mkt1'' Buy Market 0 4) \<noteq> Buy) = Some (s', incoming1) \<and>
         processAdd s (mkOrder ''mkt1'' Buy Market 0 4) = Some (None, s') \<and>
         sum_list (map trQuantity (drop (length (trades s)) (trades s'))) + Remaining incoming1
           = Quantity (mkOrder ''mkt1'' Buy Market 0 4) \<and>
         (\<forall>a<length (mem s). order (mem s' ! a) =
            (order (mem s ! a))\<lparr>Remaining := Remaining (order (mem s ! a)) -
               filled a (counterparties (Side (mkOrder ''mkt1'' Buy Market 0 4) \<noteq> Buy)
                           (match_states (opened s) (accepted s (mkOrder ''mkt1'' Buy Market 0 4))
                              (Side (mkOrder ''mkt1'' Buy Market 0 4) \<noteq> Buy)))
                 (drop (length (trades s)) (trades s'))\<rparr>) \<and>
         set (counterparties (Side (mkOrder ''mkt1'' Buy Market 0 4) \<noteq> Buy)
                (match_states (opened s) (accepted s (mkOrder ''mkt1'' Buy Market 0 4))
                   (Side (mkOrder ''mkt1'' Buy Market 0 4) \<noteq> Buy)))
           \<subseteq> set (opposing s (Side (mkOrder ''mkt1'' Buy Market 0 4) \<noteq> Buy))))"
proof -
  have h: "validate cfg0 (mkOrder ''mkt1'' Buy Market 0 4) = None"
    by (simp add: cfg0_def validate_def mkOrder_def go_rem_def)
  have e: "map_option (\<lambda>s. (map trQuantity (trades s), map (Remaining \<circ> order) (mem s)))
     (run (NewOrderBook cfg0 clock0)
        [requestAdd (mkOrder ''ask1'' Sell Limit 50 2),
         requestAdd (mkOrder ''ask2'' Sell Limit 55 5),
         requestAdd (mkOrder ''mkt1'' Buy Market 0 4)]) = Some ([2, 2], [0, 3])"
    by code_simp
  from conservation [of cfg0 clock0 "[requestAdd (mkOrder ''ask1'' Sell Limit 50 2),
           requestAdd (mkOrder ''ask2'' Sell Limit 55 5)]" "mkOrder ''mkt1'' Buy Market 0 4"] h
  have "(\<exists>s. run (NewOrderBook cfg0 clock0)
          [requestAdd (mkOrder ''ask1'' Sell Limit 50 2),
           requestAdd (mkOrder ''ask2'' Sell Limit 55 5)] = Some s \<and>
      (\<exists>s' incoming1.
         match (opened s) (accepted s (mkOrder ''mkt1'' Buy Market 0 4))
           (Side (mkOrder ''mkt1'' Buy Market 0 4) \<noteq> Buy) = Some (s', incoming1) \<and>
         processAdd s (mkOrder ''mkt1'' Buy Market 0 4) = Some (None, s') \<and>
         sum_list (map trQuantity (drop (length (trades s)) (trades s'))) + Remaining incoming1
           = Quantity (mkOrder ''mkt1'' Buy Market 0 4) \<and>
         (\<forall>a<length (mem s). order (mem s' ! a) =
            (order (mem s ! a))\<lparr>Remaining := Remaining (order (mem s ! a)) -
               filled a (counterparties (Side (mkOrder ''mkt1'' Buy Market 0 4) \<noteq> Buy)
                           (match_states (opened s) (accepted s (mkOrder ''mkt1'' Buy Market 0 4))
                              (Side (mkOrder ''mkt1'' Buy Market 0 4) \<noteq> Buy)))
                 (drop (length (trades s)) (trades s'))\<rparr>) \<and>
         set (counterparties (Side (mkOrder ''mkt1'' Buy Market 0 4) \<noteq> Buy)
                (match_states (opened s) (accepted s (mkOrder ''mkt1'' Buy Market 0 4))
                   (Side (mkOrder ''mkt1'' Buy Market 0 4) \<noteq> Buy)))
           \<subseteq> set (opposing s (Side (mkOrder ''mkt1'' Buy Market 0 4) \<noteq> Buy))))"
    by simp
  with h e show ?thesis by (intro conjI)
qed


text \<open>
  C3 (errors leave the book untouched), at the input where the code departs from it: a
  bid \<open>x\<close> of quantity 5 rests; the amend of \<open>x\<close> to quantity 3 and price \<open>-1\<close> is answered
  with the tick alignment error and publishes nothing, yet the resting order's quantity
  and remaining are 3 afterwards.
\<close>

theorem amend_error_changes_order:
  "(case run (NewOrderBook cfg0 clock0) [requestAdd (mkOrder ''x'' Buy Limit 10 5)] of
      None \<Rightarrow> False
    | Some s \<Rightarrow>
        map (\<lambda>e. (Quantity (order e), Remaining (order e))) (mem s) = [(5, 5)] \<and>
        orders s ''x'' = Some 0 \<and>
        (case serve s (requestAmend ''x'' (Some (- 1)) (Some 3)) of
           None \<Rightarrow> False
         | Some (err, s') \<Rightarrow>
             err = Some TickAlignment \<and> updates s' = updates s \<and> trades s' = trades s \<and>
             map (\<lambda>e. (Quantity (order e), Remaining (order e))) (mem s') = [(3, 3)]))"
  by code_simp


text \<open>
  C4, where the code departs from it: an ask at 10 and a bid at 9 rest; the amend of the
  bid to 11 succeeds and leaves the bid resting at 11 above the ask at 10.
\<close>

theorem amend_crosses_book:
  "map_option bidPrices
     (run (NewOrderBook cfg0 clock0)
        [requestAdd (mkOrder ''ask1'' Sell Limit 10 1), requestAdd (mkOrder ''bid1'' Buy Limit 9 1),
         requestAmend ''bid1'' (Some 11) None]) = Some [11] \<and>
   map_option askPrices
     (run (NewOrderBook cfg0 clock0)
        [requestAdd (mkOrder ''ask1'' Sell Limit 10 1), requestAdd (mkOrder ''bid1'' Buy Limit 9 1),
         requestAmend ''bid1'' (Some 11) None]) = Some [10]"
  by code_simp

text \<open>
  C4 as the code has it. After any sequence of commands the top of the bids queue, if
  present, has a price no lower than any resting bid's, and the top of the asks queue a
  price no higher than any resting ask's. If no command of the sequence was a crossing
  amend (an amend that succeeded and priced a bid above the top of the asks, or an ask
  below the top of the bids, of the book it was served on), no resting bid is priced
  above a resting ask, so the top of the bids is not above the top of the asks. The
  exception is the least possible: on every book the worker can reach, a crossing amend
  is answered nil, emits no trade and leaves a bid priced above an ask.
\<close>

theorem top_is_best_price:
  "\<exists>s. run (NewOrderBook c clock) reqs = Some s \<and>
     (\<forall>t a. peek (bids s) = Some t \<longrightarrow> a \<in> set (bids s) \<longrightarrow>
        Price (order (mem s ! a)) \<le> Price (order (mem s ! t))) \<and>
     (\<forall>t a. peek (asks s) = Some t \<longrightarrow> a \<in> set (asks s) \<longrightarrow>
        Price (order (mem s ! t)) \<le> Price (order (mem s ! a))) \<and>
     (crossing_free (NewOrderBook c clock) reqs \<longrightarrow>
        (\<forall>a\<in>set (bids s). \<forall>b\<in>set (asks s).
           Price (order (mem s ! a)) \<le> Price (order (mem s ! b))) \<and>
        (\<forall>t u. peek (bids s) = Some t \<longrightarrow> peek (asks s) = Some u \<longrightarrow>
           Price (order (mem s ! t)) \<le> Price (order (mem s ! u)))) \<and>
     (\<forall>req err s'. crossing s req \<longrightarrow> serve s req = Some (err, s') \<longrightarrow>
        err = None \<and> trades s' = trades s \<and>
        (\<exists>a\<in>set (bids s'). \<exists>b\<in>set (asks s').
           Price (order (mem s' ! b)) < Price (order (mem s' ! a))))"
proof -
  from run_sound [OF sound_NewOrderBook, of c clock reqs] obtain s where
    s: "run (NewOrderBook c clock) reqs = Some s" "sound s" by blast
  have A: "\<forall>t a. peek (bids s) = Some t \<longrightarrow> a \<in> set (bids s) \<longrightarrow>
        Price (order (mem s ! a)) \<le> Price (order (mem s ! t))"
    using top_price(1) [OF s(2)] by blast
  have B: "\<forall>t a. peek (asks s) = Some t \<longrightarrow> a \<in> set (asks s) \<longrightarrow>
        Price (order (mem s ! t)) \<le> Price (order (mem s ! a))"
    using top_price(2) [OF s(2)] by blast
  have C: "(\<forall>a\<in>set (bids s). \<forall>b\<in>set (asks s).
           Price (order (mem s ! a)) \<le> Price (order (mem s ! b))) \<and>
        (\<forall>t u. peek (bids s) = Some t \<longrightarrow> peek (asks s) = Some u \<longrightarrow>
           Price (order (mem s ! t)) \<le> Price (order (mem s ! u)))"
    if k: "crossing_free (NewOrderBook c clock) reqs"
  proof -
    from run_nocross [OF sound_NewOrderBook nocross_NewOrderBook k s(1)]
    have n: "\<forall>a\<in>set (bids s). \<forall>b\<in>set (asks s).
           Price (order (mem s ! a)) \<le> Price (order (mem s ! b))"
      by (simp add: nocross_def)
    have "Price (order (mem s ! t)) \<le> Price (order (mem s ! u))"
      if "peek (bids s) = Some t" "peek (asks s) = Some u" for t u
      using n peek_hd [OF that(1)] peek_hd [OF that(2)] by blast
    with n show ?thesis by blast
  qed
  have D: "\<forall>req err s'. crossing s req \<longrightarrow> serve s req = Some (err, s') \<longrightarrow>
        err = None \<and> trades s' = trades s \<and>
        (\<exists>a\<in>set (bids s'). \<exists>b\<in>set (asks s').
           Price (order (mem s' ! b)) < Price (order (mem s' ! a)))"
    using crossing_crosses [OF s(2)] by blast
  show ?thesis
    apply (rule exI [of _ s])
    apply (intro conjI)
        apply (rule s(1))
       apply (rule A)
      apply (rule B)
     apply (rule impI)
     apply (erule C)
    apply (rule D)
    done
qed


text \<open>
  Bids at 10 and 9 and an ask at 12; the bid at 9 is repriced to 8 and the bid at 10
  cancelled. No request was crossing, and the bid at 8 is below the ask at 12; an amend
  of the bid to 13 would be crossing.
\<close>

theorem top_is_best_price_witness:
  "crossing_free (NewOrderBook cfg0 clock0)
          [requestAdd (mkOrder ''bid1'' Buy Limit 10 1), requestAdd (mkOrder ''bid2'' Buy Limit 9 1),
           requestAdd (mkOrder ''ask1'' Sell Limit 12 1), requestAmend ''bid2'' (Some 8) None,
           requestCancel ''bid1''] \<and>
   map_option bidPrices (run (NewOrderBook cfg0 clock0)
          [requestAdd (mkOrder ''bid1'' Buy Limit 10 1), requestAdd (mkOrder ''bid2'' Buy Limit 9 1),
           requestAdd (mkOrder ''ask1'' Sell Limit 12 1), requestAmend ''bid2'' (Some 8) None,
           requestCancel ''bid1'']) = Some [8] \<and>
   map_option askPrices (run (NewOrderBook cfg0 clock0)
          [requestAdd (mkOrder ''bid1'' Buy Limit 10 1), requestAdd (mkOrder ''bid2'' Buy Limit 9 1),
           requestAdd (mkOrder ''ask1'' Sell Limit 12 1), requestAmend ''bid2'' (Some 8) None,
           requestCancel ''bid1'']) = Some [12] \<and>
   map_option (\<lambda>s. crossing s (requestAmend ''bid2'' (Some 13) None))
     (run (NewOrderBook cfg0 clock0)
          [requestAdd (mkOrder ''bid1'' Buy Limit 10 1), requestAdd (mkOrder ''bid2'' Buy Limit 9 1),
           requestAdd (mkOrder ''ask1'' Sell Limit 12 1), requestAmend ''bid2'' (Some 8) None,
           requestCancel ''bid1'']) = Some True \<and>
   (\<exists>s. run (NewOrderBook cfg0 clock0)
          [requestAdd (mkOrder ''bid1'' Buy Limit 10 1), requestAdd (mkOrder ''bid2'' Buy Limit 9 1),
           requestAdd (mkOrder ''ask1'' Sell Limit 12 1), requestAmend ''bid2'' (Some 8) None,
           requestCancel ''bid1''] = Some s \<and>
     (\<forall>t a. peek (bids s) = Some t \<longrightarrow> a \<in> set (bids s) \<longrightarrow>
        Price (order (mem s ! a)) \<le> Price (order (mem s ! t))) \<and>
     (\<forall>t a. peek (asks s) = Some t \<longrightarrow> a \<in> set (asks s) \<longrightarrow>
        Price (order (mem s ! t)) \<le> Price (order (mem s ! a))) \<and>
     (
        (\<forall>a\<in>set (bids s). \<forall>b\<in>set (asks s).
           Price (order (mem s ! a)) \<le> Price (order (mem s ! b))) \<and>
        (\<forall>t u. peek (bids s) = Some t \<longrightarrow> peek (asks s) = Some u \<longrightarrow>
           Price (order (mem s ! t)) \<le> Price (order (mem s ! u)))) \<and>
     (\<forall>req err s'. crossing s req \<longrightarrow> serve s req = Some (err, s') \<longrightarrow>
        err = None \<and> trades s' = trades s \<and>
        (\<exists>a\<in>set (bids s'). \<exists>b\<in>set (asks s').
           Price (order (mem s' ! b)) < Price (order (mem s' ! a)))))"
proof -
  have h: "crossing_free (NewOrderBook cfg0 clock0)
          [requestAdd (mkOrder ''bid1'' Buy Limit 10 1), requestAdd (mkOrder ''bid2'' Buy Limit 9 1),
           requestAdd (mkOrder ''ask1'' Sell Limit 12 1), requestAmend ''bid2'' (Some 8) None,
           requestCancel ''bid1'']"
    by code_simp
  have e1: "map_option bidPrices (run (NewOrderBook cfg0 clock0)
          [requestAdd (mkOrder ''bid1'' Buy Limit 10 1), requestAdd (mkOrder ''bid2'' Buy Limit 9 1),
           requestAdd (mkOrder ''ask1'' Sell Limit 12 1), requestAmend ''bid2'' (Some 8) None,
           requestCancel ''bid1'']) = Some [8]"
    by code_simp
  have e2: "map_option askPrices (run (NewOrderBook cfg0 clock0)
          [requestAdd (mkOrder ''bid1'' Buy Limit 10 1), requestAdd (mkOrder ''bid2'' Buy Limit 9 1),
           requestAdd (mkOrder ''ask1'' Sell Limit 12 1), requestAmend ''bid2'' (Some 8) None,
           requestCancel ''bid1'']) = Some [12]"
    by code_simp
  have e3: "map_option (\<lambda>s. crossing s (requestAmend ''bid2'' (Some 13) None))
     (run (NewOrderBook cfg0 clock0)
          [requestAdd (mkOrder ''bid1'' Buy Limit 10 1), requestAdd (mkOrder ''bid2'' Buy Limit 9 1),
           requestAdd (mkOrder ''ask1'' Sell Limit 12 1), requestAmend ''bid2'' (Some 8) None,
           requestCancel ''bid1'']) = Some True"
    by code_simp
  from top_is_best_price [of cfg0 clock0 "[requestAdd (mkOrder ''bid1'' Buy Limit 10 1), requestAdd (mkOrder ''bid2'' Buy Limit 9 1),
           requestAdd (mkOrder ''ask1'' Sell Limit 12 1), requestAmend ''bid2'' (Some 8) None,
           requestCancel ''bid1'']"] h
  have "\<exists>s. run (NewOrderBook cfg0 clock0)
          [requestAdd (mkOrder ''bid1'' Buy Limit 10 1), requestAdd (mkOrder ''bid2'' Buy Limit 9 1),
           requestAdd (mkOrder ''ask1'' Sell Limit 12 1), requestAmend ''bid2'' (Some 8) None,
           requestCancel ''bid1''] = Some s \<and>
     (\<forall>t a. peek (bids s) = Some t \<longrightarrow> a \<in> set (bids s) \<longrightarrow>
        Price (order (mem s ! a)) \<le> Price (order (mem s ! t))) \<and>
     (\<forall>t a. peek (asks s) = Some t \<longrightarrow> a \<in> set (asks s) \<longrightarrow>
        Price (order (mem s ! t)) \<le> Price (order (mem s ! a))) \<and>
     (
        (\<forall>a\<in>set (bids s). \<forall>b\<in>set (asks s).
           Price (order (mem s ! a)) \<le> Price (order (mem s ! b))) \<and>
        (\<forall>t u. peek (bids s) = Some t \<longrightarrow> peek (asks s) = Some u \<longrightarrow>
           Price (order (mem s ! t)) \<le> Price (order (mem s ! u)))) \<and>
     (\<forall>req err s'. crossing s req \<longrightarrow> serve s req = Some (err, s') \<longrightarrow>
        err = None \<and> trades s' = trades s \<and>
        (\<exists>a\<in>set (bids s'). \<exists>b\<in>set (asks s').
           Price (order (mem s' ! b)) < Price (order (mem s' ! a))))"
    by simp
  with h e1 e2 e3 show ?thesis by (intro conjI)
qed

text \<open>
  C6: on every book the worker can reach, a submit is answered with SymbolMismatch when
  the symbol differs from the configured one; else with InvalidQuantity when the quantity
  is not positive; else, for a limit order, with TickAlignment when the tick size or the
  price is not positive or the price is not a multiple of the tick size; and else it is
  accepted. A market order with the right symbol and a positive quantity is accepted
  whatever its price.
\<close>

theorem submit_reply:
  "\<exists>s. run (NewOrderBook c clock) reqs = Some s \<and>
     (\<exists>s'. processAdd s order0 =
        Some (if Symbol order0 \<noteq> cfgSymbol c then Some SymbolMismatch
              else if Quantity order0 \<le> 0 then Some InvalidQuantity
              else if Type order0 = Limit \<and>
                      (TickSize c \<le> 0 \<or> Price order0 \<le> 0 \<or> \<not> TickSize c dvd Price order0)
                   then Some TickAlignment
              else None, s')) \<and>
     (Symbol order0 = cfgSymbol c \<and> 0 < Quantity order0 \<and> Type order0 = Market \<longrightarrow>
        (\<exists>s'. processAdd s order0 = Some (None, s')))"
proof -
  from run_sound [OF sound_NewOrderBook, of c clock reqs] obtain s where
    s: "run (NewOrderBook c clock) reqs = Some s" "sound s" "cfg s = c"
    by (auto simp: NewOrderBook_def)
  from processAdd_sound [OF s(2), of order0] obtain s' where
    "processAdd s order0 = Some (validate c order0, s')" by (auto simp: s(3))
  with s(1) show ?thesis by (auto simp: validate_spec)
qed

theorem submit_reply_witness:
  "(\<exists>s. run (NewOrderBook cfg0 clock0) [requestAdd (mkOrder ''a'' Sell Limit 10 2)] = Some s \<and>
     (\<exists>s'. processAdd s (mkOrder ''m'' Buy Market (- 7) 1) = Some (None, s'))) \<and>
   Symbol (mkOrder ''m'' Buy Market (- 7) 1) = cfgSymbol cfg0 \<and>
   0 < Quantity (mkOrder ''m'' Buy Market (- 7) 1) \<and> Type (mkOrder ''m'' Buy Market (- 7) 1) = Market"
  using submit_reply [of cfg0 clock0 "[requestAdd (mkOrder ''a'' Sell Limit 10 2)]"
      "mkOrder ''m'' Buy Market (- 7) 1"]
  by (auto simp: mkOrder_def cfg0_def)


text \<open>
  C7: the trades of an accepted submit are made in the order of the queue's comparator.
  Each trade names the incoming order on its own side and its counterparty on the other;
  the counterparties are entries of the opposing queue, and they are the only orders
  whose remaining the submit reduces, each by the quantities of its trades. The
  counterparty of each trade is preceded by no entry the opposing queue held at the
  submit, the counterparties of the earlier trades apart: none of them has a better price
  (higher for bids, lower for asks); of those at its price none has an earlier
  timestamp; and of those at its price and timestamp none has a lower sequence. At every
  iteration of the loop the counterparty is the top of the opposing queue, and no entry
  then in the queue precedes it.
\<close>

theorem price_time_priority:
  "\<exists>s. run (NewOrderBook c clock) reqs = Some s \<and>
     (validate c order0 = None \<longrightarrow>
        (\<exists>s' cps new.
           processAdd s order0 = Some (None, s') \<and>
           cps = counterparties (Side order0 \<noteq> Buy)
                   (match_states (opened s) (accepted s order0) (Side order0 \<noteq> Buy)) \<and>
           new = drop (length (trades s)) (trades s') \<and>
           map (\<lambda>t. if Side order0 = Buy then SellOrderID t else BuyOrderID t) new =
             map (\<lambda>a. ID (order (mem s ! a))) cps \<and>
           map (\<lambda>t. if Side order0 = Buy then BuyOrderID t else SellOrderID t) new =
             map (\<lambda>a. ID order0) cps \<and>
           set cps \<subseteq> set (opposing s (Side order0 \<noteq> Buy)) \<and>
           (\<forall>a<length (mem s). order (mem s' ! a) =
              (order (mem s ! a))\<lparr>Remaining := Remaining (order (mem s ! a)) - filled a cps new\<rparr>) \<and>
           (\<forall>k<length cps. \<forall>a\<in>set (opposing s (Side order0 \<noteq> Buy)) - set (take k cps).
              \<not> entryLess (mem s ! a) (mem s ! (cps ! k)) \<and>
              (if Side order0 \<noteq> Buy
               then Price (order (mem s ! a)) \<le> Price (order (mem s ! (cps ! k)))
               else Price (order (mem s ! (cps ! k))) \<le> Price (order (mem s ! a))) \<and>
              (Price (order (mem s ! a)) = Price (order (mem s ! (cps ! k))) \<longrightarrow>
               Timestamp (order (mem s ! (cps ! k))) \<le> Timestamp (order (mem s ! a)) \<and>
               (Timestamp (order (mem s ! a)) = Timestamp (order (mem s ! (cps ! k))) \<longrightarrow>
                Sequence (order (mem s ! (cps ! k))) \<le> Sequence (order (mem s ! a))))) \<and>
           (\<forall>(sk, ik)\<in>set (butlast
                (match_states (opened s) (accepted s order0) (Side order0 \<noteq> Buy))).
              peek (opposing sk (Side order0 \<noteq> Buy)) = Some (hd (opposing sk (Side order0 \<noteq> Buy))) \<and>
              (\<forall>a\<in>set (opposing sk (Side order0 \<noteq> Buy)).
                 \<not> entryLess (mem sk ! a) (mem sk ! hd (opposing sk (Side order0 \<noteq> Buy)))))))"
proof -
  from run_sound [OF sound_NewOrderBook, of c clock reqs] obtain s where
    s: "run (NewOrderBook c clock) reqs = Some s" "sound s" "cfg s = c"
    by (auto simp: NewOrderBook_def)
  from s(2) have wf: "wf s" and hp: "heaps_ok s" by (simp_all add: sound_def)
  have w: "wf (opened s)" and h: "heaps_ok (opened s)" using wf hp by simp_all
  let ?b = "Side order0 \<noteq> Buy"
  let ?sts = "match_states (opened s) (accepted s order0) ?b"
  let ?cps = "counterparties ?b ?sts"
  have imp: "\<exists>s' cps new.
           processAdd s order0 = Some (None, s') \<and>
           cps = counterparties (Side order0 \<noteq> Buy)
                   (match_states (opened s) (accepted s order0) (Side order0 \<noteq> Buy)) \<and>
           new = drop (length (trades s)) (trades s') \<and>
           map (\<lambda>t. if Side order0 = Buy then SellOrderID t else BuyOrderID t) new =
             map (\<lambda>a. ID (order (mem s ! a))) cps \<and>
           map (\<lambda>t. if Side order0 = Buy then BuyOrderID t else SellOrderID t) new =
             map (\<lambda>a. ID order0) cps \<and>
           set cps \<subseteq> set (opposing s (Side order0 \<noteq> Buy)) \<and>
           (\<forall>a<length (mem s). order (mem s' ! a) =
              (order (mem s ! a))\<lparr>Remaining := Remaining (order (mem s ! a)) - filled a cps new\<rparr>) \<and>
           (\<forall>k<length cps. \<forall>a\<in>set (opposing s (Side order0 \<noteq> Buy)) - set (take k cps).
              \<not> entryLess (mem s ! a) (mem s ! (cps ! k)) \<and>
              (if Side order0 \<noteq> Buy
               then Price (order (mem s ! a)) \<le> Price (order (mem s ! (cps ! k)))
               else Price (order (mem s ! (cps ! k))) \<le> Price (order (mem s ! a))) \<and>
              (Price (order (mem s ! a)) = Price (order (mem s ! (cps ! k))) \<longrightarrow>
               Timestamp (order (mem s ! (cps ! k))) \<le> Timestamp (order (mem s ! a)) \<and>
               (Timestamp (order (mem s ! a)) = Timestamp (order (mem s ! (cps ! k))) \<longrightarrow>
                Sequence (order (mem s ! (cps ! k))) \<le> Sequence (order (mem s ! a))))) \<and>
           (\<forall>(sk, ik)\<in>set (butlast
                (match_states (opened s) (accepted s order0) (Side order0 \<noteq> Buy))).
              peek (opposing sk (Side order0 \<noteq> Buy)) = Some (hd (opposing sk (Side order0 \<noteq> Buy))) \<and>
              (\<forall>a\<in>set (opposing sk (Side order0 \<noteq> Buy)).
                 \<not> entryLess (mem sk ! a) (mem sk ! hd (opposing sk (Side order0 \<noteq> Buy)))))"
    if v: "validate c order0 = None"
  proof -
    from v s(3) have v': "validate (cfg s) order0 = None" by simp
    from processAdd_trade_ids [OF wf v'] obtain s' where
      pa: "processAdd s order0 = Some (None, s')"
      and r: "map (\<lambda>t. if Side order0 = Buy then SellOrderID t else BuyOrderID t)
                (drop (length (trades s)) (trades s')) = map (\<lambda>a. ID (order (mem s ! a))) ?cps"
      and o: "map (\<lambda>t. if Side order0 = Buy then BuyOrderID t else SellOrderID t)
                (drop (length (trades s)) (trades s')) = map (\<lambda>a. ID order0) ?cps"
      by blast
    from counterparties_rest [OF w, of ?b "accepted s order0"]
    have sub: "set ?cps \<subseteq> set (opposing s ?b)" by simp
    from processAdd_conserves [OF wf v'] pa
    have dec: "\<forall>a<length (mem s). order (mem s' ! a) =
              (order (mem s ! a))\<lparr>Remaining := Remaining (order (mem s ! a)) -
                 filled a ?cps (drop (length (trades s)) (trades s'))\<rparr>"
      by auto
    have pr: "\<not> entryLess (mem s ! a) (mem s ! (?cps ! k)) \<and>
              (if ?b then Price (order (mem s ! a)) \<le> Price (order (mem s ! (?cps ! k)))
               else Price (order (mem s ! (?cps ! k))) \<le> Price (order (mem s ! a))) \<and>
              (Price (order (mem s ! a)) = Price (order (mem s ! (?cps ! k))) \<longrightarrow>
               Timestamp (order (mem s ! (?cps ! k))) \<le> Timestamp (order (mem s ! a)) \<and>
               (Timestamp (order (mem s ! a)) = Timestamp (order (mem s ! (?cps ! k))) \<longrightarrow>
                Sequence (order (mem s ! (?cps ! k))) \<le> Sequence (order (mem s ! a))))"
      if k: "k < length ?cps" and a: "a \<in> set (opposing s ?b) - set (take k ?cps)" for k a
    proof -
      from match_states_priority [OF w, of ?b "accepted s order0"] h k a
      have nb: "\<not> before ?b (order (mem s ! a)) (order (mem s ! (?cps ! k)))" by simp
      from wf a have "isBid (mem s ! a) = ?b" by (simp add: wf_sides [of s ?b] flags_def)
      with nb have "\<not> entryLess (mem s ! a) (mem s ! (?cps ! k))"
        by (simp add: entryLess_before)
      with nb [unfolded not_before_iff] show ?thesis by blast
    qed
    have st: "peek (opposing sk ?b) = Some (hd (opposing sk ?b)) \<and>
              (\<forall>a\<in>set (opposing sk ?b). \<not> entryLess (mem sk ! a) (mem sk ! hd (opposing sk ?b)))"
      if m: "(sk, ik) \<in> set (butlast ?sts)" for sk ik
    proof -
      from m have "(sk, ik) \<in> set ?sts" by (rule in_set_butlastD)
      with match_states_heaps [OF w h, of "accepted s order0" ?b]
      have wk: "wf sk" and hk: "heaps_ok sk" by blast+
      from top_is_best(2) [OF wk hk] matching_state(1) [OF w m] show ?thesis by blast
    qed
    show ?thesis
      apply (rule exI [of _ s'])
      apply (rule exI [of _ ?cps])
      apply (rule exI [of _ "drop (length (trades s)) (trades s')"])
      apply (intro conjI)
              apply (rule pa)
             apply (rule refl)
            apply (rule refl)
           apply (rule r)
          apply (rule o)
         apply (rule sub)
        apply (rule dec)
       apply (intro allI impI ballI)
       apply (erule (1) pr)
      apply (intro ballI)
      apply (simp only: split_paired_all prod.case)
      apply (erule st)
      done
  qed
  show ?thesis
    apply (rule exI [of _ s])
    apply (rule conjI)
     apply (rule s(1))
    apply (rule impI)
    apply (erule imp)
    done
qed

text \<open>
  Bids \<open>b1\<close> and \<open>b2\<close> at 10 and then \<open>b3\<close> at 11 rest; a sell of 3 at 10 trades with
  \<open>b3\<close>, then \<open>b1\<close>, then \<open>b2\<close>.
\<close>

theorem price_time_priority_witness:
  "validate cfg0 (mkOrder ''s1'' Sell Limit 10 3) = None \<and>
   map_option (map BuyOrderID \<circ> trades)
     (run (NewOrderBook cfg0 clock0)
        [requestAdd (mkOrder ''b1'' Buy Limit 10 1), requestAdd (mkOrder ''b2'' Buy Limit 10 1),
         requestAdd (mkOrder ''b3'' Buy Limit 11 1), requestAdd (mkOrder ''s1'' Sell Limit 10 3)])
     = Some [''b3'', ''b1'', ''b2''] \<and>
   (\<exists>s. run (NewOrderBook cfg0 clock0)
          [requestAdd (mkOrder ''b1'' Buy Limit 10 1), requestAdd (mkOrder ''b2'' Buy Limit 10 1),
           requestAdd (mkOrder ''b3'' Buy Limit 11 1)] = Some s \<and>
     (
        (\<exists>s' cps new.
           processAdd s (mkOrder ''s1'' Sell Limit 10 3) = Some (None, s') \<and>
           cps = counterparties (Side (mkOrder ''s1'' Sell Limit 10 3) \<noteq> Buy)
                   (match_states (opened s) (accepted s (mkOrder ''s1'' Sell Limit 10 3)) (Side (mkOrder ''s1'' Sell Limit 10 3) \<noteq> Buy)) \<and>
           new = drop (length (trades s)) (trades s') \<and>
           map (\<lambda>t. if Side (mkOrder ''s1'' Sell Limit 10 3) = Buy then SellOrderID t else BuyOrderID t) new =
             map (\<lambda>a. ID (order (mem s ! a))) cps \<and>
           map (\<lambda>t. if Side (mkOrder ''s1'' Sell Limit 10 3) = Buy then BuyOrderID t else SellOrderID t) new =
             map (\<lambda>a. ID (mkOrder ''s1'' Sell Limit 10 3)) cps \<and>
           set cps \<subseteq> set (opposing s (Side (mkOrder ''s1'' Sell Limit 10 3) \<noteq> Buy)) \<and>
           (\<forall>a<length (mem s). order (mem s' ! a) =
              (order (mem s ! a))\<lparr>Remaining := Remaining (order (mem s ! a)) - filled a cps new\<rparr>) \<and>
           (\<forall>k<length cps. \<forall>a\<in>set (opposing s (Side (mkOrder ''s1'' Sell Limit 10 3) \<noteq> Buy)) - set (take k cps).
              \<not> entryLess (mem s ! a) (mem s ! (cps ! k)) \<and>
              (if Side (mkOrder ''s1'' Sell Limit 10 3) \<noteq> Buy
               then Price (order (mem s ! a)) \<le> Price (order (mem s ! (cps ! k)))
               else Price (order (mem s ! (cps ! k))) \<le> Price (order (mem s ! a))) \<and>
              (Price (order (mem s ! a)) = Price (order (mem s ! (cps ! k))) \<longrightarrow>
               Timestamp (order (mem s ! (cps ! k))) \<le> Timestamp (order (mem s ! a)) \<and>
               (Timestamp (order (mem s ! a)) = Timestamp (order (mem s ! (cps ! k))) \<longrightarrow>
                Sequence (order (mem s ! (cps ! k))) \<le> Sequence (order (mem s ! a))))) \<and>
           (\<forall>(sk, ik)\<in>set (butlast
                (match_states (opened s) (accepted s (mkOrder ''s1'' Sell Limit 10 3)) (Side (mkOrder ''s1'' Sell Limit 10 3) \<noteq> Buy))).
              peek (opposing sk (Side (mkOrder ''s1'' Sell Limit 10 3) \<noteq> Buy)) = Some (hd (opposing sk (Side (mkOrder ''s1'' Sell Limit 10 3) \<noteq> Buy))) \<and>
              (\<forall>a\<in>set (opposing sk (Side (mkOrder ''s1'' Sell Limit 10 3) \<noteq> Buy)).
                 \<not> entryLess (mem sk ! a) (mem sk ! hd (opposing sk (Side (mkOrder ''s1'' Sell Limit 10 3) \<noteq> Buy))))))))"
proof -
  have h: "validate cfg0 (mkOrder ''s1'' Sell Limit 10 3) = None"
    by (simp add: cfg0_def validate_def mkOrder_def go_rem_def)
  have e: "map_option (map BuyOrderID \<circ> trades)
     (run (NewOrderBook cfg0 clock0)
        [requestAdd (mkOrder ''b1'' Buy Limit 10 1), requestAdd (mkOrder ''b2'' Buy Limit 10 1),
         requestAdd (mkOrder ''b3'' Buy Limit 11 1), requestAdd (mkOrder ''s1'' Sell Limit 10 3)])
     = Some [''b3'', ''b1'', ''b2'']"
    by code_simp
  from price_time_priority [of cfg0 clock0 "[requestAdd (mkOrder ''b1'' Buy Limit 10 1), requestAdd (mkOrder ''b2'' Buy Limit 10 1),
           requestAdd (mkOrder ''b3'' Buy Limit 11 1)]" "mkOrder ''s1'' Sell Limit 10 3"] h
  have "\<exists>s. run (NewOrderBook cfg0 clock0)
          [requestAdd (mkOrder ''b1'' Buy Limit 10 1), requestAdd (mkOrder ''b2'' Buy Limit 10 1),
           requestAdd (mkOrder ''b3'' Buy Limit 11 1)] = Some s \<and>
     (
        (\<exists>s' cps new.
           processAdd s (mkOrder ''s1'' Sell Limit 10 3) = Some (None, s') \<and>
           cps = counterparties (Side (mkOrder ''s1'' Sell Limit 10 3) \<noteq> Buy)
                   (match_states (opened s) (accepted s (mkOrder ''s1'' Sell Limit 10 3)) (Side (mkOrder ''s1'' Sell Limit 10 3) \<noteq> Buy)) \<and>
           new = drop (length (trades s)) (trades s') \<and>
           map (\<lambda>t. if Side (mkOrder ''s1'' Sell Limit 10 3) = Buy then SellOrderID t else BuyOrderID t) new =
             map (\<lambda>a. ID (order (mem s ! a))) cps \<and>
           map (\<lambda>t. if Side (mkOrder ''s1'' Sell Limit 10 3) = Buy then BuyOrderID t else SellOrderID t) new =
             map (\<lambda>a. ID (mkOrder ''s1'' Sell Limit 10 3)) cps \<and>
           set cps \<subseteq> set (opposing s (Side (mkOrder ''s1'' Sell Limit 10 3) \<noteq> Buy)) \<and>
           (\<forall>a<length (mem s). order (mem s' ! a) =
              (order (mem s ! a))\<lparr>Remaining := Remaining (order (mem s ! a)) - filled a cps new\<rparr>) \<and>
           (\<forall>k<length cps. \<forall>a\<in>set (opposing s (Side (mkOrder ''s1'' Sell Limit 10 3) \<noteq> Buy)) - set (take k cps).
              \<not> entryLess (mem s ! a) (mem s ! (cps ! k)) \<and>
              (if Side (mkOrder ''s1'' Sell Limit 10 3) \<noteq> Buy
               then Price (order (mem s ! a)) \<le> Price (order (mem s ! (cps ! k)))
               else Price (order (mem s ! (cps ! k))) \<le> Price (order (mem s ! a))) \<and>
              (Price (order (mem s ! a)) = Price (order (mem s ! (cps ! k))) \<longrightarrow>
               Timestamp (order (mem s ! (cps ! k))) \<le> Timestamp (order (mem s ! a)) \<and>
               (Timestamp (order (mem s ! a)) = Timestamp (order (mem s ! (cps ! k))) \<longrightarrow>
                Sequence (order (mem s ! (cps ! k))) \<le> Sequence (order (mem s ! a))))) \<and>
           (\<forall>(sk, ik)\<in>set (butlast
                (match_states (opened s) (accepted s (mkOrder ''s1'' Sell Limit 10 3)) (Side (mkOrder ''s1'' Sell Limit 10 3) \<noteq> Buy))).
              peek (opposing sk (Side (mkOrder ''s1'' Sell Limit 10 3) \<noteq> Buy)) = Some (hd (opposing sk (Side (mkOrder ''s1'' Sell Limit 10 3) \<noteq> Buy))) \<and>
              (\<forall>a\<in>set (opposing sk (Side (mkOrder ''s1'' Sell Limit 10 3) \<noteq> Buy)).
                 \<not> entryLess (mem sk ! a) (mem sk ! hd (opposing sk (Side (mkOrder ''s1'' Sell Limit 10 3) \<noteq> Buy)))))))"
    by simp
  with h e show ?thesis by (intro conjI)
qed

text \<open>
  C8: if the configured depth is positive, neither side of a book the worker can reach
  holds more entries than the depth. Depth trimming never panics. On a queue within the
  depth (or with a depth that is not positive) it changes nothing. On a queue over a
  positive depth each round evicts one entry that is, on that side's scale (lowest price
  for bids, highest for asks, ties to the later timestamp), at least as bad as every
  entry of the queue, and deletes its id from the index; the rounds stop when exactly
  the depth is left. No order is changed, every evicted entry is at least as bad as
  every entry kept, and the index of a queue without duplicates loses the ids of the
  evicted entries and nothing else. Trimming is silent: an accepted submit answers nil,
  its trades are those of the matching loop, and the book it leaves is the one the loop
  leaves, with the remainder of a limit order pushed on its side and that side trimmed.
\<close>

theorem depth_bound:
  "\<exists>s. run (NewOrderBook c clock) reqs = Some s \<and>
     (0 < MaxDepth c \<longrightarrow>
        int (length (bids s)) \<le> MaxDepth c \<and> int (length (asks s)) \<le> MaxDepth c) \<and>
     (\<exists>m' q' ords'. trimDepth m q d isB ords = Some (m', q', ords') \<and>
        (\<not> (0 < d \<and> d < int (length q)) \<longrightarrow> m' = m \<and> q' = q \<and> ords' = ords) \<and>
        (0 < d \<and> d < int (length q) \<longrightarrow>
           int (length q') = d \<and>
           (\<exists>m1 q1 e. e \<in> set q \<and> (\<forall>a\<in>set q. worse isB (order (m ! e)) (order (m ! a))) \<and>
              mset q = add_mset e (mset q1) \<and> (\<forall>a. order (m1 ! a) = order (m ! a)) \<and>
              trimDepth m q d isB ords =
                trimDepth m1 q1 d isB (ords(ID (order (m ! e)) := None)))) \<and>
        mset q' \<subseteq># mset q \<and> (\<forall>a. order (m' ! a) = order (m ! a)) \<and>
        (\<forall>e\<in>set q - set q'. \<forall>a\<in>set q'. worse isB (order (m ! e)) (order (m ! a))) \<and>
        (distinct q \<longrightarrow>
           ords' = (\<lambda>oid. if oid \<in> (\<lambda>e. ID (order (m ! e))) ` (set q - set q') then None
                          else ords oid))) \<and>
     (validate c order0 = None \<longrightarrow>
        (\<exists>s1 incoming1 s'.
           match_loop (opened s) (accepted s order0) (Side order0 \<noteq> Buy) = Some (s1, incoming1) \<and>
           processAdd s order0 = Some (None, s') \<and> trades s' = trades s1 \<and> cfg s1 = c \<and>
           (if 0 < Remaining incoming1 \<and> Type incoming1 = Limit then
              \<exists>m2 q2 m3 q3 orders3.
                heap_Push
                  (mem s1 @ [\<lparr>order = incoming1, index = 0, isBid = (Side incoming1 = Buy)\<rparr>])
                  (resting s1 (Side order0 \<noteq> Buy)) (length (mem s1)) = (m2, q2) \<and>
                trimDepth m2 q2 (MaxDepth c) (Side incoming1 = Buy)
                  ((orders s1)(ID incoming1 \<mapsto> length (mem s1))) = Some (m3, q3, orders3) \<and>
                s' = set_resting (s1\<lparr>mem := m3, orders := orders3\<rparr>) (Side order0 \<noteq> Buy) q3
            else s' = s1)))"
proof -
  from run_sound [OF sound_NewOrderBook, of c clock reqs] obtain s where
    s: "run (NewOrderBook c clock) reqs = Some s" "sound s" "cfg s = c"
    by (auto simp: NewOrderBook_def)
  from s(2) have wf: "wf s" by (simp add: sound_def)
  from s(2,3) have a: "0 < MaxDepth c \<longrightarrow>
        int (length (bids s)) \<le> MaxDepth c \<and> int (length (asks s)) \<le> MaxDepth c"
    by (simp add: sound_def depth_ok_def)
  have C: "(\<exists>s1 incoming1 s'.
           match_loop (opened s) (accepted s order0) (Side order0 \<noteq> Buy) = Some (s1, incoming1) \<and>
           processAdd s order0 = Some (None, s') \<and> trades s' = trades s1 \<and> cfg s1 = c \<and>
           (if 0 < Remaining incoming1 \<and> Type incoming1 = Limit then
              \<exists>m2 q2 m3 q3 orders3.
                heap_Push
                  (mem s1 @ [\<lparr>order = incoming1, index = 0, isBid = (Side incoming1 = Buy)\<rparr>])
                  (resting s1 (Side order0 \<noteq> Buy)) (length (mem s1)) = (m2, q2) \<and>
                trimDepth m2 q2 (MaxDepth c) (Side incoming1 = Buy)
                  ((orders s1)(ID incoming1 \<mapsto> length (mem s1))) = Some (m3, q3, orders3) \<and>
                s' = set_resting (s1\<lparr>mem := m3, orders := orders3\<rparr>) (Side order0 \<noteq> Buy) q3
            else s' = s1))"
    if "validate c order0 = None"
    using that s(3) by (intro processAdd_trims [OF wf]) simp_all
  show ?thesis
    apply (rule exI [of _ s])
    apply (intro conjI)
       apply (rule s(1))
      apply (rule a)
     apply (rule trimDepth_full)
    apply (rule impI)
    apply (erule C)
    done
qed


definition cfg2 :: OrderBookConfig where
  "cfg2 = \<lparr>cfgSymbol = ''B'', TickSize = 1, MaxDepth = 2\<rparr>"

definition twoBids :: "orderEntry list" where
  "twoBids =
     [\<lparr>order = mkOrder ''b1'' Buy Limit 10 1, index = 0, isBid = True\<rparr>,
      \<lparr>order = mkOrder ''b2'' Buy Limit 9 1, index = 1, isBid = True\<rparr>]"

text \<open>
  With depth 2, bids at 10, 9 and 8 leave the first two and \<open>b3\<close> out of the index. On a
  queue of the bids at 10 and 9, trimming to depth 1 evicts the bid at 9 and its id;
  trimming to depth 2 changes nothing.
\<close>

theorem depth_bound_witness:
  "0 < MaxDepth cfg2 \<and> (1::int) < int (length [0, 1 :: nat]) \<and>
   \<not> (2::int) < int (length [0, 1 :: nat]) \<and> distinct [0, 1 :: nat] \<and>
   validate cfg2 (mkOrder ''b4'' Buy Limit 7 1) = None \<and>
   map_option (\<lambda>s. (map (\<lambda>a. ID (order (mem s ! a))) (bids s), orders s ''b3''))
     (run (NewOrderBook cfg2 clock0)
           [requestAdd (mkOrder ''b1'' Buy Limit 10 1), requestAdd (mkOrder ''b2'' Buy Limit 9 1),
            requestAdd (mkOrder ''b3'' Buy Limit 8 1)]) = Some ([''b1'', ''b2''], None) \<and>
   map_option (\<lambda>(m', q', ords'). (q', ords' ''b1'', ords' ''b2''))
     (trimDepth twoBids [0, 1] 1 True [''b1'' \<mapsto> 0, ''b2'' \<mapsto> 1]) = Some ([0], Some 0, None) \<and>
   (\<exists>m' q' ords'. trimDepth twoBids [0, 1] 2 True [''b1'' \<mapsto> 0, ''b2'' \<mapsto> 1] = Some (m', q', ords') \<and>
      m' = twoBids \<and> q' = [0, 1] \<and> ords' = [''b1'' \<mapsto> 0, ''b2'' \<mapsto> 1]) \<and>
   (\<exists>s. run (NewOrderBook cfg2 clock0)
           [requestAdd (mkOrder ''b1'' Buy Limit 10 1), requestAdd (mkOrder ''b2'' Buy Limit 9 1),
            requestAdd (mkOrder ''b3'' Buy Limit 8 1)] = Some s \<and>
     (
        int (length (bids s)) \<le> MaxDepth cfg2 \<and> int (length (asks s)) \<le> MaxDepth cfg2) \<and>
     (\<exists>m' q' ords'. trimDepth twoBids [0, 1] 1 True [''b1'' \<mapsto> 0, ''b2'' \<mapsto> 1] = Some (m', q', ords') \<and>
        (
           int (length q') = 1 \<and>
           (\<exists>m1 q1 e. e \<in> set [0, 1] \<and> (\<forall>a\<in>set [0, 1]. worse True (order (twoBids ! e)) (order (twoBids ! a))) \<and>
              mset [0, 1] = add_mset e (mset q1) \<and> (\<forall>a. order (m1 ! a) = order (twoBids ! a)) \<and>
              trimDepth twoBids [0, 1] 1 True [''b1'' \<mapsto> 0, ''b2'' \<mapsto> 1] =
                trimDepth m1 q1 1 True ([''b1'' \<mapsto> 0, ''b2'' \<mapsto> 1](ID (order (twoBids ! e)) := None)))) \<and>
        mset q' \<subseteq># mset [0, 1] \<and> (\<forall>a. order (m' ! a) = order (twoBids ! a)) \<and>
        (\<forall>e\<in>set [0, 1] - set q'. \<forall>a\<in>set q'. worse True (order (twoBids ! e)) (order (twoBids ! a))) \<and>
        (
           ords' = (\<lambda>oid. if oid \<in> (\<lambda>e. ID (order (twoBids ! e))) ` (set [0, 1] - set q') then None
                          else [''b1'' \<mapsto> 0, ''b2'' \<mapsto> 1] oid))) \<and>
     (
        (\<exists>s1 incoming1 s'.
           match_loop (opened s) (accepted s (mkOrder ''b4'' Buy Limit 7 1)) (Side (mkOrder ''b4'' Buy Limit 7 1) \<noteq> Buy) = Some (s1, incoming1) \<and>
           processAdd s (mkOrder ''b4'' Buy Limit 7 1) = Some (None, s') \<and> trades s' = trades s1 \<and> cfg s1 = cfg2 \<and>
           (if 0 < Remaining incoming1 \<and> Type incoming1 = Limit then
              \<exists>m2 q2 m3 q3 orders3.
                heap_Push
                  (mem s1 @ [\<lparr>order = incoming1, index = 0, isBid = (Side incoming1 = Buy)\<rparr>])
                  (resting s1 (Side (mkOrder ''b4'' Buy Limit 7 1) \<noteq> Buy)) (length (mem s1)) = (m2, q2) \<and>
                trimDepth m2 q2 (MaxDepth cfg2) (Side incoming1 = Buy)
                  ((orders s1)(ID incoming1 \<mapsto> length (mem s1))) = Some (m3, q3, orders3) \<and>
                s' = set_resting (s1\<lparr>mem := m3, orders := orders3\<rparr>) (Side (mkOrder ''b4'' Buy Limit 7 1) \<noteq> Buy) q3
            else s' = s1))))"
proof -
  have h: "0 < MaxDepth cfg2" "(1::int) < int (length [0, 1 :: nat])"
    "\<not> (2::int) < int (length [0, 1 :: nat])" "distinct [0, 1 :: nat]"
    "validate cfg2 (mkOrder ''b4'' Buy Limit 7 1) = None"
    by (simp_all add: cfg2_def validate_def mkOrder_def go_rem_def)
  have e1: "map_option (\<lambda>s. (map (\<lambda>a. ID (order (mem s ! a))) (bids s), orders s ''b3''))
     (run (NewOrderBook cfg2 clock0)
           [requestAdd (mkOrder ''b1'' Buy Limit 10 1), requestAdd (mkOrder ''b2'' Buy Limit 9 1),
            requestAdd (mkOrder ''b3'' Buy Limit 8 1)]) = Some ([''b1'', ''b2''], None)"
    by code_simp
  have e2: "map_option (\<lambda>(m', q', ords'). (q', ords' ''b1'', ords' ''b2''))
     (trimDepth twoBids [0, 1] 1 True [''b1'' \<mapsto> 0, ''b2'' \<mapsto> 1]) = Some ([0], Some 0, None)"
    by code_simp
  from depth_bound [of cfg2 clock0
      "[requestAdd (mkOrder ''b1'' Buy Limit 10 1), requestAdd (mkOrder ''b2'' Buy Limit 9 1),
            requestAdd (mkOrder ''b3'' Buy Limit 8 1)]"
      twoBids "[0, 1]" 2 True "[''b1'' \<mapsto> 0, ''b2'' \<mapsto> 1]" "mkOrder ''b4'' Buy Limit 7 1"]
  have t2: "(\<exists>m' q' ords'. trimDepth twoBids [0, 1] 2 True [''b1'' \<mapsto> 0, ''b2'' \<mapsto> 1] = Some (m', q', ords') \<and>
      m' = twoBids \<and> q' = [0, 1] \<and> ords' = [''b1'' \<mapsto> 0, ''b2'' \<mapsto> 1])"
    by (elim exE conjE) simp
  from depth_bound [of cfg2 clock0
      "[requestAdd (mkOrder ''b1'' Buy Limit 10 1), requestAdd (mkOrder ''b2'' Buy Limit 9 1),
            requestAdd (mkOrder ''b3'' Buy Limit 8 1)]"
      twoBids "[0, 1]" 1 True "[''b1'' \<mapsto> 0, ''b2'' \<mapsto> 1]" "mkOrder ''b4'' Buy Limit 7 1"] h
  have t1: "\<exists>s. run (NewOrderBook cfg2 clock0)
           [requestAdd (mkOrder ''b1'' Buy Limit 10 1), requestAdd (mkOrder ''b2'' Buy Limit 9 1),
            requestAdd (mkOrder ''b3'' Buy Limit 8 1)] = Some s \<and>
     (
        int (length (bids s)) \<le> MaxDepth cfg2 \<and> int (length (asks s)) \<le> MaxDepth cfg2) \<and>
     (\<exists>m' q' ords'. trimDepth twoBids [0, 1] 1 True [''b1'' \<mapsto> 0, ''b2'' \<mapsto> 1] = Some (m', q', ords') \<and>
        (
           int (length q') = 1 \<and>
           (\<exists>m1 q1 e. e \<in> set [0, 1] \<and> (\<forall>a\<in>set [0, 1]. worse True (order (twoBids ! e)) (order (twoBids ! a))) \<and>
              mset [0, 1] = add_mset e (mset q1) \<and> (\<forall>a. order (m1 ! a) = order (twoBids ! a)) \<and>
              trimDepth twoBids [0, 1] 1 True [''b1'' \<mapsto> 0, ''b2'' \<mapsto> 1] =
                trimDepth m1 q1 1 True ([''b1'' \<mapsto> 0, ''b2'' \<mapsto> 1](ID (order (twoBids ! e)) := None)))) \<and>
        mset q' \<subseteq># mset [0, 1] \<and> (\<forall>a. order (m' ! a) = order (twoBids ! a)) \<and>
        (\<forall>e\<in>set [0, 1] - set q'. \<forall>a\<in>set q'. worse True (order (twoBids ! e)) (order (twoBids ! a))) \<and>
        (
           ords' = (\<lambda>oid. if oid \<in> (\<lambda>e. ID (order (twoBids ! e))) ` (set [0, 1] - set q') then None
                          else [''b1'' \<mapsto> 0, ''b2'' \<mapsto> 1] oid))) \<and>
     (
        (\<exists>s1 incoming1 s'.
           match_loop (opened s) (accepted s (mkOrder ''b4'' Buy Limit 7 1)) (Side (mkOrder ''b4'' Buy Limit 7 1) \<noteq> Buy) = Some (s1, incoming1) \<and>
           processAdd s (mkOrder ''b4'' Buy Limit 7 1) = Some (None, s') \<and> trades s' = trades s1 \<and> cfg s1 = cfg2 \<and>
           (if 0 < Remaining incoming1 \<and> Type incoming1 = Limit then
              \<exists>m2 q2 m3 q3 orders3.
                heap_Push
                  (mem s1 @ [\<lparr>order = incoming1, index = 0, isBid = (Side incoming1 = Buy)\<rparr>])
                  (resting s1 (Side (mkOrder ''b4'' Buy Limit 7 1) \<noteq> Buy)) (length (mem s1)) = (m2, q2) \<and>
                trimDepth m2 q2 (MaxDepth cfg2) (Side incoming1 = Buy)
                  ((orders s1)(ID incoming1 \<mapsto> length (mem s1))) = Some (m3, q3, orders3) \<and>
                s' = set_resting (s1\<lparr>mem := m3, orders := orders3\<rparr>) (Side (mkOrder ''b4'' Buy Limit 7 1) \<noteq> Buy) q3
            else s' = s1)))"
    by simp
  from h e1 e2 t2 t1 show ?thesis by (intro conjI)
qed

end
